(* ===== verification/Prelude.thy ===== *)
theory Prelude
  imports Complex_Main "HOL-Library.Word"
begin

text \<open>
  What every theory of the development shares: the type names of the C integers, the
  errno values the code returns, byte memories with their block reads and writes, the
  little-endian 32-bit length field, the word facts about power-of-two capacities, and the
  decimal numbers and separated fields of the texts the code writes.
\<close>

unbundle bit_operations_syntax

named_theorems mem_simps \<open>reads and writes of byte memories\<close>
named_theorems cfg_simps \<open>fields of configuration values\<close>

subsection \<open>C integer types and return codes\<close>

type_synonym u8 = "8 word"
type_synonym u32 = "32 word"
type_synonym u64 = "64 word"

text \<open>\<open>size_t\<close> is 64 bits wide on the platforms the code targets.\<close>
type_synonym csize = "64 word"

text \<open>
  The code returns \<open>int\<close> results: a count or 0 on success and a negated errno value on
  failure. The numbers are those of Linux; the proofs use only that the ones the code
  compares are positive and distinct.
\<close>

definition EPERM :: int where "EPERM = 1"
definition EINTR :: int where "EINTR = 4"
definition EIO :: int where "EIO = 5"
definition EAGAIN :: int where "EAGAIN = 11"
definition ENOMEM :: int where "ENOMEM = 12"
definition EINVAL :: int where "EINVAL = 22"
definition ENAMETOOLONG :: int where "ENAMETOOLONG = 36"
definition EMSGSIZE :: int where "EMSGSIZE = 90"
definition ECONNRESET :: int where "ECONNRESET = 104"
definition ENOBUFS :: int where "ENOBUFS = 105"
definition ETIMEDOUT :: int where "ETIMEDOUT = 110"
definition ECONNREFUSED :: int where "ECONNREFUSED = 111"

lemmas errno_defs = EPERM_def EINTR_def EIO_def EAGAIN_def ENOMEM_def EINVAL_def
  ENAMETOOLONG_def EMSGSIZE_def ECONNRESET_def ENOBUFS_def ETIMEDOUT_def ECONNREFUSED_def

subsection \<open>Byte memories\<close>

text \<open>
  A region of bytes is a total function from offsets. \<open>mem_write m p bs\<close> is a
  \<open>memcpy\<close> of \<open>bs\<close> to offset \<open>p\<close>, \<open>mem_read m p n\<close> reads \<open>n\<close> bytes there.
\<close>

type_synonym mem = "nat \<Rightarrow> u8"

definition mem_write :: "mem \<Rightarrow> nat \<Rightarrow> u8 list \<Rightarrow> mem" where
  "mem_write m p bs = (\<lambda>i. if p \<le> i \<and> i < p + length bs then bs ! (i - p) else m i)"

definition mem_read :: "mem \<Rightarrow> nat \<Rightarrow> nat \<Rightarrow> u8 list" where
  "mem_read m p n = map m [p..<p + n]"

lemma length_mem_read [simp]: "length (mem_read m p n) = n"
  by (simp add: mem_read_def)

lemma nth_mem_read [simp]: "i < n \<Longrightarrow> mem_read m p n ! i = m (p + i)"
  by (simp add: mem_read_def)

lemma mem_read_eqI: "(\<And>i. i < n \<Longrightarrow> m (p + i) = m' (p' + i)) \<Longrightarrow> mem_read m p n = mem_read m' p' n"
  by (simp add: list_eq_iff_nth_eq)

lemma mem_read_write_same [mem_simps]: "n = length bs \<Longrightarrow> mem_read (mem_write m p bs) p n = bs"
  by (simp add: list_eq_iff_nth_eq mem_write_def)

lemma mem_read_write_disjoint [mem_simps]:
  "p + n \<le> q \<or> q + length bs \<le> p \<Longrightarrow> mem_read (mem_write m q bs) p n = mem_read m p n"
  by (rule mem_read_eqI) (auto simp: mem_write_def)

lemma mem_write_outside: "i < p \<or> p + length bs \<le> i \<Longrightarrow> mem_write m p bs i = m i"
  by (auto simp: mem_write_def)

lemma mem_write_Nil [simp]: "mem_write m p [] = m"
  by (rule ext) (auto simp: mem_write_def)

lemma mem_write_append: "mem_write (mem_write m p xs) (p + length xs) ys = mem_write m p (xs @ ys)"
  by (rule ext) (auto simp: mem_write_def nth_append)

lemma mem_read_split: "mem_read m p (a + b) = mem_read m p a @ mem_read m (p + a) b"
  by (simp add: list_eq_iff_nth_eq nth_append)

subsection \<open>The 32-bit little-endian length field\<close>

definition le32 :: "u32 \<Rightarrow> u8 list" where
  "le32 w = map (\<lambda>i. ucast (drop_bit (8 * i) w)) [0, 1, 2, 3]"

definition un_le32 :: "u8 list \<Rightarrow> u32" where
  "un_le32 bs = (case bs of [a, b, c, d] \<Rightarrow>
      ucast a OR push_bit 8 (ucast b) OR push_bit 16 (ucast c) OR push_bit 24 (ucast d)
    | _ \<Rightarrow> 0)"

lemma length_le32 [simp]: "length (le32 w) = 4"
  by (simp add: le32_def)

lemma un_le32_le32 [simp]: "un_le32 (le32 w) = w"
proof (rule bit_word_eqI)
  fix n assume "n < LENGTH(32)"
  then have "n < 8 \<or> 8 \<le> n \<and> n < 16 \<or> 16 \<le> n \<and> n < 24 \<or> 24 \<le> n \<and> n < 32"
    by auto
  then show "bit (un_le32 (le32 w)) n = bit w n"
    by (elim disjE conjE) (auto simp: le32_def un_le32_def bit_simps)
qed

lemma le32_zero: "le32 0 = [0, 0, 0, 0]"
  by (simp add: le32_def)

lemma le32_un_le32:
  assumes "length bs = 4" shows "le32 (un_le32 bs) = bs"
proof -
  obtain a b c d where bs: "bs = [a, b, c, d]"
    using assms by (auto simp: length_Suc_conv numeral_eq_Suc)
  let ?w = "un_le32 bs"
  have "ucast (drop_bit 0 ?w) = a" "ucast (drop_bit 8 ?w) = b"
    "ucast (drop_bit 16 ?w) = c" "ucast (drop_bit 24 ?w) = d"
    by (rule bit_word_eqI; auto simp: bs un_le32_def bit_simps dest: bit_imp_le_length)+
  then show ?thesis by (simp add: le32_def bs)
qed

lemma un_le32_zero_iff: "length bs = 4 \<Longrightarrow> un_le32 bs = 0 \<longleftrightarrow> bs = [0, 0, 0, 0]"
  using le32_un_le32 [of bs] un_le32_le32 [of 0] by (auto simp: le32_zero)

subsection \<open>Words and powers of two\<close>

lemma unat_of_nat_u64: "n < 2 ^ 64 \<Longrightarrow> unat (of_nat n :: u64) = n"
  by (simp add: unat_of_nat)

lemma of_nat_u32_inj:
  assumes "(of_nat x :: u32) = of_nat y" "x < 2 ^ 32" "y < 2 ^ 32" shows "x = y"
proof -
  have "unat (of_nat x :: u32) = unat (of_nat y :: u32)" by (simp only: assms(1))
  then have "x mod 2 ^ 32 = y mod 2 ^ 32" unfolding unat_of_nat by simp
  then show ?thesis using assms(2,3) by simp
qed

lemma unat_and_mask: "unat (w AND (2 ^ k - 1)) = unat w mod 2 ^ k" for w :: u64
proof -
  have "w AND (2 ^ k - 1) = take_bit k w" by (simp add: take_bit_eq_mask mask_eq_exp_minus_1)
  then have "unat (w AND (2 ^ k - 1)) = take_bit k (unat w)" by (simp only: unsigned_take_bit_eq)
  then show ?thesis by (simp only: take_bit_eq_mod)
qed

lemma and_not_mask: "w AND NOT m = w - (w AND m)" for w m :: u64
proof -
  have "w - (w AND m) = w AND NOT (w AND m)"
    by (rule disjunctive_diff) (simp add: bit_simps)
  also have "\<dots> = w AND NOT m"
    by (rule bit_word_eqI) (auto simp: bit_simps)
  finally show ?thesis by simp
qed

subsection \<open>Numbers and lines of text\<close>

text \<open>The decimal digits of a number, as \<open>printf\<close> writes an unsigned argument.\<close>

fun string_of_nat :: "nat \<Rightarrow> string" where
  "string_of_nat n = (let digit = char_of (48 + n mod 10) in
     (if 10 \<le> n then string_of_nat (n div 10) else []) @ [digit])"

declare string_of_nat.simps [simp del]

definition nat_of_string :: "string \<Rightarrow> nat" where
  "nat_of_string s = foldl (\<lambda>n c. 10 * n + (of_char c - 48)) 0 s"

lemma digit_value: "m < 10 \<Longrightarrow> of_char (char_of (48 + m) :: char) = (48 + m :: nat)"
  by (simp add: of_char_of)

lemma string_of_nat_inverse [simp]: "nat_of_string (string_of_nat n) = n"
proof (induction n rule: string_of_nat.induct)
  case (1 n)
  have d: "of_char (char_of (48 + n mod 10) :: char) = (48 + n mod 10 :: nat)" by (rule digit_value) simp
  show ?case
    by (subst string_of_nat.simps) (use 1 d in \<open>auto simp: nat_of_string_def Let_def\<close>)
qed

lemma string_of_nat_digits: "c \<in> set (string_of_nat n) \<Longrightarrow> of_char c \<in> {48..57::nat}"
proof (induction n rule: string_of_nat.induct)
  case (1 n)
  have d: "of_char (char_of (48 + n mod 10) :: char) = (48 + n mod 10 :: nat)" by (rule digit_value) simp
  from 1 d show ?case by (subst (asm) (2) string_of_nat.simps) (auto simp: Let_def split: if_split_asm)
qed

text \<open>The parts between two separators, and back.\<close>

fun split_at :: "char \<Rightarrow> string \<Rightarrow> string list" where
  "split_at c [] = [[]]"
| "split_at c (x # xs) = (if x = c then [] # split_at c xs
     else case split_at c xs of [] \<Rightarrow> [[x]] | y # ys \<Rightarrow> (x # y) # ys)"

fun join_with :: "char \<Rightarrow> string list \<Rightarrow> string" where
  "join_with c [] = []"
| "join_with c [x] = x"
| "join_with c (x # y # ys) = x @ c # join_with c (y # ys)"

lemma split_at_not_Nil [simp]: "split_at c xs \<noteq> []"
  by (induction xs) (auto split: list.splits)

lemma split_at_plain: "c \<notin> set x \<Longrightarrow> split_at c x = [x]"
  by (induction x) auto

lemma split_at_append: "c \<notin> set x \<Longrightarrow> split_at c (x @ c # y) = x # split_at c y"
  by (induction x) auto

lemma split_at_join: "xs \<noteq> [] \<Longrightarrow> \<forall>x\<in>set xs. c \<notin> set x \<Longrightarrow> split_at c (join_with c xs) = xs"
  by (induction c xs rule: join_with.induct) (auto simp: split_at_plain split_at_append)

lemma set_join_with: "set (join_with c xs) \<subseteq> insert c (\<Union> (set ` set xs))"
  by (induction c xs rule: join_with.induct) auto

lemma split_at_lines: "\<forall>x\<in>set xs. c \<notin> set x \<Longrightarrow> split_at c (concat (map (\<lambda>x. x @ [c]) xs)) = xs @ [[]]"
  by (induction xs) (auto simp: split_at_append)

end
