(* ===== verification/RingBuffer.thy ===== *)
theory RingBuffer
  imports Prelude
begin

text \<open>
  The shared-memory ring of \<open>src/shm_ringbuffer.c\<close>. The POSIX object is one value
  (\<open>shm_obj\<close>: the header, the data area as a byte memory, its size); the producer and the
  consumer each hold a handle (\<open>shm_ring\<close>) with their own copy of the capacity. An
  operation takes a handle and the object and returns its result code and the new object,
  so the aliasing of the two mappings is explicit.

  The cursors are 64-bit words that wrap. A \<open>memcpy\<close> near the end of the data area writes
  where the code writes, also past the capacity. The pop loop and the loops that may not
  end return an option, \<open>None\<close> for a call that does not return.
\<close>

subsection \<open>The shared object and the handles\<close>

definition SHM_HDR_PAD :: csize where "SHM_HDR_PAD = 128"
definition SHM_RING_MAGIC :: u32 where "SHM_RING_MAGIC = 0x52494752"
definition SHM_RING_MSG_HDR_SIZE :: csize where "SHM_RING_MSG_HDR_SIZE = 4"
definition SHM_HW_PCT :: u64 where "SHM_HW_PCT = 80"
definition SHM_LW_PCT :: u64 where "SHM_LW_PCT = 20"
definition WRAP_SENTINEL_LEN :: u32 where "WRAP_SENTINEL_LEN = 0"

text \<open>\<open>sizeof(shm_ring_header)\<close> on Linux: four 64-bit and three 32-bit fields, padded to 48.\<close>
definition sizeof_shm_ring_header :: csize where "sizeof_shm_ring_header = 48"

record shm_ring_header =
  h_head :: u64
  h_tail :: u64
  h_parks :: u64
  h_capacity :: u64
  h_magic :: u32
  h_initialized :: u32
  h_flow_flag :: int

text \<open>The shared object: header, data area and size. The last field is none of the object's: it records
  what the consumer's pops have handed out while a call of the producer was waiting. No operation of
  the ring reads or writes it.\<close>

record shm_obj =
  obj_hdr :: shm_ring_header
  obj_data :: mem
  obj_size :: csize
  obj_taken :: "u8 list list"

record shm_ring =
  rb_capacity :: csize
  rb_name :: string
  rb_fd :: int

datatype shm_ring_role = SHM_RING_ROLE_PRODUCER | SHM_RING_ROLE_CONSUMER

definition set_head :: "u64 \<Rightarrow> shm_obj \<Rightarrow> shm_obj" where
  "set_head h s = s\<lparr>obj_hdr := (obj_hdr s)\<lparr>h_head := h\<rparr>\<rparr>"

definition set_tail :: "u64 \<Rightarrow> shm_obj \<Rightarrow> shm_obj" where
  "set_tail t s = s\<lparr>obj_hdr := (obj_hdr s)\<lparr>h_tail := t\<rparr>\<rparr>"

text \<open>\<open>memcpy(rb->data + p, bs, n)\<close>.\<close>
definition write_data :: "nat \<Rightarrow> u8 list \<Rightarrow> shm_obj \<Rightarrow> shm_obj" where
  "write_data p bs s = s\<lparr>obj_data := mem_write (obj_data s) p bs\<rparr>"

lemmas shm_updates [simp] = set_head_def set_tail_def write_data_def

subsection \<open>Mapping the object\<close>

text \<open>\<open>round_pow2\<close>: doubling from one page. The shift wraps at 64 bits, so the loop may not end.\<close>

partial_function (option) round_pow2_loop :: "csize \<Rightarrow> csize \<Rightarrow> csize option" where
  "round_pow2_loop p v = (if p < v then round_pow2_loop (push_bit 1 p) v else Some p)"

definition round_pow2 :: "csize \<Rightarrow> csize option" where
  "round_pow2 v = round_pow2_loop 4096 v"

text \<open>
  What the operating system answers to the calls of \<open>ring_map\<close>: the descriptor or errno of
  \<open>shm_open\<close> with the object it names, the answers of \<open>fstat\<close>, \<open>ftruncate\<close>, \<open>mmap\<close> (errno
  values, 0 for success) and \<open>calloc\<close>, and what the consumer's spin on \<open>initialized\<close> reads.
\<close>

record map_env =
  me_shm_open :: "int"
  me_object :: shm_obj
  me_fstat :: int
  me_ftruncate :: int
  me_mmap :: int
  me_calloc :: bool
  me_init_reads :: "u32 list"

text \<open>The consumer's \<open>while (!initialized) sched_yield()\<close>: \<open>None\<close> when no read sees the flag.\<close>

fun spin_initialized :: "u32 list \<Rightarrow> unit option" where
  "spin_initialized [] = None"
| "spin_initialized (v # vs) = (if v = 0 then spin_initialized vs else Some ())"

definition init_header :: "csize \<Rightarrow> shm_obj \<Rightarrow> shm_obj" where
  "init_header cap s = s\<lparr>obj_hdr := \<lparr>h_head = 0, h_tail = 0, h_parks = 0, h_capacity = cap,
     h_magic = SHM_RING_MAGIC, h_initialized = 1, h_flow_flag = 0\<rparr>\<rparr>"

text \<open>
  \<open>ring_map\<close> returns the code, the handle it stores in \<open>*out\<close> and the object. \<open>create\<close> is
  ignored by the code. \<open>None\<close> stands for a null name.
\<close>

definition ring_map ::
  "string option \<Rightarrow> csize \<Rightarrow> shm_ring_role \<Rightarrow> bool \<Rightarrow> map_env \<Rightarrow>
   (int \<times> shm_ring option \<times> shm_obj) option" where
  "ring_map name capacity role wait_init env =
    (case name of
       None \<Rightarrow> Some (- EINVAL, None, me_object env)
     | Some nm \<Rightarrow>
       if take 1 nm \<noteq> ''/'' then Some (- EINVAL, None, me_object env) else
       case round_pow2 (if capacity \<noteq> 0 then capacity else 65536) of
         None \<Rightarrow> None
       | Some cap \<Rightarrow>
         let map_size = sizeof_shm_ring_header + SHM_HDR_PAD + cap; obj = me_object env in
         if me_shm_open env < 0 then Some (me_shm_open env, None, obj) else
         if me_fstat env \<noteq> 0 then Some (- me_fstat env, None, obj) else
         if obj_size obj < map_size \<and> me_ftruncate env \<noteq> 0
         then Some (- me_ftruncate env, None, obj) else
         let obj = (if obj_size obj < map_size then obj\<lparr>obj_size := map_size\<rparr> else obj) in
         if me_mmap env \<noteq> 0 then Some (- me_mmap env, None, obj) else
         if \<not> me_calloc env then Some (- ENOMEM, None, obj) else
         let rb = \<lparr>rb_capacity = cap, rb_name = take 63 nm, rb_fd = me_shm_open env\<rparr> in
         (case role of
            SHM_RING_ROLE_PRODUCER \<Rightarrow> Some (0, Some rb, init_header cap obj)
          | SHM_RING_ROLE_CONSUMER \<Rightarrow>
              if wait_init then
                (case spin_initialized (me_init_reads env) of
                   None \<Rightarrow> None | Some _ \<Rightarrow> Some (0, Some rb, obj))
              else Some (0, Some rb, obj)))"

definition shm_ring_create ::
  "string option \<Rightarrow> csize \<Rightarrow> shm_ring_role \<Rightarrow> map_env \<Rightarrow> (int \<times> shm_ring option \<times> shm_obj) option" where
  "shm_ring_create name capacity role env = ring_map name capacity role True env"

definition shm_ring_attach ::
  "string option \<Rightarrow> csize \<Rightarrow> shm_ring_role \<Rightarrow> map_env \<Rightarrow> (int \<times> shm_ring option \<times> shm_obj) option" where
  "shm_ring_attach name capacity role env = ring_map name capacity role False env"

subsection \<open>Cursor arithmetic\<close>

definition ring_used :: "shm_obj \<Rightarrow> u64" where
  "ring_used s = h_head (obj_hdr s) - h_tail (obj_hdr s)"

definition ring_pos :: "shm_ring \<Rightarrow> u64 \<Rightarrow> u64" where
  "ring_pos rb cur = cur AND (rb_capacity rb - 1)"

definition ring_next_lap :: "shm_ring \<Rightarrow> u64 \<Rightarrow> u64" where
  "ring_next_lap rb cur = (cur AND NOT (rb_capacity rb - 1)) + rb_capacity rb"

subsection \<open>Push\<close>

definition shm_ring_push :: "shm_ring option \<Rightarrow> u8 list option \<Rightarrow> shm_obj \<Rightarrow> int \<times> shm_obj" where
  "shm_ring_push rb data s =
    (case (rb, data) of
       (Some rb, Some bs) \<Rightarrow>
         let size = of_nat (length bs) :: csize in
         if size = 0 then (- EINVAL, s) else
         if rb_capacity rb - SHM_RING_MSG_HDR_SIZE < size then (- EMSGSIZE, s) else
         let need = size + SHM_RING_MSG_HDR_SIZE;
             head = h_head (obj_hdr s);
             used = head - h_tail (obj_hdr s);
             pos = ring_pos rb head;
             contiguous = rb_capacity rb - pos;
             len32 = ucast size :: u32;
             required = (if contiguous < need then contiguous + need else need) in
         if rb_capacity rb - used < required then (- EAGAIN, s) else
         if contiguous < need then
           (0, set_head (ring_next_lap rb head + need)
                (write_data (unat SHM_RING_MSG_HDR_SIZE) bs
                  (write_data 0 (le32 len32)
                    (write_data (unat pos) (le32 WRAP_SENTINEL_LEN) s))))
         else
           (0, set_head (head + need)
                (write_data (unat (pos + SHM_RING_MSG_HDR_SIZE)) bs
                  (write_data (unat pos) (le32 len32) s)))
     | _ \<Rightarrow> (- EINVAL, s))"

subsection \<open>Scatter push\<close>

text \<open>A segment: the bytes at \<open>base\<close> (\<open>None\<close> for a null pointer) and a length.\<close>

record shm_segment =
  seg_base :: "u8 list option"
  seg_len :: csize

text \<open>The validating sum over the segments; \<open>None\<close> is the \<open>-EINVAL\<close> return inside the loop.\<close>

fun seg_body :: "shm_segment list \<Rightarrow> u64 \<Rightarrow> u64 option" where
  "seg_body [] body = Some body"
| "seg_body (sg # sgs) body =
     (if seg_base sg = None \<and> seg_len sg \<noteq> 0 then None
      else seg_body sgs (body + seg_len sg))"

text \<open>The inner copy loop of one segment, wrapping at the capacity.\<close>

partial_function (option) copy_seg ::
  "csize \<Rightarrow> csize \<Rightarrow> u8 list \<Rightarrow> csize \<Rightarrow> shm_obj \<Rightarrow> (csize \<times> shm_obj) option" where
  "copy_seg cap p bs len s =
    (if len = 0 then Some (p, s)
     else let chunk = (if len < cap - p then len else cap - p) in
       copy_seg cap ((p + chunk) mod cap) (drop (unat chunk) bs) (len - chunk)
         (write_data (unat p) (take (unat chunk) bs) s))"

fun copy_segs :: "csize \<Rightarrow> csize \<Rightarrow> shm_segment list \<Rightarrow> shm_obj \<Rightarrow> (csize \<times> shm_obj) option" where
  "copy_segs cap p [] s = Some (p, s)"
| "copy_segs cap p (sg # sgs) s =
     (case copy_seg cap p (case seg_base sg of None \<Rightarrow> [] | Some bs \<Rightarrow> bs) (seg_len sg) s of
        None \<Rightarrow> None
      | Some (p', s') \<Rightarrow> copy_segs cap p' sgs s')"

definition shm_ring_push_scatter ::
  "shm_ring option \<Rightarrow> shm_segment list option \<Rightarrow> shm_obj \<Rightarrow> (int \<times> shm_obj) option" where
  "shm_ring_push_scatter rb segs s =
    (case (rb, segs) of
       (Some rb, Some sgs) \<Rightarrow>
         if sgs = [] then Some (- EINVAL, s) else
         (case seg_body sgs 0 of
            None \<Rightarrow> Some (- EINVAL, s)
          | Some body \<Rightarrow>
            let need = body + SHM_RING_MSG_HDR_SIZE in
            if body = 0 \<or> rb_capacity rb - SHM_RING_MSG_HDR_SIZE < need
            then Some (- EMSGSIZE, s) else
            let head = h_head (obj_hdr s);
                used = head - h_tail (obj_hdr s);
                pos = ring_pos rb head;
                contiguous = rb_capacity rb - pos;
                wrap = contiguous < need;
                required = (if wrap then contiguous + need else need) in
            if rb_capacity rb - used < required then Some (- EAGAIN, s) else
            let len32 = ucast body :: u32;
                s1 = (if wrap then write_data (unat pos) (le32 WRAP_SENTINEL_LEN) s else s);
                p = (if wrap then 0 else pos);
                s2 = write_data (unat p) (le32 len32) s1 in
            (case copy_segs (rb_capacity rb) ((p + 4) mod rb_capacity rb) sgs s2 of
               None \<Rightarrow> None
             | Some (_, s3) \<Rightarrow> Some (0, set_head (head + (if wrap then required else need)) s3)))
     | _ \<Rightarrow> Some (- EINVAL, s))"

subsection \<open>Pop\<close>

text \<open>\<open>flow_wake\<close> exchanges the flag with 0 and wakes the waiters if it was set.\<close>

definition flow_wake :: "shm_obj \<Rightarrow> bool \<times> shm_obj" where
  "flow_wake s = (h_flow_flag (obj_hdr s) \<noteq> 0, s\<lparr>obj_hdr := (obj_hdr s)\<lparr>h_flow_flag := 0\<rparr>\<rparr>)"

text \<open>A pop returns the code, the bytes it copied to the caller's buffer and whether it woke
  a parked producer.\<close>

record pop_result =
  pr_rc :: int
  pr_buf :: "u8 list"
  pr_woke :: bool

definition pop_fails :: "int \<Rightarrow> pop_result" where
  "pop_fails rc = \<lparr>pr_rc = rc, pr_buf = [], pr_woke = False\<rparr>"

definition low_watermark :: "shm_ring \<Rightarrow> u64" where
  "low_watermark rb = rb_capacity rb * SHM_LW_PCT div 100"

definition high_watermark :: "shm_ring \<Rightarrow> u64" where
  "high_watermark rb = rb_capacity rb * SHM_HW_PCT div 100"

text \<open>The record branch of the loop: copy out, advance the tail, wake below the low watermark.\<close>

definition pop_record :: "shm_ring \<Rightarrow> u64 \<Rightarrow> u64 \<Rightarrow> u64 \<Rightarrow> u32 \<Rightarrow> shm_obj \<Rightarrow> pop_result \<times> shm_obj" where
  "pop_record rb head tail pos len32 s =
    (let buf = mem_read (obj_data s) (unat (pos + SHM_RING_MSG_HDR_SIZE)) (unat len32);
         new_tail = tail + ucast len32 + SHM_RING_MSG_HDR_SIZE;
         s1 = set_tail new_tail s;
         (woke, s2) = (if head - new_tail < low_watermark rb then flow_wake s1 else (False, s1)) in
     (\<lparr>pr_rc = sint len32, pr_buf = buf, pr_woke = woke\<rparr>, s2))"

partial_function (option) shm_ring_pop ::
  "shm_ring \<Rightarrow> csize \<Rightarrow> shm_obj \<Rightarrow> (pop_result \<times> shm_obj) option" where
  "shm_ring_pop rb max_size s =
    (let tail = h_tail (obj_hdr s); head = h_head (obj_hdr s) in
     if head = tail then Some (pop_fails (- EAGAIN), s) else
     let pos = ring_pos rb tail;
         len32 = un_le32 (mem_read (obj_data s) (unat pos) 4) in
     if len32 = WRAP_SENTINEL_LEN then
       shm_ring_pop rb max_size (set_tail (ring_next_lap rb tail) s)
     else if max_size < ucast len32 then Some (pop_fails (- EMSGSIZE), s)
     else Some (pop_record rb head tail pos len32 s))"

subsection \<open>Snapshots\<close>

definition shm_ring_used_bytes :: "shm_ring option \<Rightarrow> shm_obj \<Rightarrow> csize" where
  "shm_ring_used_bytes rb s = (case rb of None \<Rightarrow> 0 | Some _ \<Rightarrow> ring_used s)"

definition shm_ring_park_count :: "shm_ring option \<Rightarrow> shm_obj \<Rightarrow> u64" where
  "shm_ring_park_count rb s = (case rb of None \<Rightarrow> 0 | Some _ \<Rightarrow> h_parks (obj_hdr s))"

definition shm_ring_free_bytes :: "shm_ring option \<Rightarrow> shm_obj \<Rightarrow> csize" where
  "shm_ring_free_bytes rb s =
    (case rb of None \<Rightarrow> 0 | Some r \<Rightarrow> rb_capacity r - shm_ring_used_bytes rb s)"

subsection \<open>Detaching, messages\<close>

text \<open>What \<open>shm_ring_close\<close> releases: the bytes of the mapping, the descriptor and the object it
  unlinks, if asked to.\<close>

definition shm_ring_close :: "shm_ring option \<Rightarrow> bool \<Rightarrow> (csize \<times> int \<times> string option) option" where
  "shm_ring_close rb unlink_obj =
    (case rb of None \<Rightarrow> None
     | Some r \<Rightarrow> Some (sizeof_shm_ring_header + SHM_HDR_PAD + rb_capacity r, rb_fd r,
                       if unlink_obj then Some (rb_name r) else None))"

text \<open>\<open>strerror\<close> is an argument.\<close>

definition shm_ring_strerror :: "(int \<Rightarrow> string) \<Rightarrow> int \<Rightarrow> string" where
  "shm_ring_strerror strerror rc =
    (if rc = 0 then ''ok''
     else if rc = - EAGAIN then ''ring empty or full''
     else if rc = - EMSGSIZE then ''message too large for ring''
     else strerror (- rc))"

end
