(* ===== verification/RingQueue.thy ===== *)
theory RingQueue
  imports RingBuffer
begin

text \<open>
  The ring refines a bounded FIFO queue of messages. \<open>ring_holds rb s ms\<close> says that the
  bytes between the two cursors are the frames of the messages \<open>ms\<close>. It is stated with
  unbounded ghost cursors \<open>T \<le> H\<close> of which the header holds the low 64 bits; the slot of a
  logical offset \<open>t\<close> is \<open>t mod c\<close>.
\<close>

subsection \<open>Frames in the data area\<close>

text \<open>A record at slot \<open>p\<close>: the length field and the payload, both before the end of the area.\<close>

definition record_at :: "mem \<Rightarrow> nat \<Rightarrow> nat \<Rightarrow> u8 list \<Rightarrow> bool" where
  "record_at m c p x \<longleftrightarrow> x \<noteq> [] \<and> p + 4 + length x \<le> c \<and>
     mem_read m p 4 = le32 (of_nat (length x)) \<and> mem_read m (p + 4) (length x) = x"

definition sentinel_at :: "mem \<Rightarrow> nat \<Rightarrow> bool" where
  "sentinel_at m p \<longleftrightarrow> un_le32 (mem_read m p 4) = 0"

text \<open>Where the record at the logical offset \<open>t\<close> starts: past a wrap sentinel, at the next lap.\<close>

definition next_lap :: "nat \<Rightarrow> nat \<Rightarrow> nat" where
  "next_lap c t = (t div c + 1) * c"

definition rec_start :: "mem \<Rightarrow> nat \<Rightarrow> nat \<Rightarrow> nat" where
  "rec_start m c t = (if sentinel_at m (t mod c) then next_lap c t else t)"

text \<open>The messages between the logical offsets \<open>t\<close> and \<open>h\<close>.\<close>

fun recs :: "mem \<Rightarrow> nat \<Rightarrow> nat \<Rightarrow> u8 list list \<Rightarrow> nat \<Rightarrow> bool" where
  "recs m c t [] h \<longleftrightarrow> t = h"
| "recs m c t (x # xs) h \<longleftrightarrow>
     (let p = rec_start m c t in record_at m c (p mod c) x \<and> recs m c (p + 4 + length x) xs h)"

definition ring_geom :: "shm_ring \<Rightarrow> nat \<Rightarrow> bool" where
  "ring_geom rb k \<longleftrightarrow> rb_capacity rb = 2 ^ k \<and> 12 \<le> k \<and> k \<le> 31"

definition ring_holds_at :: "nat \<Rightarrow> nat \<Rightarrow> nat \<Rightarrow> shm_ring \<Rightarrow> shm_obj \<Rightarrow> u8 list list \<Rightarrow> bool" where
  "ring_holds_at k T H rb s ms \<longleftrightarrow> ring_geom rb k \<and>
     h_head (obj_hdr s) = of_nat H \<and> h_tail (obj_hdr s) = of_nat T \<and>
     T \<le> H \<and> H - T \<le> 2 ^ k \<and> recs (obj_data s) (2 ^ k) T ms H"

definition ring_holds :: "shm_ring \<Rightarrow> shm_obj \<Rightarrow> u8 list list \<Rightarrow> bool" where
  "ring_holds rb s ms \<longleftrightarrow> (\<exists>k T H. ring_holds_at k T H rb s ms)"

text \<open>Of a handle only the capacity matters, so the two sides may have handles of their own.\<close>

lemma ring_holds_cap: "rb_capacity rb' = rb_capacity rb \<Longrightarrow> ring_holds rb' s ms = ring_holds rb s ms"
  by (simp add: ring_holds_def ring_holds_at_def ring_geom_def)

subsection \<open>Offsets, laps and slots\<close>

lemma next_lap_mod [simp]: "next_lap c t mod c = 0"
  by (simp add: next_lap_def)

lemma next_lap_eq: "next_lap c t = t + (c - t mod c)" if "0 < c"
proof -
  have "t mod c < c" using that by simp
  then have "t + (c - t mod c) = t div c * c + c"
    using div_mult_mod_eq [of t c] by linarith
  then show ?thesis by (simp add: next_lap_def)
qed

lemma next_lap_gt: "0 < c \<Longrightarrow> t < next_lap c t"
proof -
  assume "0 < c"
  then have "t mod c < c" by simp
  then have "t < t + (c - t mod c)" by simp
  then show ?thesis using \<open>0 < c\<close> by (simp only: next_lap_eq)
qed

lemma slot_add: "t mod c + i < c \<Longrightarrow> (t + i) mod c = t mod c + i" for t c :: nat
  by (metis mod_add_left_eq mod_less)

text \<open>Two logical offsets less than a lap apart have different slots.\<close>

lemma slots_distinct: "a < b \<Longrightarrow> b < a + c \<Longrightarrow> a mod c \<noteq> b mod c" for a b c :: nat
proof
  assume a: "a < b" "b < a + c" and "a mod c = b mod c"
  then have "c dvd b - a" by (metis mod_eq_dvd_iff_nat less_imp_le)
  then show False using a by (auto dest: dvd_imp_le)
qed

lemma rec_start_ge: "0 < c \<Longrightarrow> t \<le> rec_start m c t"
  using next_lap_gt [of c t] by (simp add: rec_start_def)

lemma recs_le: "0 < c \<Longrightarrow> recs m c t xs h \<Longrightarrow> t + sum_list (map (\<lambda>x. 4 + length x) xs) \<le> h"
proof (induction xs arbitrary: t)
  case (Cons x xs)
  then have "rec_start m c t + 4 + length x + sum_list (map (\<lambda>x. 4 + length x) xs) \<le> h"
    by (simp add: Let_def)
  then show ?case using rec_start_ge [of c t m] Cons.prems by simp
qed simp

lemma recs_mono: "0 < c \<Longrightarrow> recs m c t xs h \<Longrightarrow> t \<le> h"
  using recs_le [of c m t xs h] by simp

lemma recs_append: "recs m c t (xs @ ys) h \<longleftrightarrow> (\<exists>u. recs m c t xs u \<and> recs m c u ys h)"
  by (induction xs arbitrary: t) (auto simp: Let_def)

text \<open>The frame determines the message, so the abstraction is a partial function.\<close>

lemma record_at_unique:
  assumes "record_at m c p x" "record_at m c p y" "c \<le> 2 ^ 32" shows "x = y"
proof -
  have "(of_nat (length x) :: u32) = of_nat (length y)"
    using assms un_le32_le32 by (metis record_at_def)
  then have "length x = length y"
    using assms by (intro of_nat_u32_inj) (auto simp: record_at_def)
  then show ?thesis using assms by (metis record_at_def)
qed

subsection \<open>Frames survive writes outside the live offsets\<close>

text \<open>
  \<open>m'\<close> agrees with \<open>m\<close> on the slots of the logical offsets \<open>t .. h - 1\<close>, and the bytes past
  the end of the area, which only the tail of a sentinel reaches, are unchanged or zero.
\<close>

definition agrees :: "nat \<Rightarrow> nat \<Rightarrow> nat \<Rightarrow> mem \<Rightarrow> mem \<Rightarrow> bool" where
  "agrees c t h m m' \<longleftrightarrow>
     (\<forall>j. t \<le> j \<and> j < h \<longrightarrow> m' (j mod c) = m (j mod c)) \<and>
     (\<forall>i\<ge>c. m' i = m i \<or> m' i = 0)"

lemma agrees_sub: "agrees c t h m m' \<Longrightarrow> t \<le> t' \<Longrightarrow> h' \<le> h \<Longrightarrow> agrees c t' h' m m'"
  unfolding agrees_def by (meson le_trans less_le_trans)

lemma agrees_trans: "agrees c t h m m1 \<Longrightarrow> agrees c t h m1 m2 \<Longrightarrow> agrees c t h m m2"
  unfolding agrees_def by (metis (no_types, lifting))

lemma agrees_read:
  assumes "agrees c t h m m'" "t mod c + n \<le> c" "t + n \<le> h"
  shows "mem_read m' (t mod c) n = mem_read m (t mod c) n"
proof (rule mem_read_eqI)
  fix i assume i: "i < n"
  then have "(t + i) mod c = t mod c + i" using assms(2) by (intro slot_add) simp
  moreover have "m' ((t + i) mod c) = m ((t + i) mod c)" using assms i by (simp add: agrees_def)
  ultimately show "m' (t mod c + i) = m (t mod c + i)" by simp
qed

lemma sentinel_iff: "sentinel_at m p \<longleftrightarrow> (\<forall>i<4. m (p + i) = 0)"
proof -
  have "mem_read m p 4 = [m p, m (p + 1), m (p + 2), m (p + 3)]"
    by (simp add: mem_read_def upt_rec numeral_eq_Suc)
  moreover have "(\<forall>i<4. m (p + i) = 0) \<longleftrightarrow> m p = 0 \<and> m (p + 1) = 0 \<and> m (p + 2) = 0 \<and> m (p + 3) = 0"
    by (auto simp: numeral_eq_Suc less_Suc_eq)
  ultimately show ?thesis by (simp add: sentinel_at_def un_le32_zero_iff)
qed

lemma agrees_sentinel:
  assumes "agrees c t h m m'" "sentinel_at m (t mod c)" "next_lap c t \<le> h" "0 < c"
  shows "sentinel_at m' (t mod c)"
  unfolding sentinel_iff
proof (intro allI impI)
  fix i :: nat assume i: "i < 4"
  have z: "m (t mod c + i) = 0" using assms(2) i by (simp add: sentinel_iff)
  show "m' (t mod c + i) = 0"
  proof (cases "t mod c + i < c")
    case True
    then have "(t + i) mod c = t mod c + i" by (rule slot_add)
    moreover have "t + i < h" using True assms(3,4) next_lap_eq [of c t] by linarith
    ultimately show ?thesis using assms(1) z unfolding agrees_def by (metis le_add1)
  next
    case False
    then show ?thesis using assms(1) z unfolding agrees_def by (metis not_less)
  qed
qed

lemma record_not_sentinel: "record_at m c p x \<Longrightarrow> c \<le> 2 ^ 32 \<Longrightarrow> \<not> sentinel_at m p"
proof
  assume a: "record_at m c p x" "c \<le> 2 ^ 32" "sentinel_at m p"
  then have "(of_nat (length x) :: u32) = of_nat 0" by (simp add: record_at_def sentinel_at_def)
  then have "length x = 0" using a by (intro of_nat_u32_inj) (auto simp: record_at_def)
  then show False using a by (simp add: record_at_def)
qed

lemma agrees_record:
  assumes "agrees c t h m m'" "record_at m c (t mod c) x" "t + 4 + length x \<le> h"
  shows "record_at m' c (t mod c) x"
proof -
  have b: "t mod c + (4 + length x) \<le> c" using assms(2) by (simp add: record_at_def)
  have r: "mem_read m' (t mod c) (4 + length x) = mem_read m (t mod c) (4 + length x)"
    using agrees_read [OF assms(1) b] assms(3) by simp
  then have "mem_read m' (t mod c) 4 = mem_read m (t mod c) 4"
    and "mem_read m' (t mod c + 4) (length x) = mem_read m (t mod c + 4) (length x)"
    by (simp_all add: mem_read_split)
  then show ?thesis using assms(2) by (simp add: record_at_def)
qed

lemma rec_start_agrees:
  assumes "agrees c t h m m'" "recs m c t (x # xs) h" "0 < c" "c \<le> 2 ^ 32"
  shows "rec_start m' c t = rec_start m c t" "record_at m' c (rec_start m c t mod c) x"
proof -
  let ?p = "rec_start m c t"
  have rec: "record_at m c (?p mod c) x" and rest: "recs m c (?p + 4 + length x) xs h"
    using assms(2) by (auto simp: Let_def)
  have end_le: "?p + 4 + length x \<le> h" using recs_mono [OF assms(3) rest] .
  have tp: "t \<le> ?p" using assms(3) by (rule rec_start_ge)
  have ag: "agrees c ?p h m m'" using assms(1) tp by (rule agrees_sub) simp
  show rec': "record_at m' c (?p mod c) x" using ag rec end_le by (rule agrees_record)
  show "rec_start m' c t = ?p"
  proof (cases "sentinel_at m (t mod c)")
    case True
    then have "sentinel_at m' (t mod c)"
      using agrees_sentinel [OF assms(1)] end_le assms(3) by (simp add: rec_start_def)
    then show ?thesis using True by (simp add: rec_start_def)
  next
    case False
    then have "?p = t" by (simp add: rec_start_def)
    then show ?thesis using record_not_sentinel [OF rec' assms(4)] by (simp add: rec_start_def)
  qed
qed

lemma recs_agrees:
  assumes "agrees c t h m m'" "recs m c t xs h" "0 < c" "c \<le> 2 ^ 32"
  shows "recs m' c t xs h"
  using assms(1,2)
proof (induction xs arbitrary: t)
  case (Cons x xs)
  let ?p = "rec_start m c t"
  have "t \<le> ?p" using assms(3) by (rule rec_start_ge)
  then have "agrees c (?p + 4 + length x) h m m'" using Cons.prems(1) by (auto intro: agrees_sub)
  then have "recs m' c (?p + 4 + length x) xs h" using Cons.IH Cons.prems(2) by (simp add: Let_def)
  then show ?case using rec_start_agrees [OF Cons.prems assms(3,4)] by (simp add: Let_def)
qed simp

subsection \<open>Writing one record\<close>

text \<open>
  A block of a record that fits before the end of the area, and a sentinel, which may not:
  both at the slot of \<open>h\<close>, the part inside the area less than a lap past \<open>t\<close>.
\<close>

lemma agrees_write:
  assumes "h mod c + length bs \<le> c \<or> set bs \<subseteq> {0}"
    and "h + min (length bs) (c - h mod c) \<le> t + c"
  shows "agrees c t h m (mem_write m (h mod c) bs)"
  unfolding agrees_def
proof (intro conjI allI impI)
  fix j assume j: "t \<le> j \<and> j < h"
  show "mem_write m (h mod c) bs (j mod c) = m (j mod c)"
  proof (cases "h mod c \<le> j mod c \<and> j mod c < h mod c + length bs")
    case True
    define i where "i = j mod c - h mod c"
    have i: "j mod c = h mod c + i" "i < length bs" using True by (auto simp: i_def)
    have "0 < c" using True j by (cases "c = 0") auto
    then have ic: "h mod c + i < c" using i(1) mod_less_divisor [of c j] by simp
    then have "(h + i) mod c = j mod c" using i(1) slot_add [of h c i] by simp
    moreover have "j < h + i" "h + i < j + c" using j assms(2) i(2) ic by auto
    ultimately show ?thesis using slots_distinct [of j "h + i" c] by simp
  qed (auto simp: mem_write_def)
next
  fix i assume "c \<le> i"
  then show "mem_write m (h mod c) bs i = m i \<or> mem_write m (h mod c) bs i = 0"
    using assms(1) by (auto simp: mem_write_def subset_iff)
qed

lemma record_written:
  assumes "bs \<noteq> []" "p + 4 + length bs \<le> c"
  shows "record_at (mem_write m p (le32 (of_nat (length bs)) @ bs)) c p bs"
proof -
  let ?m = "mem_write m p (le32 (of_nat (length bs)) @ bs)"
  have "mem_read ?m p (4 + length bs) = le32 (of_nat (length bs)) @ bs"
    by (simp add: mem_read_write_same)
  then show ?thesis using assms by (simp add: record_at_def mem_read_split)
qed

lemma agrees_straight:
  assumes "h mod c + 4 + length bs \<le> c" "h + 4 + length bs \<le> t + c"
  shows "agrees c t h m (mem_write m (h mod c) (le32 w @ bs))"
  using assms by (intro agrees_write) auto

lemma agrees_wrap:
  assumes "0 < c" "4 + length bs \<le> c" "next_lap c h + 4 + length bs \<le> t + c"
  shows "agrees c t h m (mem_write m (h mod c) (le32 0))"
    "agrees c t (next_lap c h) m1 (mem_write m1 0 (le32 w @ bs))"
proof -
  show "agrees c t h m (mem_write m (h mod c) (le32 0))"
    using assms(3) next_lap_eq [OF assms(1), of h] by (intro agrees_write) (auto simp: le32_zero)
  have "agrees c t (next_lap c h) m1 (mem_write m1 (next_lap c h mod c) (le32 w @ bs))"
    using assms(2,3) by (intro agrees_write) auto
  then show "agrees c t (next_lap c h) m1 (mem_write m1 0 (le32 w @ bs))" by simp
qed

lemma recs_write_straight:
  assumes "recs m c t xs h" "c \<le> 2 ^ 32" "bs \<noteq> []"
    and fit: "h mod c + 4 + length bs \<le> c" and room: "h + 4 + length bs \<le> t + c"
  shows "recs (mem_write m (h mod c) (le32 (of_nat (length bs)) @ bs)) c t (xs @ [bs]) (h + 4 + length bs)"
    (is "recs ?m _ _ _ _")
proof -
  have c: "0 < c" using fit by simp
  have "agrees c t h m ?m" using fit room by (rule agrees_straight)
  then have old: "recs ?m c t xs h" using recs_agrees assms(1,2) c by blast
  have new: "record_at ?m c (h mod c) bs" using assms(3) fit by (rule record_written)
  then have "rec_start ?m c h = h" using record_not_sentinel [OF new assms(2)] by (simp add: rec_start_def)
  then show ?thesis using old new by (auto simp: recs_append Let_def)
qed

lemma recs_write_wrap:
  assumes "recs m c t xs h" "0 < c" "c \<le> 2 ^ 32" "bs \<noteq> []"
    and fit: "4 + length bs \<le> c" and room: "next_lap c h + 4 + length bs \<le> t + c"
  shows "recs (mem_write (mem_write m (h mod c) (le32 0)) 0 (le32 (of_nat (length bs)) @ bs))
           c t (xs @ [bs]) (next_lap c h + 4 + length bs)"
    (is "recs (mem_write ?m1 0 ?b) _ _ _ _")
proof -
  let ?m2 = "mem_write ?m1 0 ?b" and ?u = "next_lap c h"
  have hu: "h \<le> ?u" using next_lap_gt [OF assms(2), of h] by simp
  have "agrees c t h m ?m1" by (rule agrees_wrap(1) [OF assms(2) fit room])
  then have r1: "recs ?m1 c t xs h" using recs_agrees assms(1-3) by blast
  have ag: "agrees c t ?u ?m1 ?m2" by (rule agrees_wrap(2) [OF assms(2) fit room])
  then have "agrees c t h ?m1 ?m2" using hu by (rule agrees_sub [OF _ order_refl])
  then have old: "recs ?m2 c t xs h" using recs_agrees r1 assms(2,3) by blast
  have "t \<le> h" using recs_mono [OF assms(2,1)] .
  then have "agrees c h ?u ?m1 ?m2" using ag by (auto intro: agrees_sub)
  moreover have "sentinel_at ?m1 (h mod c)" by (simp add: sentinel_at_def mem_read_write_same)
  ultimately have "sentinel_at ?m2 (h mod c)" using agrees_sentinel assms(2) by blast
  then have start: "rec_start ?m2 c h = ?u" by (simp add: rec_start_def)
  have "record_at ?m2 c (?u mod c) bs" using record_written [of bs 0 c ?m1] assms(4) fit by simp
  then show ?thesis using old start by (auto simp: recs_append Let_def)
qed

subsection \<open>From words to offsets\<close>

lemma u64_less_iff: "a < 2 ^ 64 \<Longrightarrow> b < 2 ^ 64 \<Longrightarrow> (of_nat a :: u64) < of_nat b \<longleftrightarrow> a < b"
  by (simp only: word_less_nat_alt unat_of_nat_u64)

lemma u64_eq_iff: "a < 2 ^ 64 \<Longrightarrow> b < 2 ^ 64 \<Longrightarrow> (of_nat a :: u64) = of_nat b \<longleftrightarrow> a = b"
  by (metis unat_of_nat_u64)

lemma geom_cap: "ring_geom rb k \<Longrightarrow> rb_capacity rb = of_nat (2 ^ k)"
  by (simp add: ring_geom_def)

lemma geom_bounds:
  assumes "ring_geom rb k" shows "4096 \<le> (2::nat) ^ k" "(2::nat) ^ k \<le> 2 ^ 31"
proof -
  have "(2::nat) ^ 12 \<le> 2 ^ k" using assms by (intro power_increasing) (auto simp: ring_geom_def)
  then show "4096 \<le> (2::nat) ^ k" by simp
  show "(2::nat) ^ k \<le> 2 ^ 31" using assms by (intro power_increasing) (auto simp: ring_geom_def)
qed

lemma geom_small:
  assumes "ring_geom rb k" "n \<le> 2 ^ k" shows "n < (2::nat) ^ 64"
proof -
  have "n \<le> 2 ^ 31" using geom_bounds(2) [OF assms(1)] assms(2) by (rule order_trans [rotated])
  then show ?thesis by simp
qed

lemma geom_mod_small: "ring_geom rb k \<Longrightarrow> n mod 2 ^ k < (2::nat) ^ 64"
  by (erule geom_small) (simp add: less_imp_le)

lemma ring_pos_of_nat:
  assumes "ring_geom rb k" shows "ring_pos rb (of_nat n) = of_nat (n mod 2 ^ k)"
proof -
  have k: "k \<le> 64" using assms by (simp add: ring_geom_def)
  have "unat (ring_pos rb (of_nat n)) = unat (of_nat n :: u64) mod 2 ^ k"
    using assms unat_and_mask [of "of_nat n" k] by (simp only: ring_pos_def ring_geom_def)
  also have "\<dots> = n mod 2 ^ k"
  proof -
    have "n mod 2 ^ 64 mod 2 ^ k = n mod 2 ^ k"
      by (rule mod_mod_cancel) (rule le_imp_power_dvd [OF k])
    then show ?thesis by (simp add: unat_of_nat)
  qed
  also have "\<dots> = unat (of_nat (n mod 2 ^ k) :: u64)"
  proof -
    have "n mod 2 ^ k < 2 ^ k" by simp
    also have "\<dots> \<le> 2 ^ 64" using k by (rule power_increasing) simp
    finally show ?thesis by (simp only: unat_of_nat_u64)
  qed
  finally show ?thesis by (rule unsigned_word_eqI)
qed

lemma ring_next_lap_of_nat:
  assumes "ring_geom rb k" shows "ring_next_lap rb (of_nat n) = of_nat (next_lap (2 ^ k) n)"
proof -
  have "ring_next_lap rb (of_nat n) = of_nat n - of_nat (n mod 2 ^ k) + of_nat (2 ^ k)"
    unfolding ring_next_lap_def and_not_mask ring_pos_def [symmetric]
    by (simp only: ring_pos_of_nat [OF assms] geom_cap [OF assms])
  also have "\<dots> = of_nat (n - n mod 2 ^ k + 2 ^ k)"
  proof -
    have "(of_nat (n - n mod 2 ^ k) :: u64) = of_nat n - of_nat (n mod 2 ^ k)"
      by (rule of_nat_diff) simp
    then show ?thesis by (simp only: of_nat_add)
  qed
  also have "n - n mod 2 ^ k + 2 ^ k = next_lap (2 ^ k) n"
    by (simp add: next_lap_def minus_mod_eq_div_mult algebra_simps)
  finally show ?thesis .
qed

lemma ring_used_of_nat:
  assumes "ring_holds_at k T H rb s ms"
  shows "h_head (obj_hdr s) - h_tail (obj_hdr s) = of_nat (H - T)"
  using assms by (simp add: ring_holds_at_def of_nat_diff)

text \<open>\<open>shm_ring_push\<close> on offsets: the same branches, with naturals for the cursors.\<close>

definition push_at :: "nat \<Rightarrow> nat \<Rightarrow> nat \<Rightarrow> u8 list \<Rightarrow> shm_obj \<Rightarrow> int \<times> shm_obj" where
  "push_at c T H bs s =
    (let need = length bs + 4; contiguous = c - H mod c;
         frame = le32 (of_nat (length bs)) @ bs in
     if bs = [] then (- EINVAL, s) else
     if c - 4 < length bs then (- EMSGSIZE, s) else
     if c - (H - T) < (if contiguous < need then contiguous + need else need) then (- EAGAIN, s) else
     if contiguous < need then
       (0, set_head (of_nat (next_lap c H + need)) (write_data 0 frame (write_data (H mod c) (le32 0) s)))
     else (0, set_head (of_nat (H + need)) (write_data (H mod c) frame s)))"

lemma shm_ring_push_of_nat:
  assumes R: "ring_holds_at k T H rb s ms" and len: "length bs < 2 ^ 63"
  shows "shm_ring_push (Some rb) (Some bs) s = push_at (2 ^ k) T H bs s"
proof -
  let ?c = "2 ^ k :: nat" and ?n = "length bs"
  have g: "ring_geom rb k" and TH: "T \<le> H" "H - T \<le> ?c"
    and head: "h_head (obj_hdr s) = of_nat H" using R by (auto simp: ring_holds_at_def)
  note cb = geom_bounds [OF g]
  have size: "(of_nat ?n :: u64) = 0 \<longleftrightarrow> bs = []"
    using u64_eq_iff [of ?n 0] len by simp
  have cap4: "rb_capacity rb - SHM_RING_MSG_HDR_SIZE = of_nat (?c - 4)"
    unfolding geom_cap [OF g] using cb by (simp add: SHM_RING_MSG_HDR_SIZE_def of_nat_diff)
  have big: "rb_capacity rb - SHM_RING_MSG_HDR_SIZE < of_nat ?n \<longleftrightarrow> ?c - 4 < ?n"
    unfolding cap4 using cb len by (intro u64_less_iff) auto
  have need: "of_nat ?n + SHM_RING_MSG_HDR_SIZE = (of_nat (?n + 4) :: u64)"
    by (simp add: SHM_RING_MSG_HDR_SIZE_def)
  have cont: "rb_capacity rb - ring_pos rb (of_nat H) = of_nat (?c - H mod ?c)"
    unfolding geom_cap [OF g] ring_pos_of_nat [OF g] by (rule of_nat_diff [symmetric]) (simp add: less_imp_le)
  have wrap: "(of_nat (?c - H mod ?c) :: u64) < of_nat (?n + 4) \<longleftrightarrow> ?c - H mod ?c < ?n + 4"
    using cb len by (intro u64_less_iff) auto
  define req where "req = (if ?c - H mod ?c < ?n + 4 then ?c - H mod ?c + (?n + 4) else ?n + 4)"
  have req: "(if ?c - H mod ?c < ?n + 4 then (of_nat (?c - H mod ?c + (?n + 4)) :: u64)
      else of_nat (?n + 4)) = of_nat req" by (simp only: req_def split: if_split) simp
  have free: "rb_capacity rb - of_nat (H - T) = (of_nat (?c - (H - T)) :: u64)"
    unfolding geom_cap [OF g] using TH by (intro of_nat_diff [symmetric])
  have room: "(of_nat (?c - (H - T)) :: u64) < of_nat req \<longleftrightarrow> ?c - (H - T) < req"
    using cb len by (intro u64_less_iff) (auto simp: req_def)
  have hdr: "unat SHM_RING_MSG_HDR_SIZE = 4" by (simp add: SHM_RING_MSG_HDR_SIZE_def)
  have "H mod ?c < ?c" by simp
  moreover have "?c + 4 < 2 ^ 64" using cb(2) by simp
  ultimately have Hc: "H mod ?c + 4 < 2 ^ 64" by linarith
  then have pos: "unat (ring_pos rb (of_nat H)) = H mod ?c"
    and pos4: "unat (ring_pos rb (of_nat H) + SHM_RING_MSG_HDR_SIZE) = H mod ?c + 4"
    unfolding ring_pos_of_nat [OF g] SHM_RING_MSG_HDR_SIZE_def
    using unat_of_nat_u64 [of "H mod ?c"] unat_of_nat_u64 [of "H mod ?c + 4"] by auto
  have len32: "(ucast (of_nat ?n :: u64) :: u32) = of_nat ?n"
    by (rule unsigned_word_eqI) (simp add: unsigned_ucast_eq unsigned_of_nat)
  have two: "write_data (p + 4) bs (write_data p (le32 w) s') = write_data p (le32 w @ bs) s'" for p w s'
    using mem_write_append [of "obj_data s'" p "le32 w" bs] by simp
  have two0: "write_data 4 bs (write_data 0 (le32 w) s') = write_data 0 (le32 w @ bs) s'" for w s'
    using two [of 0] by (simp only: add_0)
  show ?thesis
    unfolding shm_ring_push_def push_at_def Let_def
    by (simp only: prod.case option.case head ring_used_of_nat [OF R, unfolded head] size big need
        cont wrap req free room hdr pos pos4 len32 two two0 WRAP_SENTINEL_LEN_def
        ring_next_lap_of_nat [OF g] of_nat_add [symmetric] req_def [symmetric])
qed

lemma push_at_holds:
  assumes R: "ring_holds_at k T H rb s ms" and ok: "push_at (2 ^ k) T H bs s = (0, s')"
  shows "\<exists>H'. ring_holds_at k T H' rb s' (ms @ [bs])"
proof -
  let ?c = "2 ^ k :: nat" and ?need = "length bs + 4"
  have g: "ring_geom rb k" and TH: "T \<le> H" "H - T \<le> ?c"
    and recs: "recs (obj_data s) ?c T ms H" and tail: "h_tail (obj_hdr s) = of_nat T"
    using R by (auto simp: ring_holds_at_def)
  have c: "0 < ?c" "?c \<le> 2 ^ 32" and c4: "4 \<le> ?c" using geom_bounds [OF g] by auto
  have bs: "bs \<noteq> []" and fits: "4 + length bs \<le> ?c"
    and room: "(if ?c - H mod ?c < ?need then ?c - H mod ?c + ?need else ?need) \<le> ?c - (H - T)"
    using ok c4 by (auto simp: push_at_def Let_def EINVAL_def EMSGSIZE_def EAGAIN_def split: if_splits)
  show ?thesis
  proof (cases "?c - H mod ?c < ?need")
    case True
    have lap: "next_lap ?c H = H + (?c - H mod ?c)" by (rule next_lap_eq [OF c(1)])
    have room': "?c - H mod ?c + ?need \<le> ?c - (H - T)" using room True by simp
    have "next_lap ?c H + 4 + length bs \<le> T + ?c" unfolding lap using room' TH by linarith
    then have "recs (obj_data s') ?c T (ms @ [bs]) (next_lap ?c H + 4 + length bs)"
      and "h_head (obj_hdr s') = of_nat (next_lap ?c H + 4 + length bs)"
      and "h_tail (obj_hdr s') = of_nat T"
      using recs_write_wrap [OF recs c bs fits] ok True bs fits room tail
      by (auto simp: push_at_def Let_def add_ac split: if_splits)
    moreover have "next_lap ?c H + 4 + length bs - T \<le> ?c" "T \<le> next_lap ?c H + 4 + length bs"
      unfolding lap using room' TH by linarith+
    ultimately show ?thesis unfolding ring_holds_at_def using g by blast
  next
    case False
    have "H mod ?c < ?c" by simp
    then have "H mod ?c + 4 + length bs \<le> ?c" "H + 4 + length bs \<le> T + ?c"
      using room False TH by auto
    then have "recs (obj_data s') ?c T (ms @ [bs]) (H + 4 + length bs)"
      and "h_head (obj_hdr s') = of_nat (H + 4 + length bs)"
      and "h_tail (obj_hdr s') = of_nat T"
      using recs_write_straight [OF recs c(2) bs] ok False bs fits room tail
      by (auto simp: push_at_def Let_def add_ac split: if_splits)
    moreover have "H + 4 + length bs - T \<le> ?c" "T \<le> H + 4 + length bs"
      using room False TH by auto
    ultimately show ?thesis unfolding ring_holds_at_def using g by blast
  qed
qed

subsection \<open>Pop on offsets\<close>

lemma pop_empty:
  assumes "ring_holds_at k T H rb s []"
  shows "shm_ring_pop rb mx s = Some (pop_fails (- EAGAIN), s)"
  using assms by (subst shm_ring_pop.simps) (simp add: ring_holds_at_def)

lemma holds_nonempty_cursors:
  assumes "ring_holds_at k T H rb s (m # ms)"
  shows "h_head (obj_hdr s) \<noteq> h_tail (obj_hdr s)"
proof
  assume "h_head (obj_hdr s) = h_tail (obj_hdr s)"
  then have z: "(of_nat (H - T) :: u64) = of_nat 0"
    using ring_used_of_nat [OF assms] by simp
  have g: "ring_geom rb k" and HT: "H - T \<le> 2 ^ k" and r: "recs (obj_data s) (2 ^ k) T (m # ms) H"
    using assms by (auto simp: ring_holds_at_def)
  have "H - T < 2 ^ 64" using HT geom_bounds [OF g] by simp
  then have "H - T = 0" using z u64_eq_iff [of "H - T" 0] by simp
  moreover have "T + 4 \<le> H" using recs_le [OF _ r] by simp
  ultimately show False by simp
qed

text \<open>The header and the message list when the consumer moves its cursor over a record.\<close>

lemma holds_advance:
  assumes R: "ring_holds_at k T H rb s (m # ms)" and plain: "\<not> sentinel_at (obj_data s) (T mod 2 ^ k)"
    and s': "obj_data s' = obj_data s" "h_head (obj_hdr s') = h_head (obj_hdr s)"
      "h_tail (obj_hdr s') = of_nat (T + 4 + length m)"
  shows "ring_holds_at k (T + 4 + length m) H rb s' ms"
proof -
  have r: "recs (obj_data s) (2 ^ k) (T + 4 + length m) ms H"
    using R plain by (auto simp: ring_holds_at_def Let_def rec_start_def)
  then have "T + 4 + length m \<le> H" by (rule recs_mono [rotated]) simp
  then show ?thesis using R r s' by (auto simp: ring_holds_at_def)
qed

lemma holds_skip_sentinel:
  assumes R: "ring_holds_at k T H rb s (m # ms)" and sent: "sentinel_at (obj_data s) (T mod 2 ^ k)"
  shows "ring_holds_at k (next_lap (2 ^ k) T) H rb
           (set_tail (of_nat (next_lap (2 ^ k) T)) s) (m # ms)"
    and "\<not> sentinel_at (obj_data s) (next_lap (2 ^ k) T mod 2 ^ k)"
proof -
  let ?u = "next_lap (2 ^ k) T"
  have g: "ring_geom rb k" and r: "recs (obj_data s) (2 ^ k) T (m # ms) H"
    using R by (auto simp: ring_holds_at_def)
  then have rec: "record_at (obj_data s) (2 ^ k) (?u mod 2 ^ k) m"
    and rest: "recs (obj_data s) (2 ^ k) (?u + 4 + length m) ms H"
    using sent by (auto simp: Let_def rec_start_def)
  show ns: "\<not> sentinel_at (obj_data s) (?u mod 2 ^ k)"
    using record_not_sentinel [OF rec] geom_bounds [OF g] by auto
  have "?u + 4 + length m \<le> H" using recs_mono [OF _ rest] by simp
  moreover have "T \<le> ?u" using next_lap_gt [of "2 ^ k" T] by simp
  ultimately show "ring_holds_at k ?u H rb (set_tail (of_nat ?u) s) (m # ms)"
    using R rec rest ns by (auto simp: ring_holds_at_def Let_def rec_start_def)
qed

definition pop_ok :: "shm_ring \<Rightarrow> u8 list \<Rightarrow> shm_obj \<Rightarrow> shm_obj \<Rightarrow> pop_result" where
  "pop_ok rb m s s' = \<lparr>pr_rc = int (length m), pr_buf = m,
     pr_woke = (ring_used s' < low_watermark rb \<and> h_flow_flag (obj_hdr s) \<noteq> 0)\<rparr>"

text \<open>A pop at a record, not at a sentinel.\<close>

lemma pop_record_here:
  assumes R: "ring_holds_at k T H rb s (m # ms)" and plain: "\<not> sentinel_at (obj_data s) (T mod 2 ^ k)"
  shows "unat mx < length m \<Longrightarrow> shm_ring_pop rb mx s = Some (pop_fails (- EMSGSIZE), s)"
    and "length m \<le> unat mx \<Longrightarrow> \<exists>s'. shm_ring_pop rb mx s = Some (pop_ok rb m s s', s') \<and>
           ring_holds_at k (T + 4 + length m) H rb s' ms \<and> obj_data s' = obj_data s \<and>
           h_parks (obj_hdr s') = h_parks (obj_hdr s) \<and>
           h_flow_flag (obj_hdr s') = (if ring_used s' < low_watermark rb then 0 else h_flow_flag (obj_hdr s))"
proof -
  let ?c = "2 ^ k :: nat" and ?n = "length m"
  have g: "ring_geom rb k" and tail: "h_tail (obj_hdr s) = of_nat T"
    and rec: "record_at (obj_data s) ?c (T mod ?c) m"
    using R plain by (auto simp: ring_holds_at_def Let_def rec_start_def)
  note cb = geom_bounds [OF g]
  have n: "?n < 2 ^ 31" "?n \<noteq> 0" using rec cb by (auto simp: record_at_def)
  have "T mod ?c < ?c" by simp
  moreover have "?c + 4 < 2 ^ 64" using cb(2) by simp
  ultimately have Tc: "T mod ?c + 4 < 2 ^ 64" by linarith
  have pos: "unat (ring_pos rb (of_nat T)) = T mod ?c"
    and pos4: "unat (ring_pos rb (of_nat T) + SHM_RING_MSG_HDR_SIZE) = T mod ?c + 4"
    unfolding ring_pos_of_nat [OF g] SHM_RING_MSG_HDR_SIZE_def
    using unat_of_nat_u64 [of "T mod ?c"] unat_of_nat_u64 [of "T mod ?c + 4"] Tc by auto
  have len: "un_le32 (mem_read (obj_data s) (T mod ?c) 4) = of_nat ?n"
    and buf: "mem_read (obj_data s) (T mod ?c + 4) ?n = m"
    using rec by (simp_all add: record_at_def)
  have len0: "(of_nat ?n :: u32) \<noteq> WRAP_SENTINEL_LEN"
    using n of_nat_u32_inj [of ?n 0] by (auto simp: WRAP_SENTINEL_LEN_def)
  have unat_len: "unat (of_nat ?n :: u32) = ?n" using n by (simp add: unat_of_nat)
  have ucast_len: "(ucast (of_nat ?n :: u32) :: u64) = of_nat ?n"
    by (rule unsigned_word_eqI) (simp add: unsigned_ucast_eq unsigned_of_nat take_bit_nat_eq_self n(1)
      order.strict_trans [OF n(1)])
  have sint_len: "sint (of_nat ?n :: u32) = int ?n"
    using n by (simp add: signed_of_nat signed_take_bit_int_eq_self)
  have big: "mx < (of_nat ?n :: u64) \<longleftrightarrow> unat mx < ?n"
    using n by (simp add: word_less_nat_alt unat_of_nat)
  note ne = holds_nonempty_cursors [OF R]
  have pop: "shm_ring_pop rb mx s =
     (if unat mx < ?n then Some (pop_fails (- EMSGSIZE), s)
      else Some (pop_record rb (h_head (obj_hdr s)) (of_nat T) (ring_pos rb (of_nat T)) (of_nat ?n) s))"
    by (subst shm_ring_pop.simps) (use ne len0 in \<open>simp add: Let_def tail pos len ucast_len big\<close>)
  then show "unat mx < ?n \<Longrightarrow> shm_ring_pop rb mx s = Some (pop_fails (- EMSGSIZE), s)" by simp
  assume "?n \<le> unat mx"
  then have pop': "shm_ring_pop rb mx s =
      Some (pop_record rb (h_head (obj_hdr s)) (of_nat T) (ring_pos rb (of_nat T)) (of_nat ?n) s)"
    using pop by simp
  obtain r s' where rs: "pop_record rb (h_head (obj_hdr s)) (of_nat T) (ring_pos rb (of_nat T)) (of_nat ?n) s
      = (r, s')" by (cases "pop_record rb (h_head (obj_hdr s)) (of_nat T) (ring_pos rb (of_nat T)) (of_nat ?n) s")
  have nt: "of_nat T + of_nat ?n + SHM_RING_MSG_HDR_SIZE = (of_nat (T + 4 + ?n) :: u64)"
    by (simp add: SHM_RING_MSG_HDR_SIZE_def)
  have "obj_data s' = obj_data s" "h_head (obj_hdr s') = h_head (obj_hdr s)"
    "h_tail (obj_hdr s') = of_nat (T + 4 + ?n)" "r = pop_ok rb m s s'" "h_parks (obj_hdr s') = h_parks (obj_hdr s)"
    "h_flow_flag (obj_hdr s') = (if ring_used s' < low_watermark rb then 0 else h_flow_flag (obj_hdr s))"
    using rs by (auto simp: pop_record_def Let_def ucast_len nt pos4 unat_len buf sint_len pop_ok_def
        flow_wake_def ring_used_def split: if_splits)
  then show "\<exists>s'. shm_ring_pop rb mx s = Some (pop_ok rb m s s', s') \<and>
           ring_holds_at k (T + 4 + ?n) H rb s' ms \<and> obj_data s' = obj_data s \<and>
           h_parks (obj_hdr s') = h_parks (obj_hdr s) \<and>
           h_flow_flag (obj_hdr s') = (if ring_used s' < low_watermark rb then 0 else h_flow_flag (obj_hdr s))"
    using pop' rs holds_advance [OF R plain] by auto
qed

lemma pop_plain:
  assumes R: "ring_holds_at k T H rb s (m # ms)" and plain: "\<not> sentinel_at (obj_data s) (T mod 2 ^ k)"
  shows "unat mx < length m \<Longrightarrow> shm_ring_pop rb mx s = Some (pop_fails (- EMSGSIZE), s)"
    and "length m \<le> unat mx \<Longrightarrow> \<exists>s'. shm_ring_pop rb mx s = Some (pop_ok rb m s s', s') \<and>
           ring_holds_at k (T + 4 + length m) H rb s' ms"
  using pop_record_here [OF assms] by blast+


text \<open>A pop at a sentinel goes on as a pop at the next lap.\<close>

lemma pop_at_sentinel:
  assumes R: "ring_holds_at k T H rb s (m # ms)" and sent: "sentinel_at (obj_data s) (T mod 2 ^ k)"
  shows "shm_ring_pop rb mx s =
    shm_ring_pop rb mx (set_tail (of_nat (next_lap (2 ^ k) T)) s)"
proof -
  have g: "ring_geom rb k" and tail: "h_tail (obj_hdr s) = of_nat T"
    using R by (auto simp: ring_holds_at_def)
  note Tc = geom_mod_small [OF g, of T]
  have pos: "unat (ring_pos rb (of_nat T)) = T mod 2 ^ k"
    unfolding ring_pos_of_nat [OF g] using unat_of_nat_u64 [OF Tc] .
  have "un_le32 (mem_read (obj_data s) (T mod 2 ^ k) 4) = WRAP_SENTINEL_LEN"
    using sent by (simp add: sentinel_at_def WRAP_SENTINEL_LEN_def)
  then show ?thesis
    by (subst shm_ring_pop.simps) (use holds_nonempty_cursors [OF R] in
      \<open>simp add: Let_def tail pos ring_next_lap_of_nat [OF g] del: shm_updates\<close>)
qed

lemma pop_at:
  assumes R: "ring_holds_at k T H rb s (m # ms)"
  obtains s0 T' where "ring_holds_at k T' H rb s0 (m # ms)" "obj_data s0 = obj_data s"
    "h_flow_flag (obj_hdr s0) = h_flow_flag (obj_hdr s)" "h_head (obj_hdr s0) = h_head (obj_hdr s)"
    "unat mx < length m \<Longrightarrow> shm_ring_pop rb mx s = Some (pop_fails (- EMSGSIZE), s0)"
    "length m \<le> unat mx \<Longrightarrow> \<exists>s'. shm_ring_pop rb mx s = Some (pop_ok rb m s0 s', s') \<and>
       ring_holds_at k (T' + 4 + length m) H rb s' ms"
proof (cases "sentinel_at (obj_data s) (T mod 2 ^ k)")
  case True
  let ?s0 = "set_tail (of_nat (next_lap (2 ^ k) T)) s"
  note sk = holds_skip_sentinel [OF R True]
  have ns: "\<not> sentinel_at (obj_data ?s0) (next_lap (2 ^ k) T mod 2 ^ k)" using sk(2) by simp
  show ?thesis
    by (rule that [OF sk(1)]) (use pop_at_sentinel [OF R True] pop_plain [OF sk(1) ns] in simp_all)
next
  case False
  show ?thesis by (rule that [OF R]) (use pop_plain [OF R False] in simp_all)
qed

subsection \<open>Push and pop refine the queue\<close>

text \<open>What a push needs: the record, and a whole run to the end of the area before a wrap.\<close>

definition push_room :: "shm_ring \<Rightarrow> shm_obj \<Rightarrow> nat \<Rightarrow> bool" where
  "push_room rb s n \<longleftrightarrow>
    (let cap = unat (rb_capacity rb); contiguous = cap - unat (ring_pos rb (h_head (obj_hdr s)));
         need = n + 4 in
     (if contiguous < need then contiguous + need else need) \<le> cap - unat (ring_used s))"

lemma geom_unat: "ring_geom rb k \<Longrightarrow> unat (rb_capacity rb) = 2 ^ k"
proof -
  assume g: "ring_geom rb k"
  have "(2::nat) ^ k < 2 ^ 64" using geom_bounds(2) [OF g] by simp
  then show ?thesis unfolding geom_cap [OF g] by (rule unat_of_nat_u64)
qed

lemma used_unat: "ring_holds_at k T H rb s ms \<Longrightarrow> unat (ring_used s) = H - T"
proof -
  assume R: "ring_holds_at k T H rb s ms"
  then have "H - T \<le> 2 ^ k" "ring_geom rb k" by (auto simp: ring_holds_at_def)
  then have "H - T < 2 ^ 64" using geom_small by blast
  then show ?thesis unfolding ring_used_def ring_used_of_nat [OF R] by (rule unat_of_nat_u64)
qed

lemma push_room_of_nat:
  assumes R: "ring_holds_at k T H rb s ms"
  shows "push_room rb s n \<longleftrightarrow> (if 2 ^ k - H mod 2 ^ k < n + 4 then 2 ^ k - H mod 2 ^ k + (n + 4)
    else n + 4) \<le> 2 ^ k - (H - T)"
proof -
  have g: "ring_geom rb k" and h: "h_head (obj_hdr s) = of_nat H"
    using R by (auto simp: ring_holds_at_def)
  have "unat (ring_pos rb (of_nat H)) = H mod 2 ^ k"
    unfolding ring_pos_of_nat [OF g] using geom_mod_small [OF g] by (rule unat_of_nat_u64)
  then show ?thesis by (simp add: push_room_def Let_def h geom_unat [OF g] used_unat [OF R])
qed

lemma ring_holds_geom: "ring_holds rb s ms \<Longrightarrow> \<exists>k. ring_geom rb k"
  by (auto simp: ring_holds_def ring_holds_at_def)

lemma push_result:
  assumes "ring_holds rb s ms" "length bs < 2 ^ 63" "shm_ring_push (Some rb) (Some bs) s = (rc, s')"
  shows "rc = (if bs = [] then - EINVAL
     else if unat (rb_capacity rb) < length bs + 4 then - EMSGSIZE
     else if push_room rb s (length bs) then 0 else - EAGAIN)"
    and "rc \<noteq> 0 \<Longrightarrow> s' = s" and "rc = 0 \<Longrightarrow> ring_holds rb s' (ms @ [bs])"
proof -
  obtain k T H where R: "ring_holds_at k T H rb s ms" using assms(1) by (auto simp: ring_holds_def)
  then have g: "ring_geom rb k" by (simp add: ring_holds_at_def)
  have P: "push_at (2 ^ k) T H bs s = (rc, s')"
    using shm_ring_push_of_nat [OF R assms(2)] assms(3) by simp
  have "(2 ^ k - 4 < length bs) = (2 ^ k < length bs + 4)" using geom_bounds(1) [OF g] by arith
  then show "rc = (if bs = [] then - EINVAL
     else if unat (rb_capacity rb) < length bs + 4 then - EMSGSIZE
     else if push_room rb s (length bs) then 0 else - EAGAIN)"
    using P unfolding push_room_of_nat [OF R] geom_unat [OF g] not_less [symmetric]
    by (auto simp: push_at_def Let_def split: if_splits)
  show "rc \<noteq> 0 \<Longrightarrow> s' = s" using P by (auto simp: push_at_def Let_def split: if_splits)
  show "rc = 0 \<Longrightarrow> ring_holds rb s' (ms @ [bs])"
    using push_at_holds [OF R] P unfolding ring_holds_def by blast
qed

lemma pop_result:
  assumes "ring_holds rb s ms"
  obtains r s' where "shm_ring_pop rb mx s = Some (r, s')"
    "ms = [] \<Longrightarrow> r = pop_fails (- EAGAIN) \<and> s' = s"
    "\<And>m ms'. ms = m # ms' \<Longrightarrow> unat mx < length m \<Longrightarrow> r = pop_fails (- EMSGSIZE) \<and> ring_holds rb s' ms"
    "\<And>m ms'. ms = m # ms' \<Longrightarrow> length m \<le> unat mx \<Longrightarrow>
       r = pop_ok rb m s s' \<and> ring_holds rb s' ms'"
proof -
  obtain k T H where R: "ring_holds_at k T H rb s ms" using assms by (auto simp: ring_holds_def)
  show ?thesis
  proof (cases ms)
    case Nil
    then show ?thesis using that [of "pop_fails (- EAGAIN)" s] pop_empty R by auto
  next
    case (Cons m ms')
    show ?thesis
    proof (rule pop_at [OF R [unfolded Cons], of mx])
      fix s0 T'
      assume a: "ring_holds_at k T' H rb s0 (m # ms')"
        "h_flow_flag (obj_hdr s0) = h_flow_flag (obj_hdr s)"
        and small: "unat mx < length m \<Longrightarrow> shm_ring_pop rb mx s = Some (pop_fails (- EMSGSIZE), s0)"
        and fits: "length m \<le> unat mx \<Longrightarrow> \<exists>s'. shm_ring_pop rb mx s = Some (pop_ok rb m s0 s', s') \<and>
          ring_holds_at k (T' + 4 + length m) H rb s' ms'"
      show ?thesis
      proof (cases "unat mx < length m")
        case True
        then show ?thesis
          using that [of "pop_fails (- EMSGSIZE)" s0] small [OF True] a(1) Cons
          unfolding ring_holds_def by (metis list.inject list.distinct(1) not_less)
      next
        case False
        then obtain s' where "shm_ring_pop rb mx s = Some (pop_ok rb m s0 s', s')"
          "ring_holds_at k (T' + 4 + length m) H rb s' ms'" using fits by (meson not_less)
        moreover have "pop_ok rb m s0 s' = pop_ok rb m s s'" using a(2) by (simp add: pop_ok_def)
        ultimately show ?thesis
          using that [of "pop_ok rb m s s'" s'] False Cons
          unfolding ring_holds_def by (metis list.inject list.distinct(1))
      qed
    qed
  qed
qed

end
