(* ===== verification/RingScatter.thy ===== *)
theory RingScatter
  imports RingQueue
begin

text \<open>
  The scatter push against the plain push: for the bodies it accepts, the gathered record
  is the record \<open>shm_ring_push\<close> writes for the concatenation of the segments. The copy
  loop ends, although it is written with a wrap that this ring never takes.
\<close>

definition seg_ok :: "shm_segment \<Rightarrow> bool" where
  "seg_ok sg \<longleftrightarrow> (case seg_base sg of None \<Rightarrow> seg_len sg = 0
     | Some bs \<Rightarrow> length bs < 2 ^ 63 \<and> seg_len sg = of_nat (length bs))"

definition seg_bytes :: "shm_segment \<Rightarrow> u8 list" where
  "seg_bytes sg = (case seg_base sg of None \<Rightarrow> [] | Some bs \<Rightarrow> bs)"

definition gather :: "shm_segment list \<Rightarrow> u8 list" where
  "gather sgs = concat (map seg_bytes sgs)"

lemma gather_simps [simp]:
  "gather [] = []" "gather (sg # sgs) = seg_bytes sg @ gather sgs"
  by (simp_all add: gather_def)

lemma seg_len_bytes: "seg_ok sg \<Longrightarrow> seg_len sg = of_nat (length (seg_bytes sg))"
  by (auto simp: seg_ok_def seg_bytes_def split: option.splits)

lemma seg_body_gather:
  "list_all seg_ok sgs \<Longrightarrow> seg_body sgs b = Some (b + of_nat (length (gather sgs)))"
proof (induction sgs arbitrary: b)
  case (Cons sg sgs)
  then have "\<not> (seg_base sg = None \<and> seg_len sg \<noteq> 0)" by (auto simp: seg_ok_def split: option.splits)
  then show ?case using Cons by (simp add: seg_len_bytes)
qed simp

subsection \<open>The copy loop\<close>

lemma copy_seg_fits:
  assumes c: "unat cap = c" and p: "p < c" "p + length bs \<le> c"
  shows "copy_seg cap (of_nat p) bs (of_nat (length bs)) s
    = Some (of_nat ((p + length bs) mod c), write_data p bs s)"
proof -
  have c64: "c < 2 ^ 64" 
  proof -
    have "unat cap < 2 ^ LENGTH(64)" by (rule unsigned_less)
    then show ?thesis using c by simp
  qed
  have cap: "cap = of_nat c" unfolding c [symmetric] by simp
  have pn: "unat (of_nat p :: u64) = p" using p c64 by (intro unat_of_nat_u64) simp
  have ln: "unat (of_nat (length bs) :: u64) = length bs" using p c64 by (intro unat_of_nat_u64) simp
  have room: "cap - of_nat p = (of_nat (c - p) :: u64)"
    unfolding cap using p by (simp add: of_nat_diff)
  have chunk: "(if of_nat (length bs) < cap - of_nat p then of_nat (length bs) else cap - of_nat p)
      = (of_nat (length bs) :: u64)"
  proof (cases "length bs < c - p")
    case True
    then show ?thesis unfolding room using p c64 by (subst u64_less_iff) auto
  next
    case False
    then have "c - p = length bs" using p by simp
    then show ?thesis unfolding room by simp
  qed
  have next_p: "(of_nat p + of_nat (length bs)) mod cap = (of_nat ((p + length bs) mod c) :: u64)"
  proof (rule unsigned_word_eqI)
    have "unat (of_nat (p + length bs) :: u64) = p + length bs"
      using p c64 by (intro unat_of_nat_u64) simp
    moreover have "unat (of_nat ((p + length bs) mod c) :: u64) = (p + length bs) mod c"
      using p c64 by (intro unat_of_nat_u64) (meson le_less_trans mod_less_eq_dividend)
    ultimately show "unat ((of_nat p + of_nat (length bs)) mod cap :: u64)
        = unat (of_nat ((p + length bs) mod c) :: u64)"
      by (simp add: unat_mod_distrib c del: of_nat_add flip: of_nat_add)
  qed
  show ?thesis
  proof (cases "bs = []")
    case True
    then show ?thesis using p by (subst copy_seg.simps) simp
  next
    case False
    then have "(of_nat (length bs) :: u64) \<noteq> 0" using ln by auto
    then show ?thesis
      by (subst copy_seg.simps, subst copy_seg.simps) (simp add: Let_def chunk next_p ln pn)
  qed
qed

lemma copy_segs_empty:
  "list_all seg_ok sgs \<Longrightarrow> gather sgs = [] \<Longrightarrow> copy_segs cap p sgs s = Some (p, s)"
proof (induction sgs)
  case (Cons sg sgs)
  then have "seg_len sg = 0" by (simp add: seg_len_bytes)
  then show ?case using Cons by (simp add: copy_seg.simps)
qed simp

lemma copy_segs_fits:
  assumes "list_all seg_ok sgs" "unat cap = c" "p < c" "p + length (gather sgs) \<le> c"
  shows "\<exists>q. copy_segs cap (of_nat p) sgs s = Some (q, write_data p (gather sgs) s)"
  using assms
proof (induction sgs arbitrary: p s)
  case (Cons sg sgs)
  let ?n = "length (seg_bytes sg)"
  have one: "copy_seg cap (of_nat p) (case seg_base sg of None \<Rightarrow> [] | Some bs \<Rightarrow> bs) (seg_len sg) s
      = Some (of_nat ((p + ?n) mod c), write_data p (seg_bytes sg) s)"
    using copy_seg_fits [of cap c p "seg_bytes sg" s] Cons.prems
    by (simp add: seg_len_bytes) (simp add: seg_bytes_def)
  have join: "write_data (p + ?n) (gather sgs) (write_data p (seg_bytes sg) s)
      = write_data p (gather (sg # sgs)) s"
    by (simp add: mem_write_append)
  show ?case
  proof (cases "p + ?n < c")
    case True
    then show ?thesis using Cons.IH [of "p + ?n" "write_data p (seg_bytes sg) s"] Cons.prems one join
      by (auto simp del: shm_updates)
  next
    case False
    moreover have "p + ?n + length (gather sgs) \<le> c" using Cons.prems(4) by simp
    ultimately have "length (gather sgs) = 0" by linarith
    then have "gather sgs = []" by simp
    then show ?thesis using Cons.prems one join by (simp add: copy_segs_empty del: shm_updates)
  qed
qed simp


subsection \<open>The scatter push writes the record of the plain push\<close>

lemma geom_ring_pos:
  assumes "ring_geom rb k"
  shows "unat (ring_pos rb h) < 2 ^ k" "of_nat (unat (ring_pos rb h)) = ring_pos rb h"
proof -
  show "unat (ring_pos rb h) < 2 ^ k"
    using assms unat_and_mask [of h k] by (simp add: ring_pos_def ring_geom_def)
qed simp

lemma ring_lap_required:
  "h + ((rb_capacity rb - ring_pos rb h) + need) = ring_next_lap rb h + need"
  by (simp add: ring_next_lap_def and_not_mask ring_pos_def)

lemma push_scatter_fits:
  assumes g: "ring_geom rb k" and ok: "list_all seg_ok sgs" and n: "n = length (gather sgs)"
    and ne: "0 < n" and fit: "n + 8 \<le> 2 ^ k"
  shows "shm_ring_push_scatter (Some rb) (Some sgs) s
    = Some (shm_ring_push (Some rb) (Some (gather sgs)) s)"
proof -
  let ?c = "2 ^ k :: nat" and ?bs = "gather sgs" and ?h = "h_head (obj_hdr s)"
  let ?p = "ring_pos rb ?h" and ?cap = "rb_capacity rb"
  let ?need = "of_nat n + SHM_RING_MSG_HDR_SIZE :: u64"
  have small: "m \<le> ?c \<Longrightarrow> m < 2 ^ 64" for m using geom_small [OF g] .
  have sgs: "sgs \<noteq> []" using ne n by auto
  have body: "seg_body sgs 0 = Some (of_nat n)" using seg_body_gather [OF ok] n by simp
  have cap: "unat ?cap = ?c" "?cap = of_nat ?c" using geom_unat [OF g] geom_cap [OF g] by auto
  have size: "(of_nat n :: u64) \<noteq> 0" using u64_eq_iff [of n 0] small [of n] ne fit by simp
  have cap4: "?cap - SHM_RING_MSG_HDR_SIZE = of_nat (?c - 4)"
    unfolding cap(2) SHM_RING_MSG_HDR_SIZE_def using fit by (simp add: of_nat_diff)
  have need: "?need = of_nat (n + 4)" by (simp add: SHM_RING_MSG_HDR_SIZE_def)
  have big: "\<not> of_nat (?c - 4) < (of_nat n :: u64)" "\<not> of_nat (?c - 4) < ?need"
    unfolding need using fit small [of n] small [of "n + 4"] small [of "?c - 4"] by (subst u64_less_iff; simp)+
  note pos = geom_ring_pos [OF g, of ?h]
  have cont: "?cap - ?p = of_nat (?c - unat ?p)"
    using pos by (simp add: cap(2) of_nat_diff less_imp_le)
  have straight: "unat ?p + 4 + n \<le> ?c" if "\<not> ?cap - ?p < ?need"
  proof -
    have "\<not> (of_nat (?c - unat ?p) :: u64) < of_nat (n + 4)" using that unfolding cont need .
    then have "n + 4 \<le> ?c - unat ?p"
      using small [of "n + 4"] small [of "?c - unat ?p"] fit by (subst (asm) u64_less_iff) auto
    then show ?thesis using pos(1) by linarith
  qed
  have four: "unat SHM_RING_MSG_HDR_SIZE = 4" by (simp add: SHM_RING_MSG_HDR_SIZE_def)
  have plus4: "(of_nat q + 4) mod ?cap = of_nat (q + 4)" "unat (of_nat q + 4 :: u64) = q + 4"
    if "q + 4 < ?c" for q :: nat
  proof -
    have u: "unat (of_nat (q + 4) :: u64) = q + 4" using that small [of "q + 4"] by (intro unat_of_nat_u64) simp
    then show "unat (of_nat q + 4 :: u64) = q + 4" by simp
    show "(of_nat q + 4) mod ?cap = of_nat (q + 4)"
    proof (rule unsigned_word_eqI)
      have "unat ((of_nat q + 4) mod ?cap) = (q + 4) mod ?c"
        using u by (simp only: unat_mod_distrib cap(1)) simp
      then show "unat ((of_nat q + 4) mod ?cap) = unat (of_nat (q + 4) :: u64)"
        using u that by simp
    qed
  qed
  have copies: "\<exists>p'. copy_segs ?cap (of_nat (q + 4)) sgs s' = Some (p', write_data (q + 4) ?bs s')"
    if "q + 4 + n \<le> ?c" for q s'
  proof (rule copy_segs_fits [OF ok cap(1)])
    show "q + 4 < ?c" using that ne by linarith
    show "q + 4 + length ?bs \<le> ?c" using that n by simp
  qed
  have wrapped: "(0 + 4) mod ?cap = of_nat (0 + 4)" using plus4(1) [of 0] fit by simp
  have push: "shm_ring_push (Some rb) (Some ?bs) s = (if ?cap - (?h - h_tail (obj_hdr s)) <
       (if ?cap - ?p < ?need then ?cap - ?p + ?need else ?need) then (- EAGAIN, s)
     else if ?cap - ?p < ?need then (0, set_head (ring_next_lap rb ?h + ?need) (write_data 4 ?bs
       (write_data 0 (le32 (ucast (of_nat n :: u64))) (write_data (unat ?p) (le32 0) s))))
     else (0, set_head (?h + ?need) (write_data (unat (?p + 4)) ?bs
       (write_data (unat ?p) (le32 (ucast (of_nat n :: u64))) s))))"
    unfolding shm_ring_push_def
    by (simp add: Let_def size big n [symmetric] cap4 four WRAP_SENTINEL_LEN_def del: shm_updates)
       (simp add: SHM_RING_MSG_HDR_SIZE_def)
  show ?thesis
  proof (cases "?cap - ?p < ?need")
    case True
    obtain p' where "copy_segs ?cap (of_nat (0 + 4)) sgs (write_data 0 (le32 (ucast (of_nat n :: u64)))
        (write_data (unat ?p) (le32 0) s)) = Some (p', write_data (0 + 4) ?bs
        (write_data 0 (le32 (ucast (of_nat n :: u64))) (write_data (unat ?p) (le32 0) s)))"
      using copies [of 0] fit by fastforce
    then show ?thesis
      unfolding push unfolding shm_ring_push_scatter_def
      using True wrapped size big
      by (simp add: Let_def sgs body cap4 need [symmetric] ring_lap_required WRAP_SENTINEL_LEN_def
          del: shm_updates)
  next
    case False
    note st = straight [OF False]
    obtain p' where "copy_segs ?cap (of_nat (unat ?p + 4)) sgs
        (write_data (unat ?p) (le32 (ucast (of_nat n :: u64))) s) = Some (p', write_data (unat ?p + 4) ?bs
        (write_data (unat ?p) (le32 (ucast (of_nat n :: u64))) s))"
      using copies [of "unat ?p"] st by fastforce
    then show ?thesis
      unfolding push unfolding shm_ring_push_scatter_def
      using False plus4 [of "unat ?p"] st size big ne
      by (simp add: Let_def sgs body cap4 need [symmetric] pos(2) del: shm_updates)
  qed
qed

end
