(* ===== verification/Channel.thy ===== *)
theory Channel
  imports Prelude
begin

text \<open>
  The contract of a message channel: what the transports promise and what the clients of a
  transport rely on. A channel is a state with a sending and a receiving operation, both
  returning a C result code; \<open>None\<close> is a call that does not return. The laws relate the
  operations to the queue of messages the state holds; the lemmas are about whole runs.
\<close>

subsection \<open>Runs\<close>

datatype 'm chan_op = Send 'm | Recv csize

fun sends :: "'m chan_op list \<Rightarrow> 'm list" where
  "sends [] = []"
| "sends (Send m # ops) = m # sends ops"
| "sends (Recv n # ops) = sends ops"

text \<open>
  A schedule of sends and receives, run from a state: the messages accepted, the messages
  delivered, the state reached. The result is \<open>None\<close> as soon as one call does not return.
\<close>

fun chan_run ::
  "('m \<Rightarrow> 's \<Rightarrow> (int \<times> 's) option) \<Rightarrow> (csize \<Rightarrow> 's \<Rightarrow> ((int \<times> u8 list) \<times> 's) option) \<Rightarrow>
   'm chan_op list \<Rightarrow> 's \<Rightarrow> ('m list \<times> u8 list list \<times> 's) option" where
  "chan_run push pop [] s = Some ([], [], s)"
| "chan_run push pop (Send m # ops) s =
    (case push m s of None \<Rightarrow> None
     | Some (rc, s') \<Rightarrow> map_option (\<lambda>(acc, del, t). (if rc = 0 then m # acc else acc, del, t))
                         (chan_run push pop ops s'))"
| "chan_run push pop (Recv n # ops) s =
    (case pop n s of None \<Rightarrow> None
     | Some ((rc, buf), s') \<Rightarrow> map_option (\<lambda>(acc, del, t). (acc, if 0 \<le> rc then buf # del else del, t))
                         (chan_run push pop ops s'))"

lemma chan_run_append:
  assumes "chan_run push pop xs s = Some (acc, del, s')" "chan_run push pop ys s' = Some (acc', del', t)"
  shows "chan_run push pop (xs @ ys) s = Some (acc @ acc', del @ del', t)"
  using assms(1)
proof (induction xs arbitrary: s acc del rule: sends.induct)
  case (2 m xs)
  then show ?case by (fastforce split: option.splits)
next
  case (3 n xs)
  then show ?case by (fastforce split: option.splits)
qed (use assms(2) in simp)

lemma chan_run_accepts: "chan_run push pop ops s = Some (acc, del, t) \<Longrightarrow> set acc \<subseteq> set (sends ops)"
proof (induction ops arbitrary: s acc del rule: sends.induct)
  case (2 m ops)
  then show ?case by (fastforce split: option.splits if_splits)
next
  case (3 n ops)
  then show ?case by (fastforce split: option.splits)
qed simp

subsection \<open>The contract\<close>

locale fifo_channel =
  fixes holds :: "'s \<Rightarrow> u8 list list \<Rightarrow> bool"
    and sendable :: "'m \<Rightarrow> bool"
    and payload :: "'m \<Rightarrow> u8 list"
    and push :: "'m \<Rightarrow> 's \<Rightarrow> (int \<times> 's) option"
    and pop :: "csize \<Rightarrow> 's \<Rightarrow> ((int \<times> u8 list) \<times> 's) option"
  assumes push_law: "holds s ms \<Longrightarrow> sendable m \<Longrightarrow>
      \<exists>rc s'. push m s = Some (rc, s') \<and> holds s' (if rc = 0 then ms @ [payload m] else ms)"
    and pop_law: "holds s ms \<Longrightarrow>
      \<exists>rc buf s'. pop n s = Some ((rc, buf), s') \<and>
        (if 0 \<le> rc then \<exists>ms'. ms = buf # ms' \<and> holds s' ms' else holds s' ms)"
begin

text \<open>Every run returns; what is delivered, followed by what is left, is what was queued
  followed by what was accepted.\<close>

lemma run_fifo:
  assumes "holds s ms" "list_all sendable (sends ops)"
  shows "\<exists>acc del s' rest. chan_run push pop ops s = Some (acc, del, s') \<and>
    ms @ map payload acc = del @ rest \<and> holds s' rest"
  using assms
proof (induction ops arbitrary: s ms)
  case (Cons oper ops)
  show ?case
  proof (cases oper)
    case (Send m)
    then obtain rc s' where p: "push m s = Some (rc, s')"
      and h: "holds s' (if rc = 0 then ms @ [payload m] else ms)"
      using push_law [of s ms m] Cons.prems by auto
    have "list_all sendable (sends ops)" using Cons.prems(2) Send by simp
    from Cons.IH [OF h this] obtain acc del s'' rest where
      "chan_run push pop ops s' = Some (acc, del, s'')"
      "(if rc = 0 then ms @ [payload m] else ms) @ map payload acc = del @ rest" "holds s'' rest"
      by blast
    then show ?thesis using Send p by (cases "rc = 0") auto
  next
    case (Recv n)
    then obtain rc buf s' where p: "pop n s = Some ((rc, buf), s')"
      and h: "if 0 \<le> rc then \<exists>ms'. ms = buf # ms' \<and> holds s' ms' else holds s' ms"
      using pop_law [of s ms n] Cons.prems by auto
    then obtain ms' where ms': "holds s' ms'" "ms = (if 0 \<le> rc then buf # ms' else ms')"
      by (metis (full_types))
    have "list_all sendable (sends ops)" using Cons.prems(2) Recv by simp
    from Cons.IH [OF ms'(1) this] obtain acc del s'' rest where
      "chan_run push pop ops s' = Some (acc, del, s'')"
      "ms' @ map payload acc = del @ rest" "holds s'' rest"
      by blast
    then show ?thesis using Recv p ms'(2) by auto
  qed
qed auto

end

text \<open>A channel whose receiver, given a large enough buffer, gets the oldest message.\<close>

locale draining_channel = fifo_channel +
  assumes pop_ready: "holds s (m # ms) \<Longrightarrow> length m \<le> unat n \<Longrightarrow>
      \<exists>s'. pop n s = Some ((int (length m), m), s') \<and> holds s' ms"
begin

lemma run_drain:
  assumes "holds s ms" "list_all (\<lambda>m. length m \<le> unat n) ms"
  shows "\<exists>s'. chan_run push pop (replicate (length ms) (Recv n)) s = Some ([], ms, s') \<and> holds s' []"
  using assms
proof (induction ms arbitrary: s)
  case (Cons m ms)
  then obtain s' where p: "pop n s = Some ((int (length m), m), s')" "holds s' ms"
    using pop_ready [of s m ms n] by auto
  with Cons.IH [of s'] Cons.prems show ?case by auto
qed auto

text \<open>A run followed by enough receives delivers exactly what was accepted, in order.\<close>

lemma run_then_drain:
  assumes "holds s []" "list_all sendable (sends ops)"
    and small: "\<And>m. m \<in> set (sends ops) \<Longrightarrow> length (payload m) \<le> unat n"
  shows "\<exists>acc del s' k. chan_run push pop (ops @ replicate k (Recv n)) s = Some (acc, del, s') \<and>
    del = map payload acc \<and> holds s' []"
proof -
  obtain acc del s' rest where r: "chan_run push pop ops s = Some (acc, del, s')"
    "map payload acc = del @ rest" "holds s' rest" using run_fifo [OF assms(1,2)] by auto
  have "set acc \<subseteq> set (sends ops)" using r(1) by (rule chan_run_accepts)
  moreover have "set rest \<subseteq> payload ` set acc" using arg_cong [OF r(2), of set] by auto
  ultimately have "list_all (\<lambda>m. length m \<le> unat n) rest" using small by (fastforce simp: list_all_iff)
  with run_drain [OF r(3)] obtain t where
    "chan_run push pop (replicate (length rest) (Recv n)) s' = Some ([], rest, t)" "holds t []" by blast
  then show ?thesis
    using r chan_run_append [OF r(1)] by fastforce
qed

end

end
