(* ===== verification/RingFifo.thy ===== *)
theory RingFifo
  imports RingScatter Channel
begin

text \<open>
  What the ring promises its clients: it starts empty, each of its two ways to send and its
  receive refine the queue operations, and together they are a channel in the sense of
  \<open>Channel\<close>, so every run of sends and receives delivers what was accepted, in order.
\<close>

subsection \<open>The size and the fresh ring\<close>

lemma round_pow2_loop_pow:
  assumes "j \<le> 63" "v \<le> 2 ^ 63"
  shows "\<exists>k\<ge>j. k \<le> 63 \<and> round_pow2_loop (2 ^ j) v = Some (2 ^ k) \<and> v \<le> 2 ^ k \<and>
    (k = j \<or> 2 ^ (k - 1) < v)"
  using assms
proof (induction "63 - j" arbitrary: j)
  case 0
  then have "j = 63" by simp
  then show ?case using 0 by (subst round_pow2_loop.simps) (auto simp: not_less intro!: exI [of _ 63])
next
  case (Suc d)
  show ?case
  proof (cases "2 ^ j < v")
    case True
    have "push_bit 1 (2 ^ j) = (2 ^ Suc j :: u64)" by (simp add: push_bit_eq_mult)
    then have step: "round_pow2_loop (2 ^ j) v = round_pow2_loop (2 ^ Suc j) v"
      using True by (subst round_pow2_loop.simps) (simp add: mult.commute)
    have "d = 63 - Suc j" "Suc j \<le> 63" using Suc.hyps(2) by auto
    from Suc.hyps(1) [OF this Suc.prems(2)] obtain k where k: "Suc j \<le> k" "k \<le> 63"
      "round_pow2_loop (2 ^ Suc j) v = Some (2 ^ k)" "v \<le> 2 ^ k" "k = Suc j \<or> 2 ^ (k - 1) < v"
      by blast
    then have "2 ^ (k - 1) < v" using True by auto
    then show ?thesis using k step by (intro exI [of _ k]) auto
  next
    case False
    then show ?thesis using Suc.prems
      by (subst round_pow2_loop.simps) (auto simp: not_less intro!: exI [of _ j])
  qed
qed

lemma round_pow2_loop_result:
  assumes "round_pow2_loop p v = Some c" shows "v \<le> c \<and> (\<exists>i. c = push_bit i p)"
proof (rule round_pow2_loop.raw_induct [where P = "\<lambda>p v c. v \<le> c \<and> (\<exists>i. c = push_bit i p)", OF _ assms])
  fix loop and p v c :: csize
  assume ih: "\<And>p v c. loop p v = Some c \<Longrightarrow> v \<le> c \<and> (\<exists>i. c = push_bit i p)"
    and body: "(if p < v then loop (push_bit 1 p) v else Some p) = Some c"
  show "v \<le> c \<and> (\<exists>i. c = push_bit i p)"
  proof (cases "p < v")
    case True
    then have "v \<le> c \<and> (\<exists>i. c = push_bit i (push_bit 1 p))" using ih body by simp
    then show ?thesis by (metis push_bit_push_bit)
  next
    case False
    then have "c = p" using body by simp
    then show ?thesis using False by (auto simp: not_less intro!: exI [of _ 0])
  qed
qed

lemma round_pow2_diverges: "2 ^ 63 < v \<Longrightarrow> round_pow2 v = None"
proof (rule ccontr)
  assume v: "2 ^ 63 < v" and "round_pow2 v \<noteq> None"
  then obtain c i where c: "v \<le> c" "c = push_bit i (2 ^ 12)"
    using round_pow2_loop_result [of 4096 v] by (auto simp: round_pow2_def)
  have ci: "c = 2 ^ (12 + i)" using c(2) by (simp add: push_bit_eq_mult power_add)
  have "c \<le> 2 ^ 63"
  proof (cases "12 + i \<le> 63")
    case True
    then have le: "(2::nat) ^ (12 + i) \<le> 2 ^ 63" by (intro power_increasing) auto
    then have "unat (of_nat (2 ^ (12 + i)) :: u64) = 2 ^ (12 + i)"
      by (intro unat_of_nat_u64) (rule le_less_trans, auto)
    then have "unat c = 2 ^ (12 + i)" by (simp add: ci)
    then show ?thesis using le by (simp add: word_le_nat_alt)
  next
    case False
    then have "c = 0" unfolding ci by (intro exp_eq_zero_iff [THEN iffD2]) simp
    then show ?thesis by simp
  qed
  then show False using v c(1) by simp
qed


lemma round_pow2_cases:
  obtains (fits) k where "v \<le> 2 ^ 63" "12 \<le> k" "k \<le> 63" "round_pow2 v = Some (2 ^ k)" "v \<le> 2 ^ k"
      "k = 12 \<or> 2 ^ (k - 1) < v"
  | (spins) "2 ^ 63 < v" "round_pow2 v = None"
proof (cases "v \<le> 2 ^ 63")
  case True
  then show ?thesis using round_pow2_loop_pow [of 12 v] fits by (auto simp: round_pow2_def)
next
  case False
  then show ?thesis using spins round_pow2_diverges by (simp add: not_le)
qed

lemma init_holds: "ring_geom rb k \<Longrightarrow> ring_holds rb (init_header cap s) []"
  unfolding ring_holds_def ring_holds_at_def
  by (intro exI [of _ k] exI [of _ "0::nat"]) (simp add: init_header_def)

subsection \<open>The ring as a channel\<close>

text \<open>\<open>shm_ring_pop\<close> with what the caller sees of it: the code and the buffer.\<close>

definition ring_recv :: "shm_ring \<Rightarrow> csize \<Rightarrow> shm_obj \<Rightarrow> ((int \<times> u8 list) \<times> shm_obj) option" where
  "ring_recv rb n s = map_option (\<lambda>(r, s'). ((pr_rc r, pr_buf r), s')) (shm_ring_pop rb n s)"

definition ring_send :: "shm_ring \<Rightarrow> u8 list \<Rightarrow> shm_obj \<Rightarrow> (int \<times> shm_obj) option" where
  "ring_send rb bs s = Some (shm_ring_push (Some rb) (Some bs) s)"

definition ring_sendv :: "shm_ring \<Rightarrow> shm_segment list \<Rightarrow> shm_obj \<Rightarrow> (int \<times> shm_obj) option" where
  "ring_sendv rb sgs s = shm_ring_push_scatter (Some rb) (Some sgs) s"

definition sendv_ok :: "shm_segment list \<Rightarrow> bool" where
  "sendv_ok sgs \<longleftrightarrow> list_all seg_ok sgs \<and> length (gather sgs) < 2 ^ 63"

lemma push_scatter_result:
  assumes "ring_holds rb s ms" "sendv_ok sgs"
  shows "shm_ring_push_scatter (Some rb) (Some sgs) s =
    Some (if sgs = [] then (- EINVAL, s)
          else if gather sgs = [] \<or> unat (rb_capacity rb) < length (gather sgs) + 8 then (- EMSGSIZE, s)
          else shm_ring_push (Some rb) (Some (gather sgs)) s)"
proof -
  let ?n = "length (gather sgs)"
  obtain k where g: "ring_geom rb k" using ring_holds_geom [OF assms(1)] by blast
  have ok: "list_all seg_ok sgs" and n: "?n < 2 ^ 63" using assms(2) by (auto simp: sendv_ok_def)
  show ?thesis
  proof (cases "sgs = [] \<or> ?n = 0 \<or> 2 ^ k < ?n + 8")
    case True
    have c: "(2::nat) ^ k - 4 < 2 ^ 64" by (rule geom_small [OF g]) simp
    have "rb_capacity rb - SHM_RING_MSG_HDR_SIZE = of_nat (2 ^ k - 4)"
      unfolding geom_cap [OF g] SHM_RING_MSG_HDR_SIZE_def using geom_bounds(1) [OF g] by (simp add: of_nat_diff)
    moreover have "of_nat ?n + SHM_RING_MSG_HDR_SIZE = (of_nat (?n + 4) :: u64)"
      by (simp add: SHM_RING_MSG_HDR_SIZE_def)
    moreover have "(of_nat (2 ^ k - 4) :: u64) < of_nat (?n + 4) \<longleftrightarrow> 2 ^ k - 4 < ?n + 4"
      using c n by (intro u64_less_iff) auto
    moreover have "(of_nat ?n :: u64) = 0 \<longleftrightarrow> ?n = 0" using u64_eq_iff [of ?n 0] n by simp
    ultimately show ?thesis
      unfolding shm_ring_push_scatter_def
      using True seg_body_gather [OF ok, of 0] geom_bounds(1) [OF g] geom_unat [OF g]
      by (cases "sgs = []") (auto simp: Let_def)
  next
    case False
    then show ?thesis using push_scatter_fits [OF g ok refl] geom_unat [OF g] by simp
  qed
qed

lemma ring_recv_law:
  assumes "ring_holds rb s ms"
  shows "\<exists>rc buf s'. ring_recv rb n s = Some ((rc, buf), s') \<and>
    (if 0 \<le> rc then \<exists>ms'. ms = buf # ms' \<and> ring_holds rb s' ms' else ring_holds rb s' ms)"
proof (cases ms)
  case Nil
  then have "shm_ring_pop rb n s = Some (pop_fails (- EAGAIN), s)"
    using pop_result [OF assms, of n] by metis
  then show ?thesis using assms by (simp add: ring_recv_def pop_fails_def EAGAIN_def)
next
  case (Cons m ms')
  obtain r s' where p: "shm_ring_pop rb n s = Some (r, s')"
    "unat n < length m \<Longrightarrow> r = pop_fails (- EMSGSIZE) \<and> ring_holds rb s' ms"
    "length m \<le> unat n \<Longrightarrow> r = pop_ok rb m s s' \<and> ring_holds rb s' ms'"
    using pop_result [OF assms, of n] Cons by metis
  then show ?thesis using Cons
    by (cases "unat n < length m") (simp_all add: ring_recv_def pop_fails_def EMSGSIZE_def pop_ok_def)
qed

lemma ring_recv_ready:
  assumes "ring_holds rb s (m # ms)" "length m \<le> unat n"
  shows "\<exists>s'. ring_recv rb n s = Some ((int (length m), m), s') \<and> ring_holds rb s' ms"
proof -
  obtain s' where "shm_ring_pop rb n s = Some (pop_ok rb m s s', s')" "ring_holds rb s' ms"
    using pop_result [OF assms(1), of n] assms(2) by metis
  then show ?thesis by (simp add: ring_recv_def pop_ok_def)
qed

lemma ring_send_law:
  assumes "ring_holds rb s ms" "length bs < 2 ^ 63"
  shows "\<exists>rc s'. ring_send rb bs s = Some (rc, s') \<and>
    ring_holds rb s' (if rc = 0 then ms @ [bs] else ms)"
proof -
  obtain rc s' where p: "shm_ring_push (Some rb) (Some bs) s = (rc, s')" by fastforce
  then show ?thesis using push_result(2,3) [OF assms p] assms(1) by (auto simp: ring_send_def)
qed

interpretation ring: draining_channel "ring_holds rb" "\<lambda>bs. length bs < 2 ^ 63" "\<lambda>bs. bs"
    "ring_send rb" "ring_recv rb" for rb
  by unfold_locales (rule ring_send_law ring_recv_law ring_recv_ready; assumption)+

interpretation ringv: draining_channel "ring_holds rb" sendv_ok gather "ring_sendv rb" "ring_recv rb" for rb
proof unfold_locales
  fix s ms sgs assume a: "ring_holds rb s ms" "sendv_ok sgs"
  then obtain rc s' where p: "ring_send rb (gather sgs) s = Some (rc, s')"
    "ring_holds rb s' (if rc = 0 then ms @ [gather sgs] else ms)"
    using ring_send_law [OF a(1), of "gather sgs"] by (auto simp: sendv_ok_def)
  show "\<exists>rc s'. ring_sendv rb sgs s = Some (rc, s') \<and>
      ring_holds rb s' (if rc = 0 then ms @ [gather sgs] else ms)"
    unfolding ring_sendv_def push_scatter_result [OF a]
    using p a(1) by (auto simp: ring_send_def EINVAL_def EMSGSIZE_def)
qed (rule ring_recv_law ring_recv_ready; assumption)+


subsection \<open>Properties\<close>

text \<open>C24: \<open>round_pow2\<close> returns the smallest power of two, at least a page, that is not below
  the requested capacity; for a request above \<open>2 ^ 63\<close> its loop never ends.\<close>

lemma round_pow2_correct:
  "round_pow2 v = Some c \<longleftrightarrow> v \<le> 2 ^ 63 \<and> v \<le> c \<and>
     (\<exists>k\<in>{12..63}. c = 2 ^ k \<and> (k = 12 \<or> 2 ^ (k - 1) < v))"
proof (cases rule: round_pow2_cases [of v])
  case (fits k)
  have uniq: "j = k" if j: "12 \<le> j" "j \<le> 63" "j = 12 \<or> 2 ^ (j - 1) < v" "v \<le> 2 ^ j" for j
  proof -
    have pow: "unat (2 ^ i :: u64) = 2 ^ i" if "i \<le> 63" for i
    proof -
      have "(2::nat) ^ i < 2 ^ 64" using that by (intro power_strict_increasing) auto
      then have "unat (of_nat (2 ^ i) :: u64) = 2 ^ i" by (rule unat_of_nat_u64)
      then show ?thesis by simp
    qed
    have less: "a < b" if "(2::u64) ^ a < 2 ^ b" "a \<le> 63" "b \<le> 63" for a b
      using that(1) unfolding word_less_nat_alt pow [OF that(2)] pow [OF that(3)] by simp
    have "j - 1 < k" if "j \<noteq> 12"
    proof (rule less)
      show "(2::u64) ^ (j - 1) < 2 ^ k" using j(3) that fits(5) by auto
    qed (use j(2) fits(3) in auto)
    moreover have "k - 1 < j" if "k \<noteq> 12"
    proof (rule less)
      show "(2::u64) ^ (k - 1) < 2 ^ j" using fits(6) that j(4) by auto
    qed (use j(2) fits(3) in auto)
    ultimately show "j = k" using j(1) fits(2) by arith
  qed
  show ?thesis
  proof
    assume "round_pow2 v = Some c"
    then have "c = 2 ^ k" using fits(4) by simp
    then show "v \<le> 2 ^ 63 \<and> v \<le> c \<and> (\<exists>k\<in>{12..63}. c = 2 ^ k \<and> (k = 12 \<or> 2 ^ (k - 1) < v))"
      using fits by (intro conjI bexI [of _ k]) simp_all
  next
    assume "v \<le> 2 ^ 63 \<and> v \<le> c \<and> (\<exists>k\<in>{12..63}. c = 2 ^ k \<and> (k = 12 \<or> 2 ^ (k - 1) < v))"
    then obtain j where "12 \<le> j" "j \<le> 63" "c = 2 ^ j" "j = 12 \<or> 2 ^ (j - 1) < v" "v \<le> c"
      unfolding Bex_def atLeastAtMost_iff by blast
    then have "c = 2 ^ k" using uniq [of j] by blast
    then show "round_pow2 v = Some c" using fits(4) by simp
  qed
next
  case spins
  then show ?thesis by (simp add: not_le)
qed

text \<open>C13: A push appends its message to the queue the ring holds, or fails and changes nothing,
  and it fails exactly for an empty message, one above \<open>capacity - 4\<close>, or no room.\<close>

lemma shm_ring_push_refines:
  assumes "ring_holds rb s ms" "length bs < 2 ^ 63"
  shows "\<exists>rc s'. shm_ring_push (Some rb) (Some bs) s = (rc, s') \<and>
    rc = (if bs = [] then - EINVAL
          else if unat (rb_capacity rb) < length bs + 4 then - EMSGSIZE
          else if push_room rb s (length bs) then 0 else - EAGAIN) \<and>
    (if rc = 0 then ring_holds rb s' (ms @ [bs]) else s' = s)"
proof -
  obtain rc s' where p: "shm_ring_push (Some rb) (Some bs) s = (rc, s')" by fastforce
  show ?thesis using push_result [OF assms p] p by auto
qed

text \<open>C14: A pop always returns. On an empty queue it gives \<open>-EAGAIN\<close>; into a buffer that is too
  small, \<open>-EMSGSIZE\<close>, and the message stays; otherwise it delivers the oldest message with its
  length, and wakes a parked producer exactly when the use falls below the low watermark.\<close>

lemma shm_ring_pop_refines:
  assumes "ring_holds rb s ms"
  shows "\<exists>r s'. shm_ring_pop rb n s = Some (r, s') \<and>
    (case ms of [] \<Rightarrow> r = pop_fails (- EAGAIN) \<and> s' = s
     | m # ms' \<Rightarrow>
       if unat n < length m then r = pop_fails (- EMSGSIZE) \<and> ring_holds rb s' ms
       else pr_rc r = int (length m) \<and> pr_buf r = m \<and> ring_holds rb s' ms' \<and>
            pr_woke r = (ring_used s' < low_watermark rb \<and> h_flow_flag (obj_hdr s) \<noteq> 0))"
proof (rule pop_result [OF assms, of n])
  fix r s' assume p: "shm_ring_pop rb n s = Some (r, s')"
    and "ms = [] \<Longrightarrow> r = pop_fails (- EAGAIN) \<and> s' = s"
    and "\<And>m ms'. ms = m # ms' \<Longrightarrow> unat n < length m \<Longrightarrow> r = pop_fails (- EMSGSIZE) \<and> ring_holds rb s' ms"
    and "\<And>m ms'. ms = m # ms' \<Longrightarrow> length m \<le> unat n \<Longrightarrow> r = pop_ok rb m s s' \<and> ring_holds rb s' ms'"
  then show ?thesis
    by (intro exI [of _ r] exI [of _ s'] conjI p) (auto simp: pop_ok_def not_less split: list.split)
qed

text \<open>C23: The scatter push always returns, and for a body of 1 to \<open>capacity - 8\<close> bytes it is
  \<open>shm_ring_push\<close> of the concatenated segments, object and result alike; it refuses the
  sizes above although \<open>shm_ring_push\<close> takes four bytes more.\<close>

lemma shm_ring_push_scatter_equiv:
  assumes "ring_holds rb s ms" "sendv_ok sgs"
  shows "shm_ring_push_scatter (Some rb) (Some sgs) s =
    Some (if sgs = [] then (- EINVAL, s)
          else if gather sgs = [] \<or> unat (rb_capacity rb) < length (gather sgs) + 8 then (- EMSGSIZE, s)
          else shm_ring_push (Some rb) (Some (gather sgs)) s)"
  by (rule push_scatter_result [OF assms])

text \<open>C1: From a freshly initialised ring, every run of pushes and pops, in any interleaving and
  with any buffer sizes, returns, and delivers a prefix of the accepted messages; what is
  accepted and not yet delivered is what the ring holds.\<close>

lemma ring_run_fifo:
  assumes "ring_geom rb k" "list_all (\<lambda>bs. length bs < 2 ^ 63) (sends ops)"
  shows "\<exists>acc del s' rest. chan_run (ring_send rb) (ring_recv rb) ops (init_header cap obj) =
    Some (acc, del, s') \<and> acc = del @ rest \<and> ring_holds rb s' rest"
  using ring.run_fifo [OF init_holds [OF assms(1)] assms(2), of cap obj] by simp

text \<open>The same for scatter pushes, the path \<open>adapt_send\<close> takes; and once the receiver drains
  the ring with a large enough buffer, it has got exactly the accepted messages, in order.\<close>

lemma ringv_run_drained:
  assumes "ring_geom rb k" "list_all sendv_ok (sends ops)"
    and "\<forall>sgs\<in>set (sends ops). length (gather sgs) \<le> unat n"
  shows "\<exists>acc del s' j. chan_run (ring_sendv rb) (ring_recv rb) (ops @ replicate j (Recv n))
      (init_header cap obj) = Some (acc, del, s') \<and> del = map gather acc \<and> ring_holds rb s' []"
  using ringv.run_then_drain [OF init_holds [OF assms(1)] assms(2), of n cap obj] assms(3) by auto

end
