(* ===== verification/RingEdges.thy ===== *)
theory RingEdges
  imports RingFifo
begin

text \<open>
  The edges of the ring: how much is in use, which messages are always accepted, which an
  empty ring refuses forever, and which bytes a push writes, also past the data area. Then
  a concrete ring of one page on which the properties of \<open>RingFifo\<close> are instantiated.
\<close>

subsection \<open>Use and room\<close>

lemma used_at:
  assumes "ring_holds_at k T H rb s ms"
  shows "unat (shm_ring_used_bytes (Some rb) s) = H - T"
    and "unat (shm_ring_free_bytes (Some rb) s) = 2 ^ k - (H - T)"
proof -
  note u = used_unat [OF assms]
  have g: "ring_geom rb k" and le: "H - T \<le> 2 ^ k" using assms by (auto simp: ring_holds_at_def)
  show "unat (shm_ring_used_bytes (Some rb) s) = H - T" by (simp add: shm_ring_used_bytes_def u)
  have "ring_used s \<le> rb_capacity rb" using u le geom_unat [OF g] by (simp add: word_le_nat_alt)
  then show "unat (shm_ring_free_bytes (Some rb) s) = 2 ^ k - (H - T)"
    by (simp add: shm_ring_free_bytes_def shm_ring_used_bytes_def unat_sub u geom_unat [OF g])
qed

text \<open>The bytes in use are at least the frames of the queued messages and at most the
  capacity, and the free bytes are the rest.\<close>

lemma shm_ring_used_bounds:
  assumes "ring_holds rb s ms"
  shows "sum_list (map (\<lambda>m. 4 + length m) ms) \<le> unat (shm_ring_used_bytes (Some rb) s) \<and>
    unat (shm_ring_used_bytes (Some rb) s) + unat (shm_ring_free_bytes (Some rb) s) = unat (rb_capacity rb)"
proof -
  obtain k T H where R: "ring_holds_at k T H rb s ms" using assms by (auto simp: ring_holds_def)
  then have g: "ring_geom rb k" and le: "H - T \<le> 2 ^ k" and r: "recs (obj_data s) (2 ^ k) T ms H"
    by (auto simp: ring_holds_at_def)
  have "T + sum_list (map (\<lambda>m. 4 + length m) ms) \<le> H" using recs_le [OF _ r] by simp
  then have "sum_list (map (\<lambda>m. 4 + length m) ms) \<le> H - T" by linarith
  then show ?thesis using used_at [OF R] geom_unat [OF g] le by simp
qed

lemma shm_ring_push_room:
  assumes "ring_holds rb s ms" "bs \<noteq> []"
    and "2 * (length bs + 4) \<le> unat (shm_ring_free_bytes (Some rb) s) + 1"
  shows "fst (shm_ring_push (Some rb) (Some bs) s) = 0"
proof -
  obtain k T H where R: "ring_holds_at k T H rb s ms" using assms by (auto simp: ring_holds_def)
  then have g: "ring_geom rb k" by (simp add: ring_holds_at_def)
  have room: "2 * (length bs + 4) \<le> 2 ^ k - (H - T) + 1" using assms(3) used_at(2) [OF R] by simp
  then have "2 * (length bs + 4) \<le> 2 ^ k + 1" by linarith
  then have fits: "length bs + 4 \<le> 2 ^ k" using geom_bounds(1) [OF g] by simp
  have len: "length bs < 2 ^ 63" using fits geom_bounds(2) [OF g] by simp
  obtain rc s' where p: "shm_ring_push (Some rb) (Some bs) s = (rc, s')" by fastforce
  have "push_room rb s (length bs)"
    using room unfolding push_room_of_nat [OF R] by (simp split: if_split; linarith)
  then show ?thesis
    using push_result(1) [OF assms(1) len p] fits assms(2) geom_unat [OF g] p by simp
qed

text \<open>A message is accepted whenever twice its frame, less a byte, is free, wherever the
  cursors stand; in particular a drained ring takes every message of up to half its capacity.\<close>

lemma shm_ring_push_accepts:
  assumes "ring_holds rb s ms" "bs \<noteq> []"
    and "2 * (length bs + 4) \<le> unat (shm_ring_free_bytes (Some rb) s) + 1"
  shows "fst (shm_ring_push (Some rb) (Some bs) s) = 0"
  by (rule shm_ring_push_room [OF assms])

lemma push_empty_eagain:
  assumes R: "ring_holds rb s []" and len: "length bs + 4 \<le> unat (rb_capacity rb)"
    and pos: "unat (ring_pos rb (h_head (obj_hdr s))) < length bs + 4"
    and lap: "unat (rb_capacity rb) < unat (ring_pos rb (h_head (obj_hdr s))) + length bs + 4"
  shows "shm_ring_push (Some rb) (Some bs) s = (- EAGAIN, s)"
proof -
  obtain k T H where Rk: "ring_holds_at k T H rb s []" using R by (auto simp: ring_holds_def)
  then have g: "ring_geom rb k" by (simp add: ring_holds_at_def)
  have len': "length bs < 2 ^ 63" using len geom_unat [OF g] geom_bounds(2) [OF g] by simp
  have ne: "bs \<noteq> []" using geom_ring_pos(1) [OF g, of "h_head (obj_hdr s)"] lap geom_unat [OF g] pos len
    geom_bounds(1) [OF g] by auto
  obtain rc s' where p: "shm_ring_push (Some rb) (Some bs) s = (rc, s')" by fastforce
  have "\<not> push_room rb s (length bs)" using pos lap by (auto simp: push_room_def Let_def)
  then have "rc = - EAGAIN" using push_result(1) [OF R len' p] len ne by simp
  then show ?thesis using push_result(2) [OF R len' p] p by (simp add: EAGAIN_def)
qed

text \<open>A message that fits the capacity, but neither before nor after the write position, is
  refused with \<open>-EAGAIN\<close> by an empty ring, however often the send is retried and whatever the
  receiver does.\<close>

lemma empty_ring_rejects_forever:
  assumes "ring_holds rb s []" "length bs + 4 \<le> unat (rb_capacity rb)"
    and "unat (ring_pos rb (h_head (obj_hdr s))) < length bs + 4"
    and "unat (rb_capacity rb) < unat (ring_pos rb (h_head (obj_hdr s))) + length bs + 4"
    and "list_all ((=) bs) (sends ops)"
  shows "chan_run (ring_send rb) (ring_recv rb) ops s = Some ([], [], s)"
proof -
  have push: "ring_send rb bs s = Some (- EAGAIN, s)"
    using push_empty_eagain [OF assms(1-4)] by (simp add: ring_send_def)
  obtain k T H where "ring_holds_at k T H rb s []" using assms(1) by (auto simp: ring_holds_def)
  then have pop: "ring_recv rb n s = Some ((- EAGAIN, []), s)" for n
    by (simp add: ring_recv_def pop_empty pop_fails_def)
  show ?thesis using assms(5)
    by (induction ops rule: sends.induct) (auto simp: push pop EAGAIN_def)
qed

subsection \<open>Which bytes a push writes\<close>

text \<open>C22: Past the data area a successful push leaves every byte as it was, except that a wrap
  sentinel at one of the last three slots zeroes the bytes up to \<open>pos + 4\<close>: at most three, and
  at the end of the mapping.\<close>

lemma shm_ring_push_overrun:
  assumes "ring_holds rb s ms" "length bs < 2 ^ 63" "shm_ring_push (Some rb) (Some bs) s = (0, s')"
    and "p = unat (ring_pos rb (h_head (obj_hdr s)))" "unat (rb_capacity rb) \<le> i"
  shows "obj_data s' i = (if i < p + 4 then 0 else obj_data s i)"
proof -
  obtain k T H where R: "ring_holds_at k T H rb s ms" using assms by (auto simp: ring_holds_def)
  then have g: "ring_geom rb k" and h: "h_head (obj_hdr s) = of_nat H" by (auto simp: ring_holds_at_def)
  have p: "p = H mod 2 ^ k"
    unfolding assms(4) h ring_pos_of_nat [OF g] using geom_mod_small [OF g] by (rule unat_of_nat_u64)
  have c: "4096 \<le> (2::nat) ^ k" "2 ^ k \<le> i" using geom_bounds(1) [OF g] assms(5) geom_unat [OF g] by auto
  have P: "push_at (2 ^ k) T H bs s = (0, s')" using shm_ring_push_of_nat [OF R assms(2)] assms(3) by simp
  have ne: "bs \<noteq> []" and fits: "length bs + 4 \<le> 2 ^ k"
    using P c(1) by (auto simp: push_at_def Let_def errno_defs split: if_splits)
  have pc: "p < 2 ^ k" unfolding p by simp
  show ?thesis
  proof (cases "2 ^ k - H mod 2 ^ k < length bs + 4")
    case True
    then have s': "obj_data s' = mem_write (mem_write (obj_data s) p (le32 0)) 0 (le32 (of_nat (length bs)) @ bs)"
      using P p by (auto simp: push_at_def Let_def errno_defs split: if_splits)
    have "obj_data s' i = mem_write (obj_data s) p (le32 0) i"
      unfolding s' using fits c(2) by (intro mem_write_outside) simp
    then show ?thesis using pc c(2) by (auto simp: mem_write_def le32_zero nth_Cons split: nat.split)
  next
    case False
    then have s': "obj_data s' = mem_write (obj_data s) p (le32 (of_nat (length bs)) @ bs)"
      using P p by (auto simp: push_at_def Let_def errno_defs split: if_splits)
    have end_le: "p + 4 + length bs \<le> 2 ^ k" using False p pc by linarith
    have "obj_data s' i = obj_data s i"
      unfolding s' using end_le c(2) by (intro mem_write_outside) simp
    then show ?thesis using end_le c(2) by simp
  qed
qed

subsection \<open>A ring of one page\<close>

definition page_ring :: shm_ring where
  "page_ring = \<lparr>rb_capacity = 4096, rb_name = ''/r'', rb_fd = 3\<rparr>"

text \<open>An empty ring with both cursors at \<open>c\<close> and the byte \<open>b\<close> everywhere.\<close>

definition page_at :: "nat \<Rightarrow> u8 \<Rightarrow> shm_obj" where
  "page_at c b = \<lparr>obj_hdr = \<lparr>h_head = of_nat c, h_tail = of_nat c, h_parks = 0, h_capacity = 4096,
     h_magic = SHM_RING_MAGIC, h_initialized = 1, h_flow_flag = 0\<rparr>, obj_data = \<lambda>_. b, obj_size = 4272, obj_taken = []\<rparr>"

lemma page_taken [simp]: "obj_taken (page_at c b) = []"
  by (simp add: page_at_def)

lemma page_geom: "ring_geom page_ring 12"
  by (simp add: ring_geom_def page_ring_def)

lemma page_holds: "ring_holds page_ring (page_at c b) []"
  unfolding ring_holds_def ring_holds_at_def
  by (intro exI [of _ 12] exI [of _ c]) (simp add: page_geom page_at_def)

lemma page_cap: "rb_capacity page_ring = 4096" "unat (rb_capacity page_ring) = 4096"
  by (simp_all add: page_ring_def)

lemma page_pos: "c < 4096 \<Longrightarrow> unat (ring_pos page_ring (h_head (obj_hdr (page_at c b)))) = c"
proof -
  assume "c < 4096"
  moreover have "unat (ring_pos page_ring (of_nat c)) = c mod 2 ^ 12"
    unfolding ring_pos_of_nat [OF page_geom] using geom_mod_small [OF page_geom] by (rule unat_of_nat_u64)
  ultimately show ?thesis by (simp add: page_at_def)
qed

lemma page_used: "ring_used (page_at c b) = 0"
  by (simp add: ring_used_def page_at_def)

lemma page_room: "c < 4096 \<Longrightarrow> push_room page_ring (page_at c b) n \<longleftrightarrow>
    (if 4096 - c < n + 4 then 4096 - c + (n + 4) else n + 4) \<le> 4096"
  by (simp add: push_room_def Let_def page_pos page_cap page_used)

text \<open>A state that holds one message, reached by a push.\<close>

lemma page_push: "\<exists>s. shm_ring_push (Some page_ring) (Some [1, 2, 3]) (page_at 0 0) = (0, s) \<and>
    ring_holds page_ring s [[1, 2, 3]]"
proof -
  obtain rc s where p: "shm_ring_push (Some page_ring) (Some [1, 2, 3]) (page_at 0 0) = (rc, s)" by fastforce
  show ?thesis using push_result [OF page_holds _ p] p by (simp add: page_cap page_room)
qed


subsection \<open>The properties on the page\<close>

lemma shm_ring_push_refines_witness:
  "\<exists>s. shm_ring_push (Some page_ring) (Some [1, 2, 3]) (page_at 4090 7) = (0, s) \<and>
    ring_holds page_ring s [[1, 2, 3]]"
  using shm_ring_push_refines [OF page_holds, of "[1, 2, 3]" 4090 7] by (simp add: page_cap page_room)

lemma shm_ring_pop_refines_witness:
  "\<exists>s r s'. ring_holds page_ring s [[1, 2, 3]] \<and> shm_ring_pop page_ring 64 s = Some (r, s') \<and>
    pr_rc r = 3 \<and> pr_buf r = [1, 2, 3] \<and> ring_holds page_ring s' []"
proof -
  obtain s where s: "ring_holds page_ring s [[1, 2, 3]]" using page_push by blast
  show ?thesis using shm_ring_pop_refines [OF s, of 64] s by auto
qed

lemma shm_ring_push_scatter_equiv_witness:
  "shm_ring_push_scatter (Some page_ring)
     (Some [\<lparr>seg_base = Some [1, 2], seg_len = 2\<rparr>, \<lparr>seg_base = None, seg_len = 0\<rparr>,
            \<lparr>seg_base = Some [3], seg_len = 1\<rparr>]) (page_at 4090 7)
   = Some (shm_ring_push (Some page_ring) (Some [1, 2, 3]) (page_at 4090 7))"
  by (subst shm_ring_push_scatter_equiv [OF page_holds])
     (simp_all add: sendv_ok_def seg_ok_def seg_bytes_def gather_def page_cap)

lemma ring_run_fifo_witness:
  "\<exists>acc del s' rest. chan_run (ring_send page_ring) (ring_recv page_ring)
     [Send [1, 2, 3], Send [], Recv 2, Send [4], Recv 64] (init_header 4096 (page_at 0 0)) =
       Some (acc, del, s') \<and> acc = del @ rest \<and> ring_holds page_ring s' rest"
  by (rule ring_run_fifo [OF page_geom]) simp

lemma ringv_run_drained_witness:
  "\<exists>acc del s' j. chan_run (ring_sendv page_ring) (ring_recv page_ring)
     ([Send [\<lparr>seg_base = Some [1, 2], seg_len = 2\<rparr>], Recv 1] @ replicate j (Recv 64))
     (init_header 4096 (page_at 0 0)) = Some (acc, del, s') \<and> del = map gather acc \<and>
     ring_holds page_ring s' []"
  by (rule ringv_run_drained [OF page_geom])
     (simp_all add: sendv_ok_def seg_ok_def seg_bytes_def gather_def)

lemma shm_ring_used_bounds_witness:
  "\<exists>s. ring_holds page_ring s [[1, 2, 3]] \<and> 7 \<le> unat (shm_ring_used_bytes (Some page_ring) s) \<and>
    unat (shm_ring_used_bytes (Some page_ring) s) + unat (shm_ring_free_bytes (Some page_ring) s) = 4096"
proof -
  obtain s where s: "ring_holds page_ring s [[1, 2, 3]]" using page_push by blast
  show ?thesis using shm_ring_used_bounds [OF s] s by (auto simp: page_cap)
qed

lemma shm_ring_push_accepts_witness:
  "fst (shm_ring_push (Some page_ring) (Some (replicate 2000 9)) (page_at 3000 7)) = 0"
  by (rule shm_ring_push_accepts [OF page_holds])
     (simp_all add: shm_ring_free_bytes_def shm_ring_used_bytes_def page_used page_cap)

lemma empty_ring_rejects_forever_witness:
  "chan_run (ring_send page_ring) (ring_recv page_ring)
     [Send (replicate 3000 9), Recv 4096, Send (replicate 3000 9)] (page_at 2000 7)
   = Some ([], [], page_at 2000 7)"
  by (rule empty_ring_rejects_forever [OF page_holds, of "replicate 3000 9"])
     (simp_all add: page_cap page_pos)

lemma shm_ring_push_overrun_witness:
  "\<exists>s'. shm_ring_push (Some page_ring) (Some [1, 2, 3]) (page_at 4095 7) = (0, s') \<and>
     obj_data s' 4096 = 0 \<and> obj_data s' 4098 = 0 \<and> obj_data s' 4099 = 7"
proof -
  obtain rc s' where p: "shm_ring_push (Some page_ring) (Some [1, 2, 3]) (page_at 4095 7) = (rc, s')"
    by fastforce
  then have p0: "shm_ring_push (Some page_ring) (Some [1, 2, 3]) (page_at 4095 7) = (0, s')"
    using push_result(1) [OF page_holds _ p] by (simp add: page_cap page_room)
  have "obj_data s' i = (if i < 4099 then 0 else 7)" if "4096 \<le> i" for i
    using shm_ring_push_overrun [OF page_holds _ p0 refl, of i] that
    by (simp add: page_pos page_cap) (simp add: page_at_def)
  then show ?thesis using p0 by simp
qed

end
