(* ===== verification/RingFlow.thy ===== *)
theory RingFlow
  imports RingEdges
begin

text \<open>
  Flow control as the producer runs it: \<open>shm_ring_wait_writable\<close> and the blocking scatter
  push. Both run against a script of what happens between their atomic accesses: the pops
  the consumer completes, and what the futex call answers. A call that is still waiting at
  the end of its script is \<open>None\<close>.
\<close>

subsection \<open>The consumer and the futex between two accesses\<close>

text \<open>Pops with buffers of the given sizes; what they hand out is recorded.\<close>

definition hand_out :: "pop_result \<Rightarrow> shm_obj \<Rightarrow> shm_obj" where
  "hand_out r s = (if pr_rc r < 0 then s else s\<lparr>obj_taken := obj_taken s @ [pr_buf r]\<rparr>)"

fun consume :: "shm_ring \<Rightarrow> csize list \<Rightarrow> shm_obj \<Rightarrow> shm_obj option" where
  "consume rb [] s = Some s"
| "consume rb (n # ns) s =
    (case shm_ring_pop rb n s of None \<Rightarrow> None | Some (r, s') \<Rightarrow> consume rb ns (hand_out r s'))"

text \<open>
  One round of the loop: the pops before the first load of \<open>tail\<close>, between arming the flag
  and the second load, before the kernel compares the flag, and while the producer sleeps;
  and the errno of the sleep (0 for a wake).
\<close>

record wait_round =
  wr_before :: "csize list"
  wr_armed :: "csize list"
  wr_park :: "csize list"
  wr_asleep :: "csize list"
  wr_errno :: int

definition set_flow_flag :: "int \<Rightarrow> shm_obj \<Rightarrow> shm_obj" where
  "set_flow_flag v s = s\<lparr>obj_hdr := (obj_hdr s)\<lparr>h_flow_flag := v\<rparr>\<rparr>"

definition count_park :: "shm_obj \<Rightarrow> shm_obj" where
  "count_park s = s\<lparr>obj_hdr := (obj_hdr s)\<lparr>h_parks := h_parks (obj_hdr s) + 1\<rparr>\<rparr>"

text \<open>\<open>flow_wait(rb->hdr, 1)\<close>: the kernel sleeps only if the flag still has the expected value.\<close>

definition flow_wait :: "shm_ring \<Rightarrow> wait_round \<Rightarrow> shm_obj \<Rightarrow> (int \<times> shm_obj) option" where
  "flow_wait rb r s =
    (case consume rb (wr_park r) s of None \<Rightarrow> None
     | Some s1 \<Rightarrow>
       if h_flow_flag (obj_hdr s1) \<noteq> 1 then Some (- EAGAIN, s1)
       else map_option (Pair (- wr_errno r)) (consume rb (wr_asleep r) s1))"

subsection \<open>Waiting for room\<close>

text \<open>The result also carries the rounds that were not used.\<close>

fun shm_ring_wait_writable ::
  "shm_ring option \<Rightarrow> wait_round list \<Rightarrow> shm_obj \<Rightarrow> (int \<times> shm_obj \<times> wait_round list) option" where
  "shm_ring_wait_writable None rs s = Some (- EINVAL, s, rs)"
| "shm_ring_wait_writable (Some rb) [] s = None"
| "shm_ring_wait_writable (Some rb) (r # rs) s =
    (case consume rb (wr_before r) s of None \<Rightarrow> None
     | Some s1 \<Rightarrow>
       if ring_used s1 < high_watermark rb then Some (0, s1, rs) else
       (case consume rb (wr_armed r) (set_flow_flag 1 s1) of None \<Rightarrow> None
        | Some s2 \<Rightarrow>
          if ring_used s2 < high_watermark rb then Some (0, set_flow_flag 0 s2, rs) else
          (case flow_wait rb r (count_park s2) of None \<Rightarrow> None
           | Some (rc, s3) \<Rightarrow>
             if rc = - EAGAIN then shm_ring_wait_writable (Some rb) rs s3
             else if rc \<noteq> 0 then Some (rc, s3, rs)
             else shm_ring_wait_writable (Some rb) rs s3)))"

subsection \<open>The blocking push\<close>

text \<open>The retry loop; each turn waits and so uses at least one round.\<close>

function push_retry ::
  "shm_ring \<Rightarrow> shm_segment list option \<Rightarrow> wait_round list \<Rightarrow> shm_obj \<Rightarrow> (int \<times> shm_obj) option" where
  "push_retry rb segs rs s =
    (case shm_ring_push_scatter (Some rb) segs s of None \<Rightarrow> None
     | Some (rc, s1) \<Rightarrow>
       if rc \<noteq> - EAGAIN then Some (rc, s1) else
       (case shm_ring_wait_writable (Some rb) rs s1 of None \<Rightarrow> None
        | Some (rc2, s2, rs2) \<Rightarrow>
          if rc2 \<noteq> 0 then Some (rc2, s2)
          else if length rs2 < length rs then push_retry rb segs rs2 s2 else None))"
  by pat_completeness auto
termination by (relation "measure (\<lambda>(rb, segs, rs, s). length rs)") auto

definition shm_ring_push_scatter_blocking ::
  "shm_ring option \<Rightarrow> shm_segment list option \<Rightarrow> wait_round list \<Rightarrow> shm_obj \<Rightarrow> (int \<times> shm_obj) option" where
  "shm_ring_push_scatter_blocking rb segs rs s =
    (case rb of None \<Rightarrow> Some (- EINVAL, s)
     | Some r \<Rightarrow>
       (case shm_ring_wait_writable rb rs s of None \<Rightarrow> None
        | Some (rc, s1, rs1) \<Rightarrow>
          if rc \<noteq> 0 \<and> rc \<noteq> - EINVAL then Some (rc, s1) else push_retry r segs rs1 s1))"

declare push_retry.simps [simp del]

text \<open>The test in \<open>push_retry\<close> that the wait used a round is only there for the termination.\<close>

lemma wait_writable_uses_rounds:
  "shm_ring_wait_writable (Some rb) rs s = Some (rc, s', rs') \<Longrightarrow> length rs' < length rs"
proof (induction "Some rb" rs s arbitrary: s' rs' rule: shm_ring_wait_writable.induct)
  case (3 r rs s)
  then show ?case by (force split: option.splits if_splits)
qed simp

lemma push_retry_simps:
  "push_retry rb segs rs s =
    (case shm_ring_push_scatter (Some rb) segs s of None \<Rightarrow> None
     | Some (rc, s1) \<Rightarrow>
       if rc \<noteq> - EAGAIN then Some (rc, s1) else
       (case shm_ring_wait_writable (Some rb) rs s1 of None \<Rightarrow> None
        | Some (rc2, s2, rs2) \<Rightarrow> if rc2 \<noteq> 0 then Some (rc2, s2) else push_retry rb segs rs2 s2))"
  by (subst push_retry.simps)
     (auto split: option.splits dest: wait_writable_uses_rounds)

subsection \<open>The record of what was handed out\<close>

text \<open>No operation of the ring touches it.\<close>

lemma copy_seg_taken: "copy_seg cap p bs len s = Some y \<Longrightarrow> obj_taken (snd y) = obj_taken s"
proof (rule copy_seg.raw_induct [where P = "\<lambda>cap p bs len s y. obj_taken (snd y) = obj_taken s"])
qed (force simp: Let_def split: if_splits)+

lemma copy_segs_taken: "copy_segs cap p sgs s = Some (p', s') \<Longrightarrow> obj_taken s' = obj_taken s"
  by (induction sgs arbitrary: p s) (auto split: option.splits dest!: copy_seg_taken)

lemma push_scatter_taken: "shm_ring_push_scatter rb segs s = Some (rc, s') \<Longrightarrow> obj_taken s' = obj_taken s"
  by (auto simp: shm_ring_push_scatter_def Let_def split: option.splits if_splits dest!: copy_segs_taken)

lemma pop_taken: "shm_ring_pop rb mx s = Some y \<Longrightarrow> obj_taken (snd y) = obj_taken s"
proof (rule shm_ring_pop.raw_induct [where P = "\<lambda>rb mx s y. obj_taken (snd y) = obj_taken s"])
qed (force simp: Let_def pop_record_def flow_wake_def split: if_splits)+

lemma ring_holds_hdr:
  "obj_data s' = obj_data s \<Longrightarrow> h_head (obj_hdr s') = h_head (obj_hdr s) \<Longrightarrow>
   h_tail (obj_hdr s') = h_tail (obj_hdr s) \<Longrightarrow> ring_holds rb s' ms = ring_holds rb s ms"
  by (simp add: ring_holds_def ring_holds_at_def)

lemma ring_holds_flow [simp]:
  "ring_holds rb (set_flow_flag v s) ms = ring_holds rb s ms"
  "ring_holds rb (count_park s) ms = ring_holds rb s ms"
  by (rule ring_holds_hdr; simp add: set_flow_flag_def count_park_def)+

lemma ring_used_flow [simp]: "ring_used (set_flow_flag v s) = ring_used s"
  by (simp add: ring_used_def set_flow_flag_def)

lemma flow_taken [simp]: "obj_taken (set_flow_flag v s) = obj_taken s" "obj_taken (count_park s) = obj_taken s"
  by (simp_all add: set_flow_flag_def count_park_def)

lemma ring_holds_taken [simp]:
  "ring_holds rb (s\<lparr>obj_taken := g\<rparr>) ms = ring_holds rb s ms" "ring_holds rb (hand_out r s) ms = ring_holds rb s ms"
  by (rule ring_holds_hdr; simp add: hand_out_def)+

subsection \<open>What the script can do to the queue\<close>

text \<open>\<open>drains rb ms s j s'\<close>: the pops between \<open>s\<close>, where the ring holds \<open>ms\<close>, and \<open>s'\<close> have handed out the
  first \<open>j\<close> messages, and the ring holds the others.\<close>

definition drains :: "shm_ring \<Rightarrow> u8 list list \<Rightarrow> shm_obj \<Rightarrow> nat \<Rightarrow> shm_obj \<Rightarrow> bool" where
  "drains rb ms s j s' \<longleftrightarrow> ring_holds rb s' (drop j ms) \<and> obj_taken s' = obj_taken s @ take j ms"

lemma drains_holds: "drains rb ms s j s' \<Longrightarrow> ring_holds rb s' (drop j ms)"
  by (simp add: drains_def)

lemma drains_none: "ring_holds rb s ms \<Longrightarrow> drains rb ms s 0 s"
  by (simp add: drains_def)

lemma drains_trans: "drains rb ms s j s1 \<Longrightarrow> drains rb (drop j ms) s1 i s2 \<Longrightarrow> drains rb ms s (j + i) s2"
  by (simp add: drains_def take_add add.commute [of i])

lemma drains_then:
  assumes "drains rb ms s j s1" "\<exists>i. obj_taken s2 = obj_taken s1 @ take i (drop j ms) \<and> Q (drop i (drop j ms))"
  shows "\<exists>i. obj_taken s2 = obj_taken s @ take i ms \<and> Q (drop i ms)"
proof -
  obtain i where "obj_taken s2 = obj_taken s1 @ take i (drop j ms)" "Q (drop i (drop j ms))" using assms(2) by blast
  then show ?thesis using assms(1) by (intro exI [of _ "j + i"]) (simp add: drains_def take_add add.commute [of i])
qed

lemma drains_flow [simp]:
  "drains rb ms (set_flow_flag v s) j s' = drains rb ms s j s'" "drains rb ms (count_park s) j s' = drains rb ms s j s'"
  "drains rb ms s j (set_flow_flag v s') = drains rb ms s j s'"
  by (simp_all add: drains_def)

lemma pop_drains:
  assumes "ring_holds rb s ms"
  shows "\<exists>r s' j. shm_ring_pop rb n s = Some (r, s') \<and> drains rb ms s j (hand_out r s') \<and>
    (ms \<noteq> [] \<longrightarrow> length (hd ms) \<le> unat n \<longrightarrow> j = 1)"
proof (rule pop_result [OF assms, of n])
  fix r s' assume p: "shm_ring_pop rb n s = Some (r, s')"
    and e: "ms = [] \<Longrightarrow> r = pop_fails (- EAGAIN) \<and> s' = s"
    and small: "\<And>m ms'. ms = m # ms' \<Longrightarrow> unat n < length m \<Longrightarrow> r = pop_fails (- EMSGSIZE) \<and> ring_holds rb s' ms"
    and fits: "\<And>m ms'. ms = m # ms' \<Longrightarrow> length m \<le> unat n \<Longrightarrow> r = pop_ok rb m s s' \<and> ring_holds rb s' ms'"
  have t: "obj_taken s' = obj_taken s" using pop_taken [OF p] by simp
  show ?thesis
  proof (cases ms)
    case Nil
    then have "drains rb ms s 0 (hand_out r s')"
      using e assms by (simp add: drains_def hand_out_def pop_fails_def errno_defs)
    then show ?thesis using p Nil by blast
  next
    case (Cons m ms')
    show ?thesis
    proof (cases "unat n < length m")
      case True
      then have "drains rb ms s 0 (hand_out r s')"
        using small [OF Cons] t by (simp add: drains_def hand_out_def pop_fails_def errno_defs)
      then show ?thesis using p Cons True by fastforce
    next
      case False
      then have "drains rb ms s 1 (hand_out r s')"
        using fits [OF Cons] t Cons by (simp add: drains_def) (simp add: hand_out_def pop_ok_def)
      then show ?thesis using p by blast
    qed
  qed
qed

lemma consume_drains:
  "ring_holds rb s ms \<Longrightarrow> \<exists>s' j. consume rb ns s = Some s' \<and> drains rb ms s j s'"
proof (induction ns arbitrary: s ms)
  case (Cons n ns)
  obtain r s' j where p: "shm_ring_pop rb n s = Some (r, s')" "drains rb ms s j (hand_out r s')"
    using pop_drains [OF Cons.prems] by blast
  then show ?case using Cons.IH [OF drains_holds [OF p(2)]] drains_trans [OF p(2)] by fastforce
qed (auto intro: drains_none)

lemma flow_wait_drains:
  assumes "ring_holds rb s ms"
  shows "\<exists>rc s' j. flow_wait rb r s = Some (rc, s') \<and> drains rb ms s j s' \<and> (rc = - EAGAIN \<or> rc = - wr_errno r)"
proof -
  obtain s1 j where s1: "consume rb (wr_park r) s = Some s1" "drains rb ms s j s1"
    using consume_drains [OF assms] by blast
  obtain s2 i where s2: "consume rb (wr_asleep r) s1 = Some s2" "drains rb ms s (j + i) s2"
    using consume_drains [OF drains_holds [OF s1(2)]] drains_trans [OF s1(2)] by blast
  show ?thesis
  proof (cases "h_flow_flag (obj_hdr s1) = 1")
    case True
    then show ?thesis using s1(1) s2 by (auto simp: flow_wait_def)
  next
    case False
    then show ?thesis using s1 by (auto simp: flow_wait_def)
  qed
qed

text \<open>One round that finds the ring full twice.\<close>

lemma wait_round_drains:
  assumes "ring_holds rb s ms"
  obtains s1 j s2 i rc3 s3 l where "consume rb (wr_before r) s = Some s1" "drains rb ms s j s1"
    "consume rb (wr_armed r) (set_flow_flag 1 s1) = Some s2" "drains rb ms s (j + i) s2"
    "flow_wait rb r (count_park s2) = Some (rc3, s3)" "drains rb ms s (j + i + l) s3"
    "rc3 = - EAGAIN \<or> rc3 = - wr_errno r"
proof -
  obtain s1 j where s1: "consume rb (wr_before r) s = Some s1" "drains rb ms s j s1"
    using consume_drains [OF assms] by blast
  then have "ring_holds rb (set_flow_flag 1 s1) (drop j ms)" by (simp add: drains_holds)
  from consume_drains [OF this, of "wr_armed r"] obtain s2 i where
    s2: "consume rb (wr_armed r) (set_flow_flag 1 s1) = Some s2" "drains rb ms s (j + i) s2"
    using drains_trans [OF s1(2)] by auto
  then have "ring_holds rb (count_park s2) (drop (j + i) ms)" by (simp add: drains_holds)
  from flow_wait_drains [OF this] obtain rc3 s3 l where
    "flow_wait rb r (count_park s2) = Some (rc3, s3)" "drains rb (drop (j + i) ms) s2 l s3" "rc3 = - EAGAIN \<or> rc3 = - wr_errno r"
    unfolding drains_flow by blast
  then show ?thesis using that s1 s2 drains_trans by blast
qed

text \<open>What the wait returns: 0 with the use below the high watermark, or an errno of a sleep.\<close>

lemma wait_writable_result:
  assumes "ring_holds rb s ms" "shm_ring_wait_writable (Some rb) rs s = Some (rc, s', rs')"
  shows "(\<exists>j. drains rb ms s j s') \<and> (\<exists>pre. rs = pre @ rs' \<and>
    (rc = 0 \<and> ring_used s' < high_watermark rb \<or> rc \<noteq> 0 \<and> (\<exists>r\<in>set pre. rc = - wr_errno r)))"
  using assms
proof (induction "Some rb" rs s arbitrary: ms rule: shm_ring_wait_writable.induct)
  case (3 r rs s)
  obtain s1 j s2 i rc3 s3 l where r: "consume rb (wr_before r) s = Some s1" "drains rb ms s j s1"
    "consume rb (wr_armed r) (set_flow_flag 1 s1) = Some s2" "drains rb ms s (j + i) s2"
    "flow_wait rb r (count_park s2) = Some (rc3, s3)" "drains rb ms s (j + i + l) s3"
    "rc3 = - EAGAIN \<or> rc3 = - wr_errno r" by (rule wait_round_drains [OF "3.prems"(1)])
  consider (first) "ring_used s1 < high_watermark rb"
    | (second) "\<not> ring_used s1 < high_watermark rb" "ring_used s2 < high_watermark rb"
    | (slept) "\<not> ring_used s1 < high_watermark rb" "\<not> ring_used s2 < high_watermark rb" by blast
  then show ?case
  proof cases
    case first
    then show ?thesis using "3.prems"(2) r(1,2) by (auto intro!: exI [of _ "[r]"])
  next
    case second
    then show ?thesis using "3.prems"(2) r(1,3,4) by (auto intro!: exI [of _ "[r]"])
  next
    case slept
    show ?thesis
    proof (cases "rc3 = - EAGAIN \<or> rc3 = 0")
      case True
      then have "shm_ring_wait_writable (Some rb) rs s3 = Some (rc, s', rs')"
        using "3.prems"(2) r(1,3,5) slept by (auto split: if_splits)
      moreover note "3.hyps"(1) [OF r(1) slept(1) r(3) slept(2) r(5) refl _ drains_holds [OF r(6)]]
        "3.hyps"(2) [OF r(1) slept(1) r(3) slept(2) r(5) refl _ _ drains_holds [OF r(6)]]
      ultimately have "(\<exists>m. drains rb (drop (j + i + l) ms) s3 m s') \<and> (\<exists>pre. rs = pre @ rs' \<and>
          (rc = 0 \<and> ring_used s' < high_watermark rb \<or> rc \<noteq> 0 \<and> (\<exists>r\<in>set pre. rc = - wr_errno r)))"
        using True by blast
      then show ?thesis using drains_trans [OF r(6)] by (metis Cons_eq_appendI list.set_intros(2))
    next
      case False
      then show ?thesis using "3.prems"(2) r slept by (auto intro!: exI [of _ "[r]"])
    qed
  qed
qed simp


subsection \<open>The blocking push on the queue\<close>

definition sendv_fits :: "shm_ring \<Rightarrow> shm_segment list \<Rightarrow> bool" where
  "sendv_fits rb sgs \<longleftrightarrow> sgs \<noteq> [] \<and> gather sgs \<noteq> [] \<and> length (gather sgs) + 8 \<le> unat (rb_capacity rb)"

lemma push_scatter_queue:
  assumes "ring_holds rb s ms" "sendv_ok sgs"
  obtains rc s' where "shm_ring_push_scatter (Some rb) (Some sgs) s = Some (rc, s')"
    "rc = 0 \<Longrightarrow> ring_holds rb s' (ms @ [gather sgs])" "rc \<noteq> 0 \<Longrightarrow> s' = s"
    "rc = - EAGAIN \<Longrightarrow> sendv_fits rb sgs" "rc \<noteq> 0 \<Longrightarrow> rc \<noteq> - EAGAIN \<Longrightarrow> \<not> sendv_fits rb sgs"
proof -
  obtain rc s' where p: "shm_ring_push (Some rb) (Some (gather sgs)) s = (rc, s')" by fastforce
  have len: "length (gather sgs) < 2 ^ 63" using assms(2) by (simp add: sendv_ok_def)
  show ?thesis
  proof (cases "sendv_fits rb sgs")
    case True
    have "shm_ring_push_scatter (Some rb) (Some sgs) s = Some (rc, s')"
      using push_scatter_result [OF assms] p True by (auto simp: sendv_fits_def)
    moreover have "rc = 0 \<or> rc = - EAGAIN"
      using push_result(1) [OF assms(1) len p] True by (auto simp: sendv_fits_def)
    ultimately show ?thesis using that push_result(2,3) [OF assms(1) len p] True by blast
  next
    case False
    let ?e = "if sgs = [] then - EINVAL else - EMSGSIZE"
    have "shm_ring_push_scatter (Some rb) (Some sgs) s = Some (?e, s)"
      using push_scatter_result [OF assms] False by (auto simp: sendv_fits_def)
    moreover have "?e \<noteq> 0" "?e \<noteq> - EAGAIN" by (simp_all add: errno_defs)
    ultimately show ?thesis using that [of ?e s] False by blast
  qed
qed

lemma push_retry_result:
  assumes "ring_holds rb s ms" "sendv_ok sgs" "push_retry rb (Some sgs) rs s = Some (rc, s')"
  shows "\<exists>j. obj_taken s' = obj_taken s @ take j ms \<and> (if rc = 0 then ring_holds rb s' (drop j ms @ [gather sgs])
    else ring_holds rb s' (drop j ms) \<and> (\<not> sendv_fits rb sgs \<or> (\<exists>r\<in>set rs. rc = - wr_errno r)))"
  using assms(1,3)
proof (induction "length rs" arbitrary: rs s ms rule: less_induct)
  case less
  obtain rc1 s1 where p: "shm_ring_push_scatter (Some rb) (Some sgs) s = Some (rc1, s1)"
    "rc1 = 0 \<Longrightarrow> ring_holds rb s1 (ms @ [gather sgs])" "rc1 \<noteq> 0 \<Longrightarrow> s1 = s"
    "rc1 \<noteq> 0 \<Longrightarrow> rc1 \<noteq> - EAGAIN \<Longrightarrow> \<not> sendv_fits rb sgs"
    using push_scatter_queue [OF less.prems(1) assms(2)] by metis
  show ?case
  proof (cases "rc1 = - EAGAIN")
    case False
    then have "rc = rc1" "s' = s1" using less.prems(2) p(1) by (simp_all add: push_retry_simps)
    then show ?thesis using p(2-4) False less.prems(1) push_scatter_taken [OF p(1)]
      by (intro exI [of _ 0]) (cases "rc1 = 0"; simp)
  next
    case True
    then have "s1 = s" using p(3) by (simp add: EAGAIN_def)
    then obtain rc2 s2 rs2 where w: "shm_ring_wait_writable (Some rb) rs s = Some (rc2, s2, rs2)"
      and e: "if rc2 \<noteq> 0 then rc = rc2 \<and> s' = s2 else push_retry rb (Some sgs) rs2 s2 = Some (rc, s')"
      using less.prems(2) p(1) True
      by (auto simp: push_retry_simps [of rb _ rs s] split: option.splits if_split_asm)
    from wait_writable_result [OF less.prems(1) w] obtain pre j where d: "drains rb ms s j s2"
      "rs = pre @ rs2" "rc2 = 0 \<or> rc2 \<noteq> 0 \<and> (\<exists>r\<in>set pre. rc2 = - wr_errno r)" by blast
    show ?thesis
    proof (cases "rc2 = 0")
      case True
      have "length rs2 < length rs" using wait_writable_uses_rounds [OF w] .
      then have "push_retry rb (Some sgs) rs2 s2 = Some (rc, s')" "length rs2 < length rs" using e True by simp_all
      note drains_then [OF d(1) less.hyps [OF this(2) drains_holds [OF d(1)] this(1)]]
      then show ?thesis unfolding d(2) by (elim exE) (intro exI, auto split: if_splits)
    next
      case False
      then show ?thesis using e d by (intro exI [of _ j]) (auto simp: drains_def)
    qed
  qed
qed

subsection \<open>Progress\<close>

text \<open>Pops that empty a ring which holds \<open>ms\<close>.\<close>

definition empties :: "u8 list list \<Rightarrow> csize list \<Rightarrow> bool" where
  "empties ms ns \<longleftrightarrow> length ms \<le> length ns \<and> list_all (\<lambda>n. list_all (\<lambda>m. length m \<le> unat n) ms) ns"

lemma empties_drop: "empties ms ns \<Longrightarrow> empties (drop j ms) ns"
  by (auto simp: empties_def list_all_iff dest: in_set_dropD)

lemma consume_empties:
  "ring_holds rb s ms \<Longrightarrow> empties ms ns \<Longrightarrow> \<exists>s'. consume rb ns s = Some s' \<and> ring_holds rb s' []"
proof (induction ns arbitrary: s ms)
  case (Cons n ns)
  obtain r s' j where p: "shm_ring_pop rb n s = Some (r, s')" "drains rb ms s j (hand_out r s')"
    and t: "ms \<noteq> [] \<longrightarrow> length (hd ms) \<le> unat n \<longrightarrow> j = 1"
    using pop_drains [OF Cons.prems(1)] by blast
  have "drop j ms = tl ms" "empties (tl ms) ns"
    using t Cons.prems(2) by (cases ms; auto simp: empties_def list_all_iff)+
  then show ?case using Cons.IH [OF drains_holds [OF p(2)]] p(1) by simp
qed (auto simp: empties_def)

lemma ring_used_empty: "ring_holds rb s [] \<Longrightarrow> ring_used s = 0"
  by (auto simp: ring_holds_def ring_holds_at_def ring_used_def)

lemma watermark_unat:
  assumes "ring_geom rb k"
  shows "unat (low_watermark rb) = 2 ^ k * 20 div 100" "unat (high_watermark rb) = 2 ^ k * 80 div 100"
proof -
  note c = geom_bounds [OF assms]
  have m: "unat (rb_capacity rb * of_nat p) = 2 ^ k * p" if "p \<le> 100" for p
  proof -
    have "(2::nat) ^ k * p \<le> 2 ^ 31 * 100" using c(2) that by (rule mult_le_mono)
    then have "(2::nat) ^ k * p < 2 ^ 64" by simp
    then have "unat (of_nat (2 ^ k * p) :: u64) = 2 ^ k * p" by (rule unat_of_nat_u64)
    then show ?thesis by (simp add: geom_cap [OF assms])
  qed
  show "unat (low_watermark rb) = 2 ^ k * 20 div 100"
    using m [of 20] by (simp add: low_watermark_def SHM_LW_PCT_def unat_div_distrib)
  show "unat (high_watermark rb) = 2 ^ k * 80 div 100"
    using m [of 80] by (simp add: high_watermark_def SHM_HW_PCT_def unat_div_distrib)
qed

lemma watermark_pos:
  assumes "ring_geom rb k" shows "0 < low_watermark rb" "low_watermark rb < high_watermark rb"
proof -
  have "0 < unat (low_watermark rb)" "unat (low_watermark rb) < unat (high_watermark rb)"
    unfolding watermark_unat [OF assms] using geom_bounds(1) [OF assms] by linarith+
  then show "0 < low_watermark rb" "low_watermark rb < high_watermark rb"
    by (simp_all add: word_less_nat_alt)
qed

lemma empty_writable: "ring_holds rb s [] \<Longrightarrow> ring_used s < high_watermark rb"
  using ring_used_empty watermark_pos ring_holds_geom by (metis order.strict_trans)

lemma wait_writable_progress:
  assumes "ring_holds rb s ms" "rs \<noteq> []" "empties ms (wr_before (last rs))" "\<forall>r\<in>set rs. wr_errno r = 0"
  shows "\<exists>s' rs' j. shm_ring_wait_writable (Some rb) rs s = Some (0, s', rs') \<and>
    drains rb ms s j s' \<and> length rs' < length rs \<and> (\<exists>pre. rs = pre @ rs') \<and>
    (rs' = [] \<longrightarrow> ring_holds rb s' [])"
  using assms
proof (induction rs arbitrary: s ms)
  case (Cons r rs)
  obtain s1 j s2 i rc3 s3 l where r: "consume rb (wr_before r) s = Some s1" "drains rb ms s j s1"
    "consume rb (wr_armed r) (set_flow_flag 1 s1) = Some s2" "drains rb ms s (j + i) s2"
    "flow_wait rb r (count_park s2) = Some (rc3, s3)" "drains rb ms s (j + i + l) s3"
    "rc3 = - EAGAIN \<or> rc3 = - wr_errno r" by (rule wait_round_drains [OF Cons.prems(1)])
  have last: "ring_holds rb s1 []" if "rs = []"
    using consume_empties [OF Cons.prems(1)] Cons.prems(3) r(1) that by force
  show ?case
  proof (cases "ring_used s1 < high_watermark rb")
    case True
    then show ?thesis using r(1,2) last
      by (intro exI [of _ s1] exI [of _ rs] exI [of _ j]) (auto intro: exI [of _ "[r]"])
  next
    case nf: False
    then have rs: "rs \<noteq> []" using last empty_writable by blast
    show ?thesis
    proof (cases "ring_used s2 < high_watermark rb")
      case True
      then show ?thesis using r nf rs
        by (intro exI [of _ "set_flow_flag 0 s2"] exI [of _ rs] exI [of _ "j + i"])
           (auto intro: exI [of _ "[r]"])
    next
      case nf2: False
      have "empties (drop (j + i + l) ms) (wr_before (last rs))"
        using Cons.prems(3) rs by (auto intro!: empties_drop)
      from Cons.IH [OF drains_holds [OF r(6)] rs this] Cons.prems(4) obtain s' rs' m where
        w: "shm_ring_wait_writable (Some rb) rs s3 = Some (0, s', rs')"
        "drains rb (drop (j + i + l) ms) s3 m s'" "length rs' < length rs"
        "\<exists>pre. rs = pre @ rs'" "rs' = [] \<longrightarrow> ring_holds rb s' []" by auto
      have "shm_ring_wait_writable (Some rb) (r # rs) s = Some (0, s', rs')"
        using r w(1) nf nf2 Cons.prems(4) by auto
      moreover have "\<exists>pre. r # rs = pre @ rs'" using w(4) by (metis append_Cons)
      ultimately show ?thesis using drains_trans [OF r(6) w(2)] w(3,5)
        by (intro exI [of _ s'] exI [of _ rs'] exI [of _ "j + i + l + m"]) simp
    qed
  qed
qed simp


lemma empty_push_scatter:
  assumes "ring_holds rb s []" "sendv_ok sgs" "gather sgs \<noteq> []"
    and "2 * (length (gather sgs) + 4) \<le> unat (rb_capacity rb)"
  shows "\<exists>s'. shm_ring_push_scatter (Some rb) (Some sgs) s = Some (0, s') \<and> ring_holds rb s' [gather sgs]"
proof -
  obtain k where g: "ring_geom rb k" using ring_holds_geom [OF assms(1)] by blast
  have fits: "sendv_fits rb sgs"
    using assms(3,4) geom_bounds(1) [OF g] geom_unat [OF g] by (auto simp: sendv_fits_def)
  have "unat (shm_ring_free_bytes (Some rb) s) = unat (rb_capacity rb)"
    using ring_used_empty [OF assms(1)] by (simp add: shm_ring_free_bytes_def shm_ring_used_bytes_def)
  then have "fst (shm_ring_push (Some rb) (Some (gather sgs)) s) = 0"
    using shm_ring_push_room [OF assms(1,3)] assms(4) by simp
  moreover obtain rc s' where p: "shm_ring_push_scatter (Some rb) (Some sgs) s = Some (rc, s')"
    "rc = 0 \<Longrightarrow> ring_holds rb s' ([] @ [gather sgs])"
    using push_scatter_queue [OF assms(1,2)] by metis
  ultimately show ?thesis using push_scatter_result [OF assms(1,2)] fits
    by (auto simp: sendv_fits_def prod_eq_iff)
qed

lemma push_retry_progress:
  assumes "ring_holds rb s ms" "sendv_ok sgs" "gather sgs \<noteq> []"
    and half: "2 * (length (gather sgs) + 4) \<le> unat (rb_capacity rb)"
    and "rs \<noteq> [] \<Longrightarrow> empties ms (wr_before (last rs))" "rs = [] \<Longrightarrow> ms = []" "\<forall>r\<in>set rs. wr_errno r = 0"
  shows "\<exists>s'. push_retry rb (Some sgs) rs s = Some (0, s')"
  using assms(1,5-)
proof (induction "length rs" arbitrary: rs s ms rule: less_induct)
  case less
  obtain k where g: "ring_geom rb k" using ring_holds_geom [OF less.prems(1)] by blast
  have fits: "sendv_fits rb sgs"
    using half assms(3) geom_bounds(1) [OF g] geom_unat [OF g] by (auto simp: sendv_fits_def)
  obtain rc1 s1 where p: "shm_ring_push_scatter (Some rb) (Some sgs) s = Some (rc1, s1)"
    "rc1 \<noteq> 0 \<Longrightarrow> s1 = s" "rc1 \<noteq> 0 \<Longrightarrow> rc1 \<noteq> - EAGAIN \<Longrightarrow> \<not> sendv_fits rb sgs"
    using push_scatter_queue [OF less.prems(1) assms(2)] by metis
  then have two: "rc1 = 0 \<or> rc1 = - EAGAIN" using fits by blast
  show ?case
  proof (cases "rc1 = 0")
    case True
    then show ?thesis using p by (subst push_retry_simps) (auto simp: EAGAIN_def)
  next
    case False
    have empty: "rc1 = 0" if "ring_holds rb s []"
      using empty_push_scatter [OF that assms(2,3) half] p(1) by auto
    have rs: "rs \<noteq> []" using empty less.prems(1,3) False by blast
    have s1: "s1 = s" "rc1 = - EAGAIN" using p(2) two False by auto
    obtain s2 rs2 j where w: "shm_ring_wait_writable (Some rb) rs s = Some (0, s2, rs2)"
      "drains rb ms s j s2" "length rs2 < length rs" "\<exists>pre. rs = pre @ rs2"
      "rs2 = [] \<longrightarrow> ring_holds rb s2 []"
      using wait_writable_progress [OF less.prems(1) rs less.prems(2) [OF rs] less.prems(4)] by blast
    have step: "push_retry rb (Some sgs) rs s = push_retry rb (Some sgs) rs2 s2"
      using p(1) s1 w(1) by (subst push_retry_simps) simp
    define ms2 where "ms2 = (if rs2 = [] then [] else drop j ms)"
    have "ring_holds rb s2 ms2" using drains_holds [OF w(2)] w(5) by (simp add: ms2_def)
    moreover have "empties ms2 (wr_before (last rs2))" if "rs2 \<noteq> []"
      using less.prems(2) [OF rs] w(4) that empties_drop by (auto simp: ms2_def)
    moreover have "rs2 = [] \<Longrightarrow> ms2 = []" by (simp add: ms2_def)
    moreover have "\<forall>r\<in>set rs2. wr_errno r = 0" using w(4) less.prems(4) by auto
    ultimately show ?thesis using less.hyps [OF w(3)] unfolding step by blast
  qed
qed

lemma push_blocking_result:
  assumes "ring_holds rb s ms" "sendv_ok sgs"
    and "shm_ring_push_scatter_blocking (Some rb) (Some sgs) rs s = Some (rc, s')"
  shows "\<exists>j. obj_taken s' = obj_taken s @ take j ms \<and> (if rc = 0 then ring_holds rb s' (drop j ms @ [gather sgs])
    else ring_holds rb s' (drop j ms) \<and> (\<not> sendv_fits rb sgs \<or> (\<exists>r\<in>set rs. rc = - wr_errno r)))"
proof -
  obtain rc1 s1 rs1 where w: "shm_ring_wait_writable (Some rb) rs s = Some (rc1, s1, rs1)"
    and e: "if rc1 \<noteq> 0 \<and> rc1 \<noteq> - EINVAL then rc = rc1 \<and> s' = s1
      else push_retry rb (Some sgs) rs1 s1 = Some (rc, s')"
    using assms(3) by (auto simp: shm_ring_push_scatter_blocking_def split: option.splits if_split_asm)
  from wait_writable_result [OF assms(1) w] obtain pre j where d: "drains rb ms s j s1"
    "rs = pre @ rs1" "rc1 = 0 \<or> rc1 \<noteq> 0 \<and> (\<exists>r\<in>set pre. rc1 = - wr_errno r)" by blast
  show ?thesis
  proof (cases "rc1 \<noteq> 0 \<and> rc1 \<noteq> - EINVAL")
    case True
    then show ?thesis using e d by (intro exI [of _ j]) (auto simp: drains_def)
  next
    case False
    then have "push_retry rb (Some sgs) rs1 s1 = Some (rc, s')" using e by simp
    note drains_then [OF d(1) push_retry_result [OF drains_holds [OF d(1)] assms(2) this]]
    then show ?thesis unfolding d(2) by (elim exE) (intro exI, auto split: if_splits)
  qed
qed

lemma push_blocking_returns:
  assumes "ring_holds rb s ms" "sendv_ok sgs" "gather sgs \<noteq> []"
    and "2 * (length (gather sgs) + 4) \<le> unat (rb_capacity rb)"
    and "rs \<noteq> []" "empties ms (wr_before (last rs))" "\<forall>r\<in>set rs. wr_errno r = 0"
  shows "\<exists>s' j. shm_ring_push_scatter_blocking (Some rb) (Some sgs) rs s = Some (0, s') \<and>
    ring_holds rb s' (drop j ms @ [gather sgs]) \<and> obj_taken s' = obj_taken s @ take j ms"
proof -
  obtain s1 rs1 j where w: "shm_ring_wait_writable (Some rb) rs s = Some (0, s1, rs1)"
    "drains rb ms s j s1" "\<exists>pre. rs = pre @ rs1" "rs1 = [] \<longrightarrow> ring_holds rb s1 []"
    using wait_writable_progress [OF assms(1,5,6,7)] by blast
  define ms1 where "ms1 = (if rs1 = [] then [] else drop j ms)"
  have "ring_holds rb s1 ms1" using drains_holds [OF w(2)] w(4) by (simp add: ms1_def)
  moreover have "rs1 \<noteq> [] \<Longrightarrow> empties ms1 (wr_before (last rs1))"
    using assms(6) w(3) by (auto simp: ms1_def intro!: empties_drop)
  moreover have "rs1 = [] \<Longrightarrow> ms1 = []" by (simp add: ms1_def)
  moreover have "\<forall>r\<in>set rs1. wr_errno r = 0" using w(3) assms(7) by auto
  ultimately obtain s' where "push_retry rb (Some sgs) rs1 s1 = Some (0, s')"
    using push_retry_progress [OF _ assms(2-4)] by blast
  then have "shm_ring_push_scatter_blocking (Some rb) (Some sgs) rs s = Some (0, s')"
    using w(1) by (simp add: shm_ring_push_scatter_blocking_def)
  then show ?thesis using push_blocking_result [OF assms(1,2)] by fastforce
qed

subsection \<open>Properties\<close>

text \<open>C19: A blocking push that returns 0 has appended its message behind what the consumer left, and
  what is gone from the head of the ring is what the consumer's pops have handed out meanwhile, in order. Any
  other return leaves only these pops, and happens
  only for a message outside the size limits or with the errno of a futex sleep.\<close>

lemma push_blocking_safe:
  assumes "ring_holds rb s ms" "sendv_ok sgs"
    and "shm_ring_push_scatter_blocking (Some rb) (Some sgs) rs s = Some (rc, s')"
  shows "\<exists>j. obj_taken s' = obj_taken s @ take j ms \<and> (if rc = 0 then ring_holds rb s' (drop j ms @ [gather sgs])
    else ring_holds rb s' (drop j ms) \<and> (\<not> sendv_fits rb sgs \<or> (\<exists>r\<in>set rs. rc = - wr_errno r)))"
  by (rule push_blocking_result [OF assms])


lemma consume_nothing: "ring_holds rb s [] \<Longrightarrow> consume rb ns s = Some s"
proof (induction ns)
  case (Cons n ns)
  then obtain k T H where "ring_holds_at k T H rb s []" by (auto simp: ring_holds_def)
  then show ?case using Cons by (simp add: pop_empty hand_out_def pop_fails_def errno_defs)
qed simp

text \<open>C21: The blocking push does not return for a message that fits the capacity but neither side
  of the write position of an empty ring: it spins, whatever the consumer does.\<close>

lemma push_blocking_livelock:
  assumes "ring_holds rb s []" "sendv_ok sgs" "length (gather sgs) + 8 \<le> unat (rb_capacity rb)"
    and "unat (ring_pos rb (h_head (obj_hdr s))) < length (gather sgs) + 4"
    and "unat (rb_capacity rb) < unat (ring_pos rb (h_head (obj_hdr s))) + length (gather sgs) + 4"
  shows "shm_ring_push_scatter_blocking (Some rb) (Some sgs) rs s = None"
proof -
  obtain k where g: "ring_geom rb k" using ring_holds_geom [OF assms(1)] by blast
  have "gather sgs \<noteq> []" "sgs \<noteq> []"
    using geom_ring_pos(1) [OF g, of "h_head (obj_hdr s)"] assms(3-5) geom_unat [OF g] geom_bounds(1) [OF g] by auto
  then have push: "shm_ring_push_scatter (Some rb) (Some sgs) s = Some (- EAGAIN, s)"
    using push_scatter_result [OF assms(1,2)] push_empty_eagain [OF assms(1) _ assms(4,5)] assms(3) by simp
  have wait: "shm_ring_wait_writable (Some rb) (r # rs) s = Some (0, s, rs)" for r rs
    using consume_nothing [OF assms(1)] empty_writable [OF assms(1)] by simp
  have "push_retry rb (Some sgs) rs s = None" for rs
  proof (induction rs)
    case Nil
    show ?case by (subst push_retry_simps) (simp add: push)
  next
    case (Cons r rs)
    then show ?case by (subst push_retry_simps) (simp add: push wait del: shm_ring_wait_writable.simps)
  qed
  then show ?thesis
    by (cases rs) (simp_all add: shm_ring_push_scatter_blocking_def wait del: shm_ring_wait_writable.simps(3))
qed


subsection \<open>The properties on a ring of one page\<close>

definition page_round :: wait_round where
  "page_round = \<lparr>wr_before = [64], wr_armed = [], wr_park = [], wr_asleep = [], wr_errno = 0\<rparr>"

definition page_segs :: "u8 list \<Rightarrow> shm_segment list" where
  "page_segs bs = [\<lparr>seg_base = Some bs, seg_len = of_nat (length bs)\<rparr>]"

lemma page_segs [simp]: "gather (page_segs bs) = bs" "length bs < 2 ^ 63 \<Longrightarrow> sendv_ok (page_segs bs)"
  by (simp_all add: page_segs_def sendv_ok_def seg_ok_def seg_bytes_def gather_def)


lemma push_blocking_safe_witness:
  "\<exists>s s'. shm_ring_push_scatter_blocking (Some page_ring) (Some (page_segs [4, 5])) [page_round] s
      = Some (0, s') \<and> (\<exists>j. ring_holds page_ring s' (drop j [[1, 2, 3]] @ [[4, 5]]) \<and>
        obj_taken s' = obj_taken s @ take j [[1, 2, 3]])"
proof -
  obtain s where s: "ring_holds page_ring s [[1, 2, 3]]" using page_push by blast
  obtain s' where b: "shm_ring_push_scatter_blocking (Some page_ring) (Some (page_segs [4, 5])) [page_round] s
      = Some (0, s')"
    using push_blocking_returns [OF s, of "page_segs [4, 5]" "[page_round]"]
    by (auto simp: page_cap page_round_def empties_def)
  show ?thesis using push_blocking_safe [OF s _ b] b by auto
qed

lemma push_blocking_livelock_witness:
  "shm_ring_push_scatter_blocking (Some page_ring) (Some (page_segs (replicate 3000 9)))
     [page_round, page_round, page_round] (page_at 2000 7) = None"
  by (rule push_blocking_livelock [OF page_holds]) (simp_all add: page_cap page_pos)

end
