(* ===== verification/Runs.thy ===== *)
theory Runs
  imports Prelude
begin

text \<open>
  Three contracts that several components give: operations that keep an invariant, a step
  relation that another one simulates, and one that comes to an end. What follows for whole runs is proved once, here.
\<close>

text \<open>A sequence of operations; \<open>None\<close> as soon as one does not return.\<close>

fun run_ops :: "('i \<Rightarrow> 's \<Rightarrow> 's option) \<Rightarrow> 'i list \<Rightarrow> 's \<Rightarrow> 's option" where
  "run_ops f [] s = Some s"
| "run_ops f (i # is) s = Option.bind (f i s) (run_ops f is)"

locale keeps_invariant =
  fixes op :: "'i \<Rightarrow> 's \<Rightarrow> 's option" and ok :: "'i \<Rightarrow> bool" and inv :: "'s \<Rightarrow> bool"
  assumes keeps: "ok i \<Longrightarrow> inv s \<Longrightarrow> op i s = Some t \<Longrightarrow> inv t"
begin

lemma run: "run_ops op is s = Some t \<Longrightarrow> inv s \<Longrightarrow> list_all ok is \<Longrightarrow> inv t"
proof (induction "is" arbitrary: s)
  case (Cons i "is")
  then obtain u where "op i s = Some u" "run_ops op is u = Some t" by (auto split: Option.bind_splits)
  then show ?case using Cons keeps by auto
qed simp

end

locale simulation =
  fixes cstep :: "'s \<Rightarrow> 's \<Rightarrow> bool" and astep :: "'a \<Rightarrow> 'a \<Rightarrow> bool" and abstr :: "'s \<Rightarrow> 'a"
    and inv :: "'s \<Rightarrow> bool"
  assumes inv_step: "inv s \<Longrightarrow> cstep s t \<Longrightarrow> inv t"
    and sim_step: "inv s \<Longrightarrow> cstep s t \<Longrightarrow> astep (abstr s) (abstr t) \<or> abstr t = abstr s"
begin

lemma inv_run: "cstep\<^sup>*\<^sup>* s t \<Longrightarrow> inv s \<Longrightarrow> inv t"
  by (induction rule: rtranclp_induct) (auto intro: inv_step)

lemma sim_run: "cstep\<^sup>*\<^sup>* s t \<Longrightarrow> inv s \<Longrightarrow> astep\<^sup>*\<^sup>* (abstr s) (abstr t)"
proof (induction rule: rtranclp_induct)
  case (step u t)
  then show ?case using sim_step [OF inv_run [OF step(1,4)] step(2)] by auto
qed simp

end

text \<open>Steps that use up a measure and do not leave the reachable states.\<close>

locale draining =
  fixes step :: "'s \<Rightarrow> 's \<Rightarrow> bool" and left :: "'s \<Rightarrow> nat" and reach :: "'s \<Rightarrow> bool"
  assumes uses: "step s t \<Longrightarrow> left t < left s"
    and reaches: "reach s \<Longrightarrow> step s t \<Longrightarrow> reach t"
begin

lemma steps_left: "(step ^^ n) s t \<Longrightarrow> n + left t \<le> left s"
proof (induction n arbitrary: t)
  case (Suc n)
  then obtain u where "(step ^^ n) s u" "step u t" by auto
  then show ?case using Suc.IH [of u] uses by fastforce
qed simp

lemma steps_reach: "(step ^^ n) s t \<Longrightarrow> reach s \<Longrightarrow> reach t"
proof (induction n arbitrary: t)
  case (Suc n)
  then obtain u where "reach u" "step u t" by auto
  then show ?case by (rule reaches)
qed simp

end

end
