(* ===== verification/WakeProtocol.thy ===== *)
theory WakeProtocol
  imports RingFlow Runs
begin

text \<open>
  The park and wake protocol of \<open>shm_ring_wait_writable\<close> and \<open>shm_ring_pop\<close> as a step
  relation: one step per shared access, the producer's and the consumer's in any order. The
  data area is abstracted to the frames between the cursors. Memory is sequentially
  consistent here; \<open>WakeTso\<close> has the protocol on total store order.
\<close>

subsection \<open>States\<close>

text \<open>A frame: the padding up to the end of the area, or a record with its header.\<close>

datatype frame = Pad nat | Rec nat

fun frame_bytes :: "frame \<Rightarrow> nat" where
  "frame_bytes (Pad n) = n"
| "frame_bytes (Rec n) = n"

definition frames_used :: "frame list \<Rightarrow> nat" where
  "frames_used fs = sum_list (map frame_bytes fs)"

text \<open>A padding is published together with the record behind it.\<close>

fun wf_frames :: "frame list \<Rightarrow> bool" where
  "wf_frames [] = True"
| "wf_frames (Rec n # fs) = (0 < n \<and> wf_frames fs)"
| "wf_frames (Pad p # Rec n # fs) = (0 < n \<and> wf_frames fs)"
| "wf_frames _ = False"

text \<open>
  Where the producer stands: sending, before the first load of \<open>tail\<close>, before the store that
  arms the flag, before the second load, before the store that disarms it, before the count
  of the park, before the futex call, asleep in it.
\<close>

datatype prod_pc = PSend | PCheck | PArm | PRecheck | PDisarm | PCount | PFutex | PAsleep

text \<open>
  The consumer: before its loads, after them with the use it saw, after the store of \<open>tail\<close>
  with the outcome of the low-watermark test, before the futex wake.
\<close>

datatype cons_pc = CLoad | CGot nat | CStored bool | CWake

record flow_sys =
  fs_prod :: prod_pc
  fs_cons :: cons_pc
  fs_frames :: "frame list"
  fs_flag :: int
  fs_parks :: u64

definition flow_init :: flow_sys where
  "flow_init = \<lparr>fs_prod = PSend, fs_cons = CLoad, fs_frames = [], fs_flag = 0, fs_parks = 0\<rparr>"

subsection \<open>Steps\<close>

inductive prod_step :: "shm_ring \<Rightarrow> flow_sys \<Rightarrow> flow_sys \<Rightarrow> bool" for rb where
  push: "fs_prod s = PSend \<Longrightarrow> 5 \<le> n \<Longrightarrow> new = [Rec n] \<or> new = [Pad p, Rec n] \<Longrightarrow>
    frames_used (fs_frames s @ new) \<le> unat (rb_capacity rb) \<Longrightarrow>
    prod_step rb s (s\<lparr>fs_frames := fs_frames s @ new\<rparr>)"
| wait: "fs_prod s = PSend \<Longrightarrow> prod_step rb s (s\<lparr>fs_prod := PCheck\<rparr>)"
| check_room: "fs_prod s = PCheck \<Longrightarrow> frames_used (fs_frames s) < unat (high_watermark rb) \<Longrightarrow>
    prod_step rb s (s\<lparr>fs_prod := PSend\<rparr>)"
| check_full: "fs_prod s = PCheck \<Longrightarrow> \<not> frames_used (fs_frames s) < unat (high_watermark rb) \<Longrightarrow>
    prod_step rb s (s\<lparr>fs_prod := PArm\<rparr>)"
| arm: "fs_prod s = PArm \<Longrightarrow> prod_step rb s (s\<lparr>fs_flag := 1, fs_prod := PRecheck\<rparr>)"
| recheck_room: "fs_prod s = PRecheck \<Longrightarrow> frames_used (fs_frames s) < unat (high_watermark rb) \<Longrightarrow>
    prod_step rb s (s\<lparr>fs_prod := PDisarm\<rparr>)"
| recheck_full: "fs_prod s = PRecheck \<Longrightarrow> \<not> frames_used (fs_frames s) < unat (high_watermark rb) \<Longrightarrow>
    prod_step rb s (s\<lparr>fs_prod := PCount\<rparr>)"
| disarm: "fs_prod s = PDisarm \<Longrightarrow> prod_step rb s (s\<lparr>fs_flag := 0, fs_prod := PSend\<rparr>)"
| count: "fs_prod s = PCount \<Longrightarrow> prod_step rb s (s\<lparr>fs_parks := fs_parks s + 1, fs_prod := PFutex\<rparr>)"
| futex_again: "fs_prod s = PFutex \<Longrightarrow> fs_flag s \<noteq> 1 \<Longrightarrow> prod_step rb s (s\<lparr>fs_prod := PCheck\<rparr>)"
| futex_sleep: "fs_prod s = PFutex \<Longrightarrow> fs_flag s = 1 \<Longrightarrow> prod_step rb s (s\<lparr>fs_prod := PAsleep\<rparr>)"
| spurious: "fs_prod s = PAsleep \<Longrightarrow> prod_step rb s (s\<lparr>fs_prod := PCheck\<rparr>)"
| signalled: "fs_prod s = PAsleep \<Longrightarrow> prod_step rb s (s\<lparr>fs_prod := PSend\<rparr>)"

text \<open>The consumer with buffers that are large enough.\<close>

inductive cons_step :: "shm_ring \<Rightarrow> flow_sys \<Rightarrow> flow_sys \<Rightarrow> bool" for rb where
  loads: "fs_cons s = CLoad \<Longrightarrow> fs_frames s \<noteq> [] \<Longrightarrow>
    cons_step rb s (s\<lparr>fs_cons := CGot (frames_used (fs_frames s))\<rparr>)"
| skip_pad: "fs_cons s = CGot u \<Longrightarrow> fs_frames s = Pad p # fs \<Longrightarrow>
    cons_step rb s (s\<lparr>fs_frames := fs, fs_cons := CLoad\<rparr>)"
| pop: "fs_cons s = CGot u \<Longrightarrow> fs_frames s = Rec n # fs \<Longrightarrow>
    cons_step rb s (s\<lparr>fs_frames := fs, fs_cons := CStored (u - n < unat (low_watermark rb))\<rparr>)"
| keep: "fs_cons s = CStored False \<Longrightarrow> cons_step rb s (s\<lparr>fs_cons := CLoad\<rparr>)"
| exchange_0: "fs_cons s = CStored True \<Longrightarrow> fs_flag s = 0 \<Longrightarrow> cons_step rb s (s\<lparr>fs_cons := CLoad\<rparr>)"
| exchange_1: "fs_cons s = CStored True \<Longrightarrow> fs_flag s \<noteq> 0 \<Longrightarrow>
    cons_step rb s (s\<lparr>fs_flag := 0, fs_cons := CWake\<rparr>)"
| wake: "fs_cons s = CWake \<Longrightarrow>
    cons_step rb s (s\<lparr>fs_cons := CLoad, fs_prod := if fs_prod s = PAsleep then PCheck else fs_prod s\<rparr>)"

text \<open>A pop that returns \<open>-EMSGSIZE\<close>.\<close>

inductive cons_small :: "flow_sys \<Rightarrow> flow_sys \<Rightarrow> bool" where
  "fs_cons s = CGot u \<Longrightarrow> fs_frames s = Rec n # fs \<Longrightarrow> cons_small s (s\<lparr>fs_cons := CLoad\<rparr>)"

definition flow_step :: "shm_ring \<Rightarrow> flow_sys \<Rightarrow> flow_sys \<Rightarrow> bool" where
  "flow_step rb s s' \<longleftrightarrow> prod_step rb s s' \<or> cons_step rb s s' \<or> cons_small s s'"

inductive flow_reach :: "shm_ring \<Rightarrow> flow_sys \<Rightarrow> bool" for rb where
  init: "flow_reach rb flow_init"
| step: "flow_reach rb s \<Longrightarrow> flow_step rb s s' \<Longrightarrow> flow_reach rb s'"

inductive_cases prod_stepE: "prod_step rb s s'"
inductive_cases cons_stepE: "cons_step rb s s'"
inductive_cases cons_smallE: "cons_small s s'"

subsection \<open>The invariant\<close>

text \<open>
  An armed producer is covered while there is something left to pop, or a pop that will see the
  flag is under way. Once the flag was taken, the wake is still to come.
\<close>

definition covered :: "flow_sys \<Rightarrow> bool" where
  "covered s \<longleftrightarrow> fs_frames s \<noteq> [] \<or> fs_cons s = CStored True"

definition flow_inv :: "flow_sys \<Rightarrow> bool" where
  "flow_inv s \<longleftrightarrow> wf_frames (fs_frames s) \<and> fs_flag s \<in> {0, 1} \<and>
    (\<forall>u. fs_cons s = CGot u \<longrightarrow> u \<le> frames_used (fs_frames s) \<and> fs_frames s \<noteq> []) \<and>
    (fs_prod s = PAsleep \<longrightarrow> (fs_flag s = 1 \<and> covered s \<or> fs_flag s = 0 \<and> fs_cons s = CWake)) \<and>
    (fs_prod s \<in> {PCount, PFutex} \<longrightarrow> fs_flag s = 0 \<or> covered s)"

lemma frames_used_simps [simp]:
  "frames_used [] = 0" "frames_used (f # fs) = frame_bytes f + frames_used fs"
  "frames_used (fs @ gs) = frames_used fs + frames_used gs"
  by (simp_all add: frames_used_def)

lemma wf_frames_push:
  "wf_frames fs \<Longrightarrow> 0 < n \<Longrightarrow> wf_frames (fs @ [Rec n]) \<and> wf_frames (fs @ [Pad p, Rec n])"
  by (induction fs rule: wf_frames.induct) auto

lemma flow_init_inv: "flow_inv flow_init"
  by (simp add: flow_init_def flow_inv_def)

lemma prod_step_inv:
  assumes "prod_step rb s s'" "flow_inv s" "0 < low_watermark rb" "low_watermark rb < high_watermark rb"
  shows "flow_inv s'"
  using assms(1)
proof (cases rule: prod_step.cases)
  case (push n new p)
  then have "wf_frames (fs_frames s @ new)"
    using wf_frames_push [of "fs_frames s" n p] assms(2) by (auto simp: flow_inv_def)
  then show ?thesis using push assms(2) by (auto simp: flow_inv_def covered_def)
next
  case recheck_full
  have "0 < unat (high_watermark rb)" using assms(3,4) by (simp add: word_less_nat_alt)
  then have "fs_frames s \<noteq> []" using recheck_full by auto
  then show ?thesis using recheck_full assms(2) by (auto simp: flow_inv_def covered_def)
qed (use assms(2) in \<open>auto simp: flow_inv_def covered_def\<close>)

lemma cons_step_inv:
  assumes "cons_step rb s s'" "flow_inv s" "0 < low_watermark rb"
  shows "flow_inv s'"
  using assms(1)
proof (cases rule: cons_step.cases)
  case (skip_pad u p fs)
  then obtain n fs' where "fs = Rec n # fs'" "0 < n" "wf_frames fs'"
    using assms(2) by (cases "Pad p # fs" rule: wf_frames.cases) (auto simp: flow_inv_def)
  then show ?thesis using skip_pad assms(2) by (auto simp: flow_inv_def covered_def)
next
  case (pop u n fs)
  have "fs = [] \<Longrightarrow> u - n < unat (low_watermark rb)"
    using pop assms(2,3) by (auto simp: flow_inv_def word_less_nat_alt)
  then show ?thesis using pop assms(2) by (auto simp: flow_inv_def covered_def)
qed (use assms(2) in \<open>auto simp: flow_inv_def covered_def\<close>)

lemma cons_small_inv: "cons_small s s' \<Longrightarrow> flow_inv s \<Longrightarrow> flow_inv s'"
  by (erule cons_smallE) (simp add: flow_inv_def covered_def)

lemma flow_reach_inv:
  assumes "flow_reach rb s" "ring_geom rb k" shows "flow_inv s"
  using assms(1)
proof induction
  case init
  show ?case by (rule flow_init_inv)
next
  case (step s s')
  note w = watermark_pos [OF assms(2)]
  from step.hyps(2) consider "prod_step rb s s'" | "cons_step rb s s'" | "cons_small s s'"
    unfolding flow_step_def by blast
  then show ?case
    by cases (use step.IH w in \<open>auto intro: prod_step_inv cons_step_inv cons_small_inv\<close>)
qed

subsection \<open>The consumer alone\<close>

fun cons_phase :: "cons_pc \<Rightarrow> nat" where
  "cons_phase CLoad = 2"
| "cons_phase (CGot _) = 1"
| "cons_phase (CStored _) = 4"
| "cons_phase CWake = 3"

definition cons_left :: "flow_sys \<Rightarrow> nat" where
  "cons_left s = 4 * length (fs_frames s) + cons_phase (fs_cons s)"

lemma cons_step_left: "cons_step rb s s' \<Longrightarrow> cons_left s' < cons_left s"
  by (auto elim!: cons_stepE simp: cons_left_def)

interpretation popping: draining "cons_step rb" cons_left "flow_reach rb" for rb
  by unfold_locales (auto intro: flow_reach.step simp: cons_step_left flow_step_def)

lemma asleep_cons_enabled:
  assumes "flow_inv s" "fs_prod s = PAsleep" shows "\<exists>s'. cons_step rb s s'"
proof (cases "fs_cons s")
  case CLoad
  then have "fs_frames s \<noteq> []" using assms by (auto simp: flow_inv_def covered_def)
  then show ?thesis using CLoad cons_step.loads by blast
next
  case (CGot u)
  then obtain f fs where fs: "fs_frames s = f # fs" using assms by (cases "fs_frames s") (auto simp: flow_inv_def)
  show ?thesis
  proof (cases f)
    case (Pad p) then show ?thesis using CGot fs cons_step.skip_pad by blast
  next
    case (Rec n) then show ?thesis using CGot fs cons_step.pop by blast
  qed
next
  case (CStored b)
  then show ?thesis using cons_step.keep cons_step.exchange_0 cons_step.exchange_1
    by (cases b; cases "fs_flag s = 0") (metis (full_types))+
next
  case CWake
  then show ?thesis using cons_step.wake by blast
qed

subsection \<open>Properties\<close>




subsection \<open>A producer parked on the page\<close>

definition page_asleep :: flow_sys where
  "page_asleep = \<lparr>fs_prod = PAsleep, fs_cons = CLoad, fs_frames = [Rec 4000], fs_flag = 1, fs_parks = 1\<rparr>"

lemma page_high: "unat (high_watermark page_ring) = 3276"
  by (simp add: high_watermark_def page_ring_def SHM_HW_PCT_def)

text \<open>The producer's way to the futex call, for any system that takes its steps outside of it.\<close>

definition page_parking :: flow_sys where
  "page_parking = \<lparr>fs_prod = PFutex, fs_cons = CLoad, fs_frames = [Rec 4000], fs_flag = 1, fs_parks = 1\<rparr>"

lemma page_parking_induct:
  assumes "P flow_init"
    and step: "\<And>s s'. P s \<Longrightarrow> prod_step page_ring s s' \<Longrightarrow> fs_prod s \<notin> {PFutex, PAsleep} \<Longrightarrow> P s'"
  shows "P page_parking"
proof -
  let ?st = "\<lambda>p f k. \<lparr>fs_prod = p, fs_cons = CLoad, fs_frames = [Rec 4000], fs_flag = f, fs_parks = k\<rparr>"
  have "P (?st PSend 0 0)" using step [OF assms(1)] prod_step.push [of flow_init 4000 "[Rec 4000]" 0 page_ring]
    by (simp add: flow_init_def page_cap)
  then have "P (?st PCheck 0 0)" using step prod_step.wait [of "?st PSend 0 0" page_ring] by simp
  then have "P (?st PArm 0 0)" using step prod_step.check_full [of "?st PCheck 0 0" page_ring] by (simp add: page_high)
  then have "P (?st PRecheck 1 0)" using step prod_step.arm [of "?st PArm 0 0" page_ring] by simp
  then have "P (?st PCount 1 0)" using step prod_step.recheck_full [of "?st PRecheck 1 0" page_ring] by (simp add: page_high)
  then have "P (?st PFutex 1 1)" using step prod_step.count [of "?st PCount 1 0" page_ring] by simp
  then show ?thesis by (simp add: page_parking_def)
qed

lemma page_asleep_reach: "flow_reach page_ring page_asleep"
proof -
  have "flow_reach page_ring page_parking"
    by (rule page_parking_induct) (auto intro: flow_reach.intros simp: flow_step_def)
  moreover have "prod_step page_ring page_parking page_asleep"
    using prod_step.futex_sleep [of page_parking page_ring] by (simp add: page_parking_def page_asleep_def)
  ultimately show ?thesis by (auto intro: flow_reach.step simp: flow_step_def)
qed



end
