(* ===== verification/FlowRefine.thy ===== *)
theory FlowRefine
  imports WakeProtocol RingEdges
begin

text \<open>
  The operations of \<open>RingBuffer\<close> and \<open>RingFlow\<close> on the bytes of the ring are runs of the protocol of
  \<open>WakeProtocol\<close>: what a state of the ring is in the protocol, and which steps each operation takes.
\<close>

subsection \<open>The frames between the cursors\<close>

fun chunks :: "mem \<Rightarrow> nat \<Rightarrow> nat \<Rightarrow> u8 list list \<Rightarrow> frame list" where
  "chunks m c t [] = []"
| "chunks m c t (x # xs) = (let p = rec_start m c t in
     (if p = t then [] else [Pad (p - t)]) @ Rec (4 + length x) # chunks m c (p + 4 + length x) xs)"

lemma chunks_used: "0 < c \<Longrightarrow> recs m c t xs h \<Longrightarrow> frames_used (chunks m c t xs) = h - t"
proof (induction xs arbitrary: t)
  case (Cons x xs)
  let ?p = "rec_start m c t"
  have "recs m c (?p + 4 + length x) xs h" using Cons.prems(2) by (simp add: Let_def)
  then show ?case using Cons.IH [OF Cons.prems(1)] recs_mono [OF Cons.prems(1)] rec_start_ge [OF Cons.prems(1), of t m]
    by (fastforce simp: Let_def)
qed simp

lemma chunks_append: "recs m c t xs u \<Longrightarrow> chunks m c t (xs @ ys) = chunks m c t xs @ chunks m c u ys"
  by (induction xs arbitrary: t) (auto simp: Let_def)

lemma recs_unique: "recs m c t xs h \<Longrightarrow> recs m c t xs h' \<Longrightarrow> h' = h"
  by (induction xs arbitrary: t) (auto simp: Let_def)

lemma chunks_agrees:
  assumes "agrees c t h m m'" "recs m c t xs h" "0 < c" "c \<le> 2 ^ 32"
  shows "chunks m' c t xs = chunks m c t xs"
  using assms(1,2)
proof (induction xs arbitrary: t)
  case (Cons x xs)
  let ?p = "rec_start m c t"
  have rest: "recs m c (?p + 4 + length x) xs h" using Cons.prems(2) by (simp add: Let_def)
  have "t \<le> ?p" using assms(3) by (rule rec_start_ge)
  then have "agrees c (?p + 4 + length x) h m m'" using Cons.prems(1) by (auto intro: agrees_sub)
  then show ?case using Cons.IH rest rec_start_agrees [OF Cons.prems assms(3,4)] by (simp add: Let_def)
qed simp

lemma push_at_agrees:
  assumes R: "ring_holds_at k T H rb s ms" and ok: "push_at (2 ^ k) T H bs s = (0, s')"
  shows "agrees (2 ^ k) T H (obj_data s) (obj_data s')"
proof -
  let ?c = "2 ^ k :: nat" and ?need = "length bs + 4"
  have g: "ring_geom rb k" and TH: "T \<le> H" "H - T \<le> ?c" using R by (auto simp: ring_holds_at_def)
  have c: "0 < ?c" "4 \<le> ?c" using geom_bounds [OF g] by auto
  have fits: "4 + length bs \<le> ?c"
    and room: "(if ?c - H mod ?c < ?need then ?c - H mod ?c + ?need else ?need) \<le> ?c - (H - T)"
    using ok c by (auto simp: push_at_def Let_def errno_defs split: if_splits)
  show ?thesis
  proof (cases "?c - H mod ?c < ?need")
    case True
    have lap: "next_lap ?c H = H + (?c - H mod ?c)" by (rule next_lap_eq [OF c(1)])
    have "?c - H mod ?c + ?need \<le> ?c - (H - T)" using room True by simp
    then have "next_lap ?c H + 4 + length bs \<le> T + ?c" unfolding lap using TH by linarith
    note w = agrees_wrap [OF c(1) fits this]
    have "agrees ?c T H m (mem_write m 0 (le32 (of_nat (length bs)) @ bs))" for m
      by (rule agrees_sub [OF w(2) order_refl less_imp_le [OF next_lap_gt [OF c(1)]]])
    then have "agrees ?c T H (obj_data s) (mem_write (mem_write (obj_data s) (H mod ?c) (le32 0)) 0 (le32 (of_nat (length bs)) @ bs))"
      using agrees_trans [OF w(1)] by blast
    then show ?thesis using ok True by (auto simp: push_at_def Let_def errno_defs split: if_splits)
  next
    case False
    have "H mod ?c < ?c" by simp
    then have "H mod ?c + 4 + length bs \<le> ?c" "H + 4 + length bs \<le> T + ?c" using room False TH by auto
    from agrees_straight [OF this] show ?thesis
      using ok False by (auto simp: push_at_def Let_def errno_defs split: if_splits)
  qed
qed

text \<open>A push adds the frames that one step of the producer adds.\<close>

lemma push_at_chunks:
  assumes R: "ring_holds_at k T H rb s ms" and ok: "push_at (2 ^ k) T H bs s = (0, s')"
  obtains H' new p where "ring_holds_at k T H' rb s' (ms @ [bs])" "bs \<noteq> []"
    "chunks (obj_data s') (2 ^ k) T (ms @ [bs]) = chunks (obj_data s) (2 ^ k) T ms @ new"
    "new = [Rec (4 + length bs)] \<or> new = [Pad p, Rec (4 + length bs)]"
    "h_flow_flag (obj_hdr s') = h_flow_flag (obj_hdr s)" "h_parks (obj_hdr s') = h_parks (obj_hdr s)"
proof -
  let ?c = "2 ^ k :: nat"
  have g: "ring_geom rb k" and r: "recs (obj_data s) ?c T ms H" using R by (auto simp: ring_holds_at_def)
  have c: "0 < ?c" "?c \<le> 2 ^ 32" using geom_bounds [OF g] by auto
  have ag: "agrees ?c T H (obj_data s) (obj_data s')" by (rule push_at_agrees [OF R ok])
  obtain H' where H': "ring_holds_at k T H' rb s' (ms @ [bs])" using push_at_holds [OF R ok] by blast
  then obtain u where u: "recs (obj_data s') ?c T ms u" by (auto simp: ring_holds_at_def recs_append)
  have old: "recs (obj_data s') ?c T ms H" by (rule recs_agrees [OF ag r c])
  have ch: "chunks (obj_data s') ?c T (ms @ [bs]) = chunks (obj_data s) ?c T ms @ chunks (obj_data s') ?c H [bs]"
    using chunks_append [OF old] chunks_agrees [OF ag r c] by simp
  have hdr: "h_flow_flag (obj_hdr s') = h_flow_flag (obj_hdr s)" "h_parks (obj_hdr s') = h_parks (obj_hdr s)" "bs \<noteq> []"
    using ok by (auto simp: push_at_def Let_def errno_defs split: if_splits)
  show ?thesis by (rule that [OF H' hdr(3) ch _ hdr(1,2)]) (auto simp: Let_def)
qed

subsection \<open>The state of the ring in the protocol\<close>

text \<open>Between two operations of the consumer.\<close>

definition abstracts :: "shm_ring \<Rightarrow> shm_obj \<Rightarrow> u8 list list \<Rightarrow> flow_sys \<Rightarrow> bool" where
  "abstracts rb s ms u \<longleftrightarrow> (\<exists>k T H. ring_holds_at k T H rb s ms \<and> fs_frames u = chunks (obj_data s) (2 ^ k) T ms) \<and>
     fs_cons u = CLoad \<and> fs_flag u = h_flow_flag (obj_hdr s) \<and> fs_parks u = h_parks (obj_hdr s)"

lemma abstracts_holds: "abstracts rb s ms u \<Longrightarrow> ring_holds rb s ms"
  by (auto simp: abstracts_def ring_holds_def)

lemma abstracts_used:
  assumes "abstracts rb s ms u" shows "frames_used (fs_frames u) = unat (ring_used s)"
proof -
  obtain k T H where R: "ring_holds_at k T H rb s ms" and f: "fs_frames u = chunks (obj_data s) (2 ^ k) T ms"
    using assms by (auto simp: abstracts_def)
  then have "recs (obj_data s) (2 ^ k) T ms H" by (simp add: ring_holds_at_def)
  then show ?thesis using chunks_used [of "2 ^ k" "obj_data s" T ms H] used_unat [OF R] f by simp
qed

lemma abstracts_full: "abstracts rb s ms u \<Longrightarrow> ring_used s < high_watermark rb \<longleftrightarrow> frames_used (fs_frames u) < unat (high_watermark rb)"
  by (simp add: abstracts_used word_less_nat_alt)

lemma abstracts_same:
  "abstracts rb (hand_out r s) ms u = abstracts rb s ms u" "abstracts rb s ms (u\<lparr>fs_prod := p\<rparr>) = abstracts rb s ms u"
  by (simp_all add: abstracts_def hand_out_def ring_holds_at_def)

lemma abstracts_flag: "abstracts rb s ms u \<Longrightarrow> abstracts rb (set_flow_flag v s) ms (u\<lparr>fs_flag := v\<rparr>)"
  by (auto simp: abstracts_def set_flow_flag_def ring_holds_at_def)

lemma abstracts_count: "abstracts rb s ms u \<Longrightarrow> abstracts rb (count_park s) ms (u\<lparr>fs_parks := fs_parks u + 1\<rparr>)"
  by (auto simp: abstracts_def count_park_def ring_holds_at_def)

lemma abstracts_init: "ring_geom rb k \<Longrightarrow> abstracts rb (init_header cap obj) [] flow_init"
  unfolding abstracts_def by (rule conjI, rule exI [of _ k], rule exI [of _ 0], rule exI [of _ 0])
    (simp_all add: ring_holds_at_def init_header_def flow_init_def)

subsection \<open>A pop as steps of the consumer\<close>

text \<open>What a pop can do to the producer: wake it.\<close>

definition woken :: "flow_sys \<Rightarrow> flow_sys \<Rightarrow> bool" where
  "woken u u' \<longleftrightarrow> fs_prod u' = fs_prod u \<or> fs_prod u = PAsleep \<and> fs_prod u' = PCheck"

lemma woken_trans: "woken u v \<Longrightarrow> woken v w \<Longrightarrow> woken u w"
  by (auto simp: woken_def)

lemma flow_stepI: "prod_step rb u u' \<Longrightarrow> flow_step rb u u'" "cons_step rb u u' \<Longrightarrow> flow_step rb u u'"
  "cons_small u u' \<Longrightarrow> flow_step rb u u'"
  by (simp_all add: flow_step_def)

text \<open>A pop of the record at the head, from the loads to the wake.\<close>

lemma pop_run:
  assumes "fs_cons u = CLoad" "fs_frames u = Rec n # fs"
  shows "\<exists>u'. (flow_step rb)\<^sup>*\<^sup>* u u' \<and> fs_frames u' = fs \<and> fs_cons u' = CLoad \<and> fs_parks u' = fs_parks u \<and>
    fs_flag u' = (if frames_used fs < unat (low_watermark rb) then 0 else fs_flag u) \<and> woken u u'"
proof -
  let ?b = "frames_used fs < unat (low_watermark rb)"
  let ?u1 = "u\<lparr>fs_cons := CGot (frames_used (fs_frames u))\<rparr>"
  let ?u2 = "?u1\<lparr>fs_frames := fs, fs_cons := CStored ?b\<rparr>"
  have 1: "flow_step rb u ?u1" by (rule flow_stepI(2), rule cons_step.loads) (simp_all add: assms)
  have "cons_step rb ?u1 (?u1\<lparr>fs_frames := fs,
      fs_cons := CStored (frames_used (fs_frames u) - n < unat (low_watermark rb))\<rparr>)"
    by (rule cons_step.pop) (simp_all add: assms(2))
  then have 2: "flow_step rb ?u1 ?u2" by (simp add: assms(2) flow_stepI(2))
  have here: "(flow_step rb)\<^sup>*\<^sup>* u ?u2" using 1 2 by simp
  show ?thesis
  proof (cases "?b \<and> fs_flag u \<noteq> 0")
    case True
    let ?u3 = "?u2\<lparr>fs_flag := 0, fs_cons := CWake\<rparr>"
    let ?u4 = "?u3\<lparr>fs_cons := CLoad, fs_prod := if fs_prod ?u3 = PAsleep then PCheck else fs_prod ?u3\<rparr>"
    have 3: "flow_step rb ?u2 ?u3" by (rule flow_stepI(2), rule cons_step.exchange_1) (use True in simp_all)
    have 4: "flow_step rb ?u3 ?u4" by (rule flow_stepI(2), rule cons_step.wake) simp
    have "(flow_step rb)\<^sup>*\<^sup>* u ?u4" using here 3 4 by (meson rtranclp.rtrancl_into_rtrancl)
    then show ?thesis using True by (intro exI [of _ ?u4]) (simp add: woken_def)
  next
    case False
    let ?u3 = "?u2\<lparr>fs_cons := CLoad\<rparr>"
    have "cons_step rb ?u2 ?u3"
    proof (cases ?b)
      case True
      then show ?thesis using False by (intro cons_step.exchange_0) simp_all
    next
      case False
      then show ?thesis by (intro cons_step.keep) simp
    qed
    then have "(flow_step rb)\<^sup>*\<^sup>* u ?u3" using here by (meson rtranclp.rtrancl_into_rtrancl flow_stepI(2))
    then show ?thesis using False by (intro exI [of _ ?u3]) (auto simp: woken_def)
  qed
qed

text \<open>A padding is skipped.\<close>

lemma skip_run:
  assumes "fs_cons u = CLoad" "fs_frames u = Pad p # fs"
  shows "(flow_step rb)\<^sup>*\<^sup>* u (u\<lparr>fs_frames := fs\<rparr>)"
proof -
  let ?u1 = "u\<lparr>fs_cons := CGot (frames_used (fs_frames u))\<rparr>"
  have 1: "flow_step rb u ?u1" by (rule flow_stepI(2), rule cons_step.loads) (simp_all add: assms)
  have "cons_step rb ?u1 (?u1\<lparr>fs_frames := fs, fs_cons := CLoad\<rparr>)" by (rule cons_step.skip_pad) (simp_all add: assms)
  moreover have "?u1\<lparr>fs_frames := fs, fs_cons := CLoad\<rparr> = u\<lparr>fs_frames := fs\<rparr>" using assms(1) by simp
  ultimately show ?thesis using 1 by (metis converse_rtranclp_into_rtranclp flow_stepI(2) r_into_rtranclp)
qed

lemma plain_pop_steps:
  assumes R: "ring_holds_at k T H rb s (m # ms)" and plain: "\<not> sentinel_at (obj_data s) (T mod 2 ^ k)"
    and u: "fs_frames u = chunks (obj_data s) (2 ^ k) T (m # ms)" "fs_cons u = CLoad"
      "fs_flag u = h_flow_flag (obj_hdr s)" "fs_parks u = h_parks (obj_hdr s)"
  shows "\<exists>r s' ms' u'. shm_ring_pop rb mx s = Some (r, s') \<and> (flow_step rb)\<^sup>*\<^sup>* u u' \<and> abstracts rb s' ms' u' \<and> woken u u'"
proof (cases "unat mx < length m")
  case True
  have "abstracts rb s (m # ms) u" using R u by (auto simp: abstracts_def)
  then show ?thesis using pop_record_here(1) [OF R plain True] by (fastforce simp: woken_def)
next
  case False
  let ?fs = "chunks (obj_data s) (2 ^ k) (T + 4 + length m) ms"
  obtain s' where p: "shm_ring_pop rb mx s = Some (pop_ok rb m s s', s')"
    and s': "ring_holds_at k (T + 4 + length m) H rb s' ms" "obj_data s' = obj_data s"
    "h_parks (obj_hdr s') = h_parks (obj_hdr s)"
    "h_flow_flag (obj_hdr s') = (if ring_used s' < low_watermark rb then 0 else h_flow_flag (obj_hdr s))"
    using pop_record_here(2) [OF R plain] False by (meson not_less)
  have "fs_frames u = Rec (4 + length m) # ?fs" using u(1) plain by (simp add: Let_def rec_start_def)
  from pop_run [OF u(2) this] obtain u' where
    r: "(flow_step rb)\<^sup>*\<^sup>* u u'" "fs_frames u' = ?fs" "fs_cons u' = CLoad" "fs_parks u' = fs_parks u"
    "fs_flag u' = (if frames_used ?fs < unat (low_watermark rb) then 0 else fs_flag u)" "woken u u'" by blast
  have "recs (obj_data s') (2 ^ k) (T + 4 + length m) ms H" using s'(1) by (simp add: ring_holds_at_def)
  then have "frames_used ?fs = unat (ring_used s')" using chunks_used [of "2 ^ k"] used_unat [OF s'(1)] s'(2) by simp
  then have "abstracts rb s' ms u'" unfolding abstracts_def
    using s' r u(3,4) by (auto simp: word_less_nat_alt)
  then show ?thesis using p r(1,6) by blast
qed

lemma pop_steps:
  assumes "abstracts rb s ms u"
  shows "\<exists>r s' ms' u'. shm_ring_pop rb mx s = Some (r, s') \<and> (flow_step rb)\<^sup>*\<^sup>* u u' \<and> abstracts rb s' ms' u' \<and> woken u u'"
proof (cases ms)
  case Nil
  then have "shm_ring_pop rb mx s = Some (pop_fails (- EAGAIN), s)" using assms pop_empty by (auto simp: abstracts_def)
  then show ?thesis using assms by (fastforce simp: woken_def)
next
  case (Cons m ms')
  obtain k T H where R: "ring_holds_at k T H rb s (m # ms')"
    and u: "fs_frames u = chunks (obj_data s) (2 ^ k) T (m # ms')" "fs_cons u = CLoad"
      "fs_flag u = h_flow_flag (obj_hdr s)" "fs_parks u = h_parks (obj_hdr s)"
    using assms Cons by (auto simp: abstracts_def)
  show ?thesis
  proof (cases "sentinel_at (obj_data s) (T mod 2 ^ k)")
    case False
    from plain_pop_steps [OF R False u] show ?thesis .
  next
    case True
    let ?T = "next_lap (2 ^ k) T"
    let ?s = "set_tail (of_nat ?T) s" and ?u = "u\<lparr>fs_frames := chunks (obj_data s) (2 ^ k) ?T (m # ms')\<rparr>"
    note sk = holds_skip_sentinel [OF R True]
    have lap: "T < ?T" by (rule next_lap_gt) simp
    have "fs_frames u = Pad (?T - T) # chunks (obj_data s) (2 ^ k) ?T (m # ms')"
      using u(1) True sk(2) lap by (simp add: Let_def rec_start_def)
    note skip = skip_run [OF u(2) this, of rb]
    have "\<exists>r s' ms'' u'. shm_ring_pop rb mx ?s = Some (r, s') \<and> (flow_step rb)\<^sup>*\<^sup>* ?u u' \<and>
        abstracts rb s' ms'' u' \<and> woken ?u u'"
      by (rule plain_pop_steps [OF sk(1)]) (use sk(2) u in simp_all)
    then obtain r s' ms'' u' where "shm_ring_pop rb mx s = Some (r, s')" "(flow_step rb)\<^sup>*\<^sup>* ?u u'"
      "abstracts rb s' ms'' u'" "woken ?u u'"
      unfolding pop_at_sentinel [OF R True] by blast
    then show ?thesis using rtranclp_trans [OF skip] by (fastforce simp: woken_def)
  qed
qed

lemma consume_steps:
  assumes "abstracts rb s ms u" "consume rb ns s = Some s'"
  shows "\<exists>ms' u'. (flow_step rb)\<^sup>*\<^sup>* u u' \<and> abstracts rb s' ms' u' \<and> woken u u'"
  using assms
proof (induction ns arbitrary: s ms u)
  case Nil
  then show ?case by (fastforce simp: woken_def)
next
  case (Cons n ns)
  obtain r s1 ms1 u1 where p: "shm_ring_pop rb n s = Some (r, s1)" "(flow_step rb)\<^sup>*\<^sup>* u u1" "abstracts rb s1 ms1 u1" "woken u u1"
    using pop_steps [OF Cons.prems(1)] by blast
  have "abstracts rb (hand_out r s1) ms1 u1" "consume rb ns (hand_out r s1) = Some s'"
    using p(1,3) Cons.prems(2) by (simp_all add: abstracts_same)
  from Cons.IH [OF this] show ?case using p(2,4) woken_trans by (meson rtranclp_trans)
qed

subsection \<open>The wait as steps of the producer\<close>

text \<open>A sleep that ends with an error ends before anybody wakes the producer.\<close>

definition plausible :: "wait_round \<Rightarrow> bool" where
  "plausible r \<longleftrightarrow> wr_errno r = 0 \<or> wr_asleep r = []"

lemma prod_then: "(flow_step rb)\<^sup>*\<^sup>* u v \<Longrightarrow> prod_step rb v w \<Longrightarrow> (flow_step rb)\<^sup>*\<^sup>* u w"
  by (meson flow_stepI(1) rtranclp.rtrancl_into_rtrancl)

text \<open>A pop leaves a producer that is awake where it is.\<close>

lemma consume_awake:
  assumes "abstracts rb s ms u" "consume rb ns s = Some s'" "fs_prod u = p" "p \<noteq> PAsleep"
  obtains ms' u' where "(flow_step rb)\<^sup>*\<^sup>* u u'" "abstracts rb s' ms' u'" "fs_prod u' = p"
  using consume_steps [OF assms(1,2)] assms(3,4) by (auto simp: woken_def)

lemma flow_wait_steps:
  assumes "abstracts rb s ms u" "fs_prod u = PFutex" "flow_wait rb r s = Some (rc, s')" "plausible r"
  shows "\<exists>ms' u'. (flow_step rb)\<^sup>*\<^sup>* u u' \<and> abstracts rb s' ms' u' \<and>
    fs_prod u' = (if rc = - EAGAIN \<or> rc = 0 then PCheck else PSend)"
proof -
  obtain s1 where s1: "consume rb (wr_park r) s = Some s1" using assms(3) by (auto simp: flow_wait_def split: option.splits)
  obtain ms1 u1 where u1: "(flow_step rb)\<^sup>*\<^sup>* u u1" "abstracts rb s1 ms1 u1" "fs_prod u1 = PFutex"
    using consume_awake [OF assms(1) s1 assms(2)] by blast
  have flag: "fs_flag u1 = h_flow_flag (obj_hdr s1)" using u1(2) by (simp add: abstracts_def)
  show ?thesis
  proof (cases "h_flow_flag (obj_hdr s1) = 1")
    case False
    then have rc: "rc = - EAGAIN" "s' = s1" using assms(3) s1 by (auto simp: flow_wait_def)
    have "prod_step rb u1 (u1\<lparr>fs_prod := PCheck\<rparr>)" by (rule prod_step.futex_again) (use u1(3) flag False in simp_all)
    from prod_then [OF u1(1) this] show ?thesis using rc u1(2)
      by (intro exI [of _ ms1] exI [of _ "u1\<lparr>fs_prod := PCheck\<rparr>"]) (simp add: abstracts_same)
  next
    case True
    let ?u2 = "u1\<lparr>fs_prod := PAsleep\<rparr>"
    have "prod_step rb u1 ?u2" by (rule prod_step.futex_sleep) (use u1(3) flag True in simp_all)
    note asleep = prod_then [OF u1(1) this]
    have s': "consume rb (wr_asleep r) s1 = Some s'" "rc = - wr_errno r"
      using assms(3) s1 True by (auto simp: flow_wait_def split: option.splits)
    have "abstracts rb s1 ms1 ?u2" using u1(2) by (simp add: abstracts_same)
    from consume_steps [OF this s'(1)] obtain ms3 u3 where
      u3: "(flow_step rb)\<^sup>*\<^sup>* ?u2 u3" "abstracts rb s' ms3 u3" "fs_prod u3 = PAsleep \<or> fs_prod u3 = PCheck"
      by (auto simp: woken_def)
    have run: "(flow_step rb)\<^sup>*\<^sup>* u u3" by (rule rtranclp_trans [OF asleep u3(1)])
    let ?up = "\<lambda>p. u3\<lparr>fs_prod := p\<rparr>"
    have spur: "\<exists>u4. (flow_step rb)\<^sup>*\<^sup>* u u4 \<and> abstracts rb s' ms3 u4 \<and> fs_prod u4 = PCheck"
    proof (cases "fs_prod u3 = PAsleep")
      case True
      from prod_then [OF run prod_step.spurious [OF True]] show ?thesis using u3(2)
        by (intro exI [of _ "?up PCheck"]) (simp add: abstracts_same)
    next
      case False
      then show ?thesis using run u3(2,3) by blast
    qed
    show ?thesis
    proof (cases "rc = - EAGAIN \<or> rc = 0")
      case True
      then show ?thesis using spur by auto
    next
      case False
      then have "wr_asleep r = []" using assms(4) s'(2) by (auto simp: plausible_def)
      then have "s' = s1" using s'(1) by simp
      have "prod_step rb ?u2 (?u2\<lparr>fs_prod := PSend\<rparr>)" by (rule prod_step.signalled) simp
      from prod_then [OF asleep this] show ?thesis using False u1(2) \<open>s' = s1\<close>
        by (intro exI [of _ ms1] exI [of _ "?u2\<lparr>fs_prod := PSend\<rparr>"]) (simp add: abstracts_same)
    qed
  qed
qed

lemma wait_writable_steps:
  assumes "abstracts rb s ms u" "fs_prod u = PCheck" "list_all plausible rs"
    and "shm_ring_wait_writable (Some rb) rs s = Some (rc, s', rs')"
  shows "\<exists>ms' u'. (flow_step rb)\<^sup>*\<^sup>* u u' \<and> abstracts rb s' ms' u' \<and> fs_prod u' = PSend"
  using assms
proof (induction rs arbitrary: s ms u)
  case (Cons r rs)
  obtain s1 where s1: "consume rb (wr_before r) s = Some s1" using Cons.prems(4) by (auto split: option.splits)
  obtain ms1 u1 where u1: "(flow_step rb)\<^sup>*\<^sup>* u u1" "abstracts rb s1 ms1 u1" "fs_prod u1 = PCheck"
    using consume_awake [OF Cons.prems(1) s1 Cons.prems(2)] by blast
  show ?case
  proof (cases "ring_used s1 < high_watermark rb")
    case True
    have "prod_step rb u1 (u1\<lparr>fs_prod := PSend\<rparr>)"
      by (rule prod_step.check_room) (use u1(3) True abstracts_full [OF u1(2)] in simp_all)
    from prod_then [OF u1(1) this] show ?thesis using Cons.prems(4) s1 True u1(2)
      by (intro exI [of _ ms1] exI [of _ "u1\<lparr>fs_prod := PSend\<rparr>"]) (simp add: abstracts_same)
  next
    case full: False
    let ?a = "u1\<lparr>fs_prod := PArm\<rparr>" and ?f = "(u1\<lparr>fs_flag := 1\<rparr>)\<lparr>fs_prod := PRecheck\<rparr>"
    have a: "prod_step rb u1 ?a"
      by (rule prod_step.check_full) (use u1(3) full abstracts_full [OF u1(2)] in simp_all)
    have "prod_step rb ?a (?a\<lparr>fs_flag := 1, fs_prod := PRecheck\<rparr>)" by (rule prod_step.arm) simp
    then have "prod_step rb ?a ?f" by simp
    from prod_then [OF prod_then [OF u1(1) a] this] have armed: "(flow_step rb)\<^sup>*\<^sup>* u ?f" .
    have af: "abstracts rb (set_flow_flag 1 s1) ms1 ?f"
      unfolding abstracts_same by (rule abstracts_flag [OF u1(2)])
    obtain s2 where s2: "consume rb (wr_armed r) (set_flow_flag 1 s1) = Some s2"
      using Cons.prems(4) s1 full by (auto split: option.splits)
    obtain ms2 u2 where u2: "(flow_step rb)\<^sup>*\<^sup>* ?f u2" "abstracts rb s2 ms2 u2" "fs_prod u2 = PRecheck"
      by (rule consume_awake [OF af s2 refl]) (use that in simp_all)
    have run2: "(flow_step rb)\<^sup>*\<^sup>* u u2" by (rule rtranclp_trans [OF armed u2(1)])
    show ?thesis
    proof (cases "ring_used s2 < high_watermark rb")
      case True
      let ?d = "u2\<lparr>fs_prod := PDisarm\<rparr>" and ?e = "(u2\<lparr>fs_flag := 0\<rparr>)\<lparr>fs_prod := PSend\<rparr>"
      have d: "prod_step rb u2 ?d"
        by (rule prod_step.recheck_room) (use u2(3) True abstracts_full [OF u2(2)] in simp_all)
      have "prod_step rb ?d (?d\<lparr>fs_flag := 0, fs_prod := PSend\<rparr>)" by (rule prod_step.disarm) simp
      then have "prod_step rb ?d ?e" by simp
      from prod_then [OF prod_then [OF run2 d] this] have "(flow_step rb)\<^sup>*\<^sup>* u ?e" .
      moreover have "abstracts rb (set_flow_flag 0 s2) ms2 ?e"
        unfolding abstracts_same by (rule abstracts_flag [OF u2(2)])
      moreover have "s' = set_flow_flag 0 s2" using Cons.prems(4) s1 s2 full True by simp
      ultimately show ?thesis by (intro exI [of _ ms2] exI [of _ ?e]) simp
    next
      case full2: False
      let ?c = "u2\<lparr>fs_prod := PCount\<rparr>" and ?x = "(u2\<lparr>fs_parks := fs_parks u2 + 1\<rparr>)\<lparr>fs_prod := PFutex\<rparr>"
      have c: "prod_step rb u2 ?c"
        by (rule prod_step.recheck_full) (use u2(3) full2 abstracts_full [OF u2(2)] in simp_all)
      have "prod_step rb ?c (?c\<lparr>fs_parks := fs_parks ?c + 1, fs_prod := PFutex\<rparr>)" by (rule prod_step.count) simp
      then have "prod_step rb ?c ?x" by simp
      from prod_then [OF prod_then [OF run2 c] this] have counted: "(flow_step rb)\<^sup>*\<^sup>* u ?x" .
      have ax: "abstracts rb (count_park s2) ms2 ?x"
        unfolding abstracts_same by (rule abstracts_count [OF u2(2)])
      obtain rc3 s3 where s3: "flow_wait rb r (count_park s2) = Some (rc3, s3)"
        using Cons.prems(4) s1 s2 full full2 by (auto split: option.splits)
      have pl: "plausible r" "list_all plausible rs" using Cons.prems(3) by simp_all
      obtain ms3 u3 where u3: "(flow_step rb)\<^sup>*\<^sup>* ?x u3" "abstracts rb s3 ms3 u3"
        "fs_prod u3 = (if rc3 = - EAGAIN \<or> rc3 = 0 then PCheck else PSend)"
        using flow_wait_steps [OF ax _ s3 pl(1)] by auto
      have run3: "(flow_step rb)\<^sup>*\<^sup>* u u3" by (rule rtranclp_trans [OF counted u3(1)])
      show ?thesis
      proof (cases "rc3 = - EAGAIN \<or> rc3 = 0")
        case True
        then have "shm_ring_wait_writable (Some rb) rs s3 = Some (rc, s', rs')"
          using Cons.prems(4) s1 s2 s3 full full2 by (auto split: if_splits)
        from Cons.IH [OF u3(2) _ pl(2) this] True u3(3) show ?thesis using rtranclp_trans [OF run3] by auto
      next
        case False
        then show ?thesis using Cons.prems(4) s1 s2 s3 full full2 run3 u3(2,3) by auto
      qed
    qed
  qed
qed simp

subsection \<open>The pushes as steps of the producer\<close>

lemma push_steps:
  assumes "abstracts rb s ms u" "fs_prod u = PSend" "sendv_ok sgs" "shm_ring_push_scatter (Some rb) (Some sgs) s = Some (rc, s')"
  shows "\<exists>ms' u'. (flow_step rb)\<^sup>*\<^sup>* u u' \<and> abstracts rb s' ms' u' \<and> fs_prod u' = PSend"
proof (cases "rc = 0")
  case False
  then have "s' = s" using push_scatter_queue [OF abstracts_holds [OF assms(1)] assms(3)] assms(4)
    by (metis option.inject prod.inject)
  then show ?thesis using assms(1,2) by blast
next
  case True
  obtain k T H where R: "ring_holds_at k T H rb s ms" and f: "fs_frames u = chunks (obj_data s) (2 ^ k) T ms"
    and rest: "fs_cons u = CLoad" "fs_flag u = h_flow_flag (obj_hdr s)" "fs_parks u = h_parks (obj_hdr s)"
    using assms(1) by (auto simp: abstracts_def)
  have g: "ring_geom rb k" using R by (simp add: ring_holds_at_def)
  have len: "length (gather sgs) < 2 ^ 63" using assms(3) by (simp add: sendv_ok_def)
  have "shm_ring_push (Some rb) (Some (gather sgs)) s = (0, s')"
    using push_scatter_result [OF abstracts_holds [OF assms(1)] assms(3)] assms(4) True
    by (auto simp: errno_defs split: if_splits)
  then have "push_at (2 ^ k) T H (gather sgs) s = (0, s')" using shm_ring_push_of_nat [OF R len] by simp
  from push_at_chunks [OF R this] obtain H' new p where n: "ring_holds_at k T H' rb s' (ms @ [gather sgs])" "gather sgs \<noteq> []"
    "chunks (obj_data s') (2 ^ k) T (ms @ [gather sgs]) = fs_frames u @ new"
    "new = [Rec (4 + length (gather sgs))] \<or> new = [Pad p, Rec (4 + length (gather sgs))]"
    "h_flow_flag (obj_hdr s') = h_flow_flag (obj_hdr s)" "h_parks (obj_hdr s') = h_parks (obj_hdr s)"
    unfolding f by metis
  have "recs (obj_data s') (2 ^ k) T (ms @ [gather sgs]) H'" "H' - T \<le> 2 ^ k" using n(1) by (simp_all add: ring_holds_at_def)
  then have "frames_used (fs_frames u @ new) \<le> unat (rb_capacity rb)"
    using chunks_used [of "2 ^ k"] n(3) geom_unat [OF g] by (metis zero_less_numeral zero_less_power)
  then have "prod_step rb u (u\<lparr>fs_frames := fs_frames u @ new\<rparr>)"
    using n(2,4) assms(2) by (intro prod_step.push [of u "4 + length (gather sgs)" new p]) (auto simp: Suc_le_eq)
  then have "(flow_step rb)\<^sup>*\<^sup>* u (u\<lparr>fs_frames := fs_frames u @ new\<rparr>)" by (simp add: flow_stepI(1) r_into_rtranclp)
  moreover have "abstracts rb s' (ms @ [gather sgs]) (u\<lparr>fs_frames := fs_frames u @ new\<rparr>)"
    unfolding abstracts_def using n rest by fastforce
  ultimately show ?thesis using assms(2) by fastforce
qed

lemma wait_steps:
  assumes "abstracts rb s ms u" "fs_prod u = PSend" "list_all plausible rs"
    and "shm_ring_wait_writable (Some rb) rs s = Some (rc, s', rs')"
  shows "\<exists>ms' u'. (flow_step rb)\<^sup>*\<^sup>* u u' \<and> abstracts rb s' ms' u' \<and> fs_prod u' = PSend"
proof -
  have a: "abstracts rb s ms (u\<lparr>fs_prod := PCheck\<rparr>)" using assms(1) by (simp add: abstracts_same)
  have "(flow_step rb)\<^sup>*\<^sup>* u (u\<lparr>fs_prod := PCheck\<rparr>)" by (rule prod_then [OF _ prod_step.wait [OF assms(2)]]) simp
  then show ?thesis using wait_writable_steps [OF a _ assms(3,4)] by (auto intro: rtranclp_trans)
qed

lemma push_retry_steps:
  assumes "abstracts rb s ms u" "fs_prod u = PSend" "sendv_ok sgs" "list_all plausible rs"
    and "push_retry rb (Some sgs) rs s = Some (rc, s')"
  shows "\<exists>ms' u'. (flow_step rb)\<^sup>*\<^sup>* u u' \<and> abstracts rb s' ms' u' \<and> fs_prod u' = PSend"
  using assms(1,2,4,5)
proof (induction "length rs" arbitrary: rs s ms u rule: less_induct)
  case less
  obtain rc1 s1 where p: "shm_ring_push_scatter (Some rb) (Some sgs) s = Some (rc1, s1)"
    using push_scatter_queue [OF abstracts_holds [OF less.prems(1)] assms(3)] by metis
  obtain ms1 u1 where u1: "(flow_step rb)\<^sup>*\<^sup>* u u1" "abstracts rb s1 ms1 u1" "fs_prod u1 = PSend"
    using push_steps [OF less.prems(1,2) assms(3) p] by blast
  show ?case
  proof (cases "rc1 = - EAGAIN")
    case False
    then have "s' = s1" using less.prems(4) p by (simp add: push_retry_simps [of rb _ rs s])
    then show ?thesis using u1 by blast
  next
    case True
    then obtain rc2 s2 rs2 where w: "shm_ring_wait_writable (Some rb) rs s1 = Some (rc2, s2, rs2)"
      and e: "if rc2 \<noteq> 0 then s' = s2 else push_retry rb (Some sgs) rs2 s2 = Some (rc, s')"
      using less.prems(4) p by (auto simp: push_retry_simps [of rb _ rs s] split: option.splits if_split_asm)
    obtain ms2 u2 where u2: "(flow_step rb)\<^sup>*\<^sup>* u u2" "abstracts rb s2 ms2 u2" "fs_prod u2 = PSend"
      using wait_steps [OF u1(2,3) less.prems(3) w] rtranclp_trans [OF u1(1)] by blast
    show ?thesis
    proof (cases "rc2 = 0")
      case False
      then show ?thesis using e u2 by auto
    next
      case True
      obtain pre where "rs = pre @ rs2" using wait_writable_result [OF abstracts_holds [OF u1(2)] w] by blast
      then have "list_all plausible rs2" using less.prems(3) by simp
      from less.hyps [OF wait_writable_uses_rounds [OF w] u2(2,3) this] show ?thesis
        using e True rtranclp_trans [OF u2(1)] by auto
    qed
  qed
qed

lemma blocking_push_steps:
  assumes "abstracts rb s ms u" "fs_prod u = PSend" "sendv_ok sgs" "list_all plausible rs"
    and "shm_ring_push_scatter_blocking (Some rb) (Some sgs) rs s = Some (rc, s')"
  shows "\<exists>ms' u'. (flow_step rb)\<^sup>*\<^sup>* u u' \<and> abstracts rb s' ms' u' \<and> fs_prod u' = PSend"
proof -
  obtain rc1 s1 rs1 where w: "shm_ring_wait_writable (Some rb) rs s = Some (rc1, s1, rs1)"
    and e: "if rc1 \<noteq> 0 \<and> rc1 \<noteq> - EINVAL then s' = s1 else push_retry rb (Some sgs) rs1 s1 = Some (rc, s')"
    using assms(5) by (auto simp: shm_ring_push_scatter_blocking_def split: option.splits if_split_asm)
  obtain ms1 u1 where u1: "(flow_step rb)\<^sup>*\<^sup>* u u1" "abstracts rb s1 ms1 u1" "fs_prod u1 = PSend"
    using wait_steps [OF assms(1,2,4) w] by blast
  obtain pre where "rs = pre @ rs1" using wait_writable_result [OF abstracts_holds [OF assms(1)] w] by blast
  then have "list_all plausible rs1" using assms(4) by simp
  from push_retry_steps [OF u1(2,3) assms(3) this] show ?thesis
    using e u1 rtranclp_trans [OF u1(1)] by (auto split: if_splits)
qed

subsection \<open>Runs of both sides\<close>

datatype ring_op = Pushes "shm_segment list" "wait_round list" | Pops csize

fun ring_step :: "shm_ring \<Rightarrow> ring_op \<Rightarrow> shm_obj \<Rightarrow> shm_obj option" where
  "ring_step rb (Pushes sgs rs) s = map_option snd (shm_ring_push_scatter_blocking (Some rb) (Some sgs) rs s)"
| "ring_step rb (Pops n) s = map_option snd (shm_ring_pop rb n s)"

fun ring_op_ok :: "ring_op \<Rightarrow> bool" where
  "ring_op_ok (Pushes sgs rs) \<longleftrightarrow> sendv_ok sgs \<and> list_all plausible rs"
| "ring_op_ok (Pops n) \<longleftrightarrow> True"

lemma ring_step_steps:
  assumes "ring_op_ok i" "ring_step rb i s = Some s'" "abstracts rb s ms u" "fs_prod u = PSend"
  shows "\<exists>ms' u'. (flow_step rb)\<^sup>*\<^sup>* u u' \<and> abstracts rb s' ms' u' \<and> fs_prod u' = PSend"
proof (cases i)
  case (Pushes sgs rs)
  then show ?thesis using assms blocking_push_steps [OF assms(3,4)] by auto
next
  case (Pops n)
  then show ?thesis using assms pop_steps [OF assms(3), of n] by (fastforce simp: woken_def)
qed

interpretation in_protocol: keeps_invariant "ring_step rb" ring_op_ok
    "\<lambda>s. \<exists>ms u. (flow_step rb)\<^sup>*\<^sup>* u0 u \<and> abstracts rb s ms u \<and> fs_prod u = PSend" for rb u0
proof unfold_locales
  fix i s s'
  assume ok: "ring_op_ok i" "ring_step rb i s = Some s'"
    and "\<exists>ms u. (flow_step rb)\<^sup>*\<^sup>* u0 u \<and> abstracts rb s ms u \<and> fs_prod u = PSend"
  then obtain ms u where u: "(flow_step rb)\<^sup>*\<^sup>* u0 u" "abstracts rb s ms u" "fs_prod u = PSend" by blast
  show "\<exists>ms u. (flow_step rb)\<^sup>*\<^sup>* u0 u \<and> abstracts rb s' ms u \<and> fs_prod u = PSend"
    using ring_step_steps [OF ok u(2,3)] rtranclp_trans [OF u(1)] by blast
qed

subsection \<open>Properties\<close>

text \<open>C12: The operations on the bytes of the ring refine the protocol of single accesses: every run of blocking pushes, with
  pops while they wait, and of pops is a run of the protocol from the state that the ring is in to the state it ends in, with the
  same frames between the cursors, the same flag and the same count of parks. From a fresh ring it is a run from the initial state. A sleep
  that ends with an error is taken to end before anybody wakes the producer.\<close>

lemma ring_runs_refine_protocol:
  assumes "abstracts rb s ms u" "fs_prod u = PSend" "list_all ring_op_ok ops" "run_ops (ring_step rb) ops s = Some s'"
  shows "\<exists>ms' u'. (flow_step rb)\<^sup>*\<^sup>* u u' \<and> abstracts rb s' ms' u' \<and> fs_prod u' = PSend"
  by (rule in_protocol.run [OF assms(4) _ assms(3)]) (use assms(1,2) in blast)

lemma ring_runs_refine_protocol_witness:
  "\<exists>s' ms u. run_ops (ring_step page_ring) [Pushes (page_segs [4, 5]) [page_round, page_round], Pops 64]
      (init_header 4096 (page_at 0 0)) = Some s' \<and> (flow_step page_ring)\<^sup>*\<^sup>* flow_init u \<and> abstracts page_ring s' ms u"
proof -
  let ?s = "init_header 4096 (page_at 0 0)"
  have h: "ring_holds page_ring ?s []" by (rule init_holds [OF page_geom])
  obtain s1 j where b: "shm_ring_push_scatter_blocking (Some page_ring) (Some (page_segs [4, 5])) [page_round, page_round] ?s = Some (0, s1)"
    "ring_holds page_ring s1 (drop j [] @ [gather (page_segs [4, 5])])"
    using push_blocking_returns [OF h, of "page_segs [4, 5]" "[page_round, page_round]"]
    by (auto simp: page_cap page_round_def empties_def)
  obtain r s2 where p: "shm_ring_pop page_ring 64 s1 = Some (r, s2)" using pop_result [OF b(2)] by metis
  have run: "run_ops (ring_step page_ring) [Pushes (page_segs [4, 5]) [page_round, page_round], Pops 64] ?s = Some s2"
    using b(1) p by simp
  have "list_all ring_op_ok [Pushes (page_segs [4, 5]) [page_round, page_round], Pops 64]"
    by (simp add: plausible_def page_round_def)
  from ring_runs_refine_protocol [OF abstracts_init [OF page_geom] _ this run] show ?thesis
    using run by (auto simp: flow_init_def)
qed

end
