(* ===== verification/WakeTso.thy ===== *)
theory WakeTso
  imports WakeProtocol
begin

text \<open>
  The park and wake protocol on total store order, the memory model of x86: each side's stores go
  through a buffer that drains to memory in order, at any time; a load takes a side's own
  pending store if there is one; a locked instruction and a system call wait for the buffer to
  be empty. The stores of the protocol are release stores, which are plain stores there, and the
  exchange and the count of the parks are locked. \<open>fenced\<close> says whether a full fence stands
  between the arming of the flag and the second look at \<open>tail\<close>: the code has none.
\<close>

subsection \<open>States\<close>

text \<open>A store of the producer: of \<open>head\<close>, publishing frames, or of the flag.\<close>

datatype pstore = SHead "frame list" | SFlag int

fun pend :: "pstore list \<Rightarrow> frame list" where
  "pend [] = []"
| "pend (SHead fs # xs) = fs @ pend xs"
| "pend (SFlag v # xs) = pend xs"

text \<open>
  \<open>ts_mem\<close> are the frames between the two cursors in memory, \<open>ts_pbuf\<close> the producer's buffer, \<open>ts_cbuf\<close>
  the number of the consumer's stores of \<open>tail\<close> that are pending, one frame each.
\<close>

record tso_sys =
  ts_prod :: prod_pc
  ts_cons :: cons_pc
  ts_mem :: "frame list"
  ts_flag :: int
  ts_parks :: u64
  ts_pbuf :: "pstore list"
  ts_cbuf :: nat

definition tso_init :: tso_sys where
  "tso_init = \<lparr>ts_prod = PSend, ts_cons = CLoad, ts_mem = [], ts_flag = 0, ts_parks = 0, ts_pbuf = [], ts_cbuf = 0\<rparr>"

text \<open>The use of the ring as the producer sees it, its own \<open>head\<close> and the \<open>tail\<close> in memory; the
  frames as the consumer sees them, the \<open>head\<close> in memory and its own \<open>tail\<close>.\<close>

definition prod_used :: "tso_sys \<Rightarrow> nat" where
  "prod_used s = frames_used (ts_mem s @ pend (ts_pbuf s))"

definition cons_view :: "tso_sys \<Rightarrow> frame list" where
  "cons_view s = drop (ts_cbuf s) (ts_mem s)"

lemma cons_view_upd [simp]:
  "cons_view (s\<lparr>ts_prod := p\<rparr>) = cons_view s" "cons_view (s\<lparr>ts_cons := c\<rparr>) = cons_view s"
  "cons_view (s\<lparr>ts_flag := v\<rparr>) = cons_view s" "cons_view (s\<lparr>ts_parks := k\<rparr>) = cons_view s"
  "cons_view (s\<lparr>ts_pbuf := b\<rparr>) = cons_view s"
  by (simp_all add: cons_view_def)

subsection \<open>Steps\<close>

inductive tso_prod :: "bool \<Rightarrow> shm_ring \<Rightarrow> tso_sys \<Rightarrow> tso_sys \<Rightarrow> bool" for fenced rb where
  push: "ts_prod s = PSend \<Longrightarrow> 5 \<le> n \<Longrightarrow> new = [Rec n] \<or> new = [Pad p, Rec n] \<Longrightarrow>
    prod_used s + frames_used new \<le> unat (rb_capacity rb) \<Longrightarrow>
    tso_prod fenced rb s (s\<lparr>ts_pbuf := ts_pbuf s @ [SHead new]\<rparr>)"
| wait: "ts_prod s = PSend \<Longrightarrow> tso_prod fenced rb s (s\<lparr>ts_prod := PCheck\<rparr>)"
| check_room: "ts_prod s = PCheck \<Longrightarrow> prod_used s < unat (high_watermark rb) \<Longrightarrow>
    tso_prod fenced rb s (s\<lparr>ts_prod := PSend\<rparr>)"
| check_full: "ts_prod s = PCheck \<Longrightarrow> \<not> prod_used s < unat (high_watermark rb) \<Longrightarrow>
    tso_prod fenced rb s (s\<lparr>ts_prod := PArm\<rparr>)"
| arm: "ts_prod s = PArm \<Longrightarrow>
    tso_prod fenced rb s (s\<lparr>ts_pbuf := ts_pbuf s @ [SFlag 1], ts_prod := PRecheck\<rparr>)"
| recheck_room: "ts_prod s = PRecheck \<Longrightarrow> (fenced \<Longrightarrow> ts_pbuf s = []) \<Longrightarrow>
    prod_used s < unat (high_watermark rb) \<Longrightarrow> tso_prod fenced rb s (s\<lparr>ts_prod := PDisarm\<rparr>)"
| recheck_full: "ts_prod s = PRecheck \<Longrightarrow> (fenced \<Longrightarrow> ts_pbuf s = []) \<Longrightarrow>
    \<not> prod_used s < unat (high_watermark rb) \<Longrightarrow> tso_prod fenced rb s (s\<lparr>ts_prod := PCount\<rparr>)"
| disarm: "ts_prod s = PDisarm \<Longrightarrow>
    tso_prod fenced rb s (s\<lparr>ts_pbuf := ts_pbuf s @ [SFlag 0], ts_prod := PSend\<rparr>)"
| count: "ts_prod s = PCount \<Longrightarrow> ts_pbuf s = [] \<Longrightarrow>
    tso_prod fenced rb s (s\<lparr>ts_parks := ts_parks s + 1, ts_prod := PFutex\<rparr>)"
| futex_again: "ts_prod s = PFutex \<Longrightarrow> ts_pbuf s = [] \<Longrightarrow> ts_flag s \<noteq> 1 \<Longrightarrow>
    tso_prod fenced rb s (s\<lparr>ts_prod := PCheck\<rparr>)"
| futex_sleep: "ts_prod s = PFutex \<Longrightarrow> ts_pbuf s = [] \<Longrightarrow> ts_flag s = 1 \<Longrightarrow>
    tso_prod fenced rb s (s\<lparr>ts_prod := PAsleep\<rparr>)"
| drain_head: "ts_pbuf s = SHead fs # xs \<Longrightarrow>
    tso_prod fenced rb s (s\<lparr>ts_mem := ts_mem s @ fs, ts_pbuf := xs\<rparr>)"
| drain_flag: "ts_pbuf s = SFlag v # xs \<Longrightarrow> tso_prod fenced rb s (s\<lparr>ts_flag := v, ts_pbuf := xs\<rparr>)"

text \<open>What ends the sleep without a wake: a spurious return, a signal.\<close>

inductive tso_stir :: "tso_sys \<Rightarrow> tso_sys \<Rightarrow> bool" where
  spurious: "ts_prod s = PAsleep \<Longrightarrow> tso_stir s (s\<lparr>ts_prod := PCheck\<rparr>)"
| signalled: "ts_prod s = PAsleep \<Longrightarrow> tso_stir s (s\<lparr>ts_prod := PSend\<rparr>)"

inductive tso_cons :: "shm_ring \<Rightarrow> tso_sys \<Rightarrow> tso_sys \<Rightarrow> bool" for rb where
  loads: "ts_cons s = CLoad \<Longrightarrow> cons_view s \<noteq> [] \<Longrightarrow>
    tso_cons rb s (s\<lparr>ts_cons := CGot (frames_used (cons_view s))\<rparr>)"
| skip_pad: "ts_cons s = CGot u \<Longrightarrow> cons_view s = Pad p # fs \<Longrightarrow>
    tso_cons rb s (s\<lparr>ts_cbuf := ts_cbuf s + 1, ts_cons := CLoad\<rparr>)"
| pop: "ts_cons s = CGot u \<Longrightarrow> cons_view s = Rec n # fs \<Longrightarrow>
    tso_cons rb s (s\<lparr>ts_cbuf := ts_cbuf s + 1, ts_cons := CStored (u - n < unat (low_watermark rb))\<rparr>)"
| keep: "ts_cons s = CStored False \<Longrightarrow> tso_cons rb s (s\<lparr>ts_cons := CLoad\<rparr>)"
| exchange_0: "ts_cons s = CStored True \<Longrightarrow> ts_cbuf s = 0 \<Longrightarrow> ts_flag s = 0 \<Longrightarrow>
    tso_cons rb s (s\<lparr>ts_cons := CLoad\<rparr>)"
| exchange_1: "ts_cons s = CStored True \<Longrightarrow> ts_cbuf s = 0 \<Longrightarrow> ts_flag s \<noteq> 0 \<Longrightarrow>
    tso_cons rb s (s\<lparr>ts_flag := 0, ts_cons := CWake\<rparr>)"
| wake: "ts_cons s = CWake \<Longrightarrow>
    tso_cons rb s (s\<lparr>ts_cons := CLoad, ts_prod := if ts_prod s = PAsleep then PCheck else ts_prod s\<rparr>)"
| drain_tail: "ts_cbuf s = Suc k \<Longrightarrow> ts_mem s = f # fs \<Longrightarrow> tso_cons rb s (s\<lparr>ts_mem := fs, ts_cbuf := k\<rparr>)"

text \<open>A pop that returns \<open>-EMSGSIZE\<close>.\<close>

inductive tso_small :: "tso_sys \<Rightarrow> tso_sys \<Rightarrow> bool" where
  "ts_cons s = CGot u \<Longrightarrow> cons_view s = Rec n # fs \<Longrightarrow> tso_small s (s\<lparr>ts_cons := CLoad\<rparr>)"

inductive_cases tso_prodE: "tso_prod fenced rb s s'"
inductive_cases tso_consE: "tso_cons rb s s'"

inductive tso_reach :: "bool \<Rightarrow> shm_ring \<Rightarrow> tso_sys \<Rightarrow> bool" for fenced rb where
  init: "tso_reach fenced rb tso_init"
| prod: "tso_reach fenced rb s \<Longrightarrow> tso_prod fenced rb s s' \<Longrightarrow> tso_reach fenced rb s'"
| cons: "tso_reach fenced rb s \<Longrightarrow> tso_cons rb s s' \<Longrightarrow> tso_reach fenced rb s'"
| small: "tso_reach fenced rb s \<Longrightarrow> tso_small s s' \<Longrightarrow> tso_reach fenced rb s'"
| stir: "tso_reach fenced rb s \<Longrightarrow> tso_stir s s' \<Longrightarrow> tso_reach fenced rb s'"

subsection \<open>Without the fence\<close>

text \<open>A producer asleep on an empty ring, its flag up, both buffers empty, the consumer before its loads.\<close>

definition tso_stuck :: tso_sys where
  "tso_stuck = \<lparr>ts_prod = PAsleep, ts_cons = CLoad, ts_mem = [], ts_flag = 1, ts_parks = 1, ts_pbuf = [], ts_cbuf = 0\<rparr>"

text \<open>No step of either side leaves it.\<close>

lemma tso_stuck_steps: "\<not> tso_cons rb tso_stuck s'" "\<not> tso_prod fenced rb tso_stuck s'" "\<not> tso_small tso_stuck s'"
  by (auto simp: tso_stuck_def cons_view_def elim: tso_consE tso_prodE tso_small.cases)

lemma high_le_capacity: "ring_geom rb k \<Longrightarrow> unat (high_watermark rb) \<le> unat (rb_capacity rb)"
  using watermark_unat(2) [of rb k] geom_unat [of rb k] by simp

lemma tso_stuck_reach:
  assumes "ring_geom rb k" shows "tso_reach False rb tso_stuck"
proof -
  let ?c = "unat (rb_capacity rb)"
  let ?st = "\<lambda>p c m f k b t. \<lparr>ts_prod = p, ts_cons = c, ts_mem = m, ts_flag = f, ts_parks = k, ts_pbuf = b, ts_cbuf = t\<rparr>"
  have c: "5 \<le> ?c" "unat (high_watermark rb) \<le> ?c" "0 < unat (low_watermark rb)"
    using geom_unat [OF assms] geom_bounds(1) [OF assms] high_le_capacity [OF assms] watermark_pos [OF assms]
    by (simp_all add: word_less_nat_alt)
  note P = tso_reach.prod [where fenced = False and rb = rb] and C = tso_reach.cons [where fenced = False and rb = rb]
  have "tso_reach False rb (?st PSend CLoad [] 0 0 [SHead [Rec ?c]] 0)"
    using P [OF tso_reach.init] tso_prod.push [of tso_init ?c "[Rec ?c]" 0 rb False] c(1)
    by (simp add: tso_init_def prod_used_def)
  then have "tso_reach False rb (?st PSend CLoad [Rec ?c] 0 0 [] 0)"
    using P tso_prod.drain_head [of "?st PSend CLoad [] 0 0 [SHead [Rec ?c]] 0"] by fastforce
  then have "tso_reach False rb (?st PCheck CLoad [Rec ?c] 0 0 [] 0)"
    using P tso_prod.wait [of "?st PSend CLoad [Rec ?c] 0 0 [] 0"] by fastforce
  then have "tso_reach False rb (?st PArm CLoad [Rec ?c] 0 0 [] 0)"
    using P tso_prod.check_full [of "?st PCheck CLoad [Rec ?c] 0 0 [] 0"] c(2) by (fastforce simp: prod_used_def)
  then have "tso_reach False rb (?st PRecheck CLoad [Rec ?c] 0 0 [SFlag 1] 0)"
    using P tso_prod.arm [of "?st PArm CLoad [Rec ?c] 0 0 [] 0"] by fastforce
  \<comment> \<open>the load of \<open>tail\<close> overtakes the store of the flag\<close>
  then have "tso_reach False rb (?st PCount CLoad [Rec ?c] 0 0 [SFlag 1] 0)"
    using P tso_prod.recheck_full [of "?st PRecheck CLoad [Rec ?c] 0 0 [SFlag 1] 0" False] c(2)
    by (fastforce simp: prod_used_def)
  then have "tso_reach False rb (?st PCount (CGot ?c) [Rec ?c] 0 0 [SFlag 1] 0)"
    using C tso_cons.loads [of "?st PCount CLoad [Rec ?c] 0 0 [SFlag 1] 0"] by (fastforce simp: cons_view_def)
  then have "tso_reach False rb (?st PCount (CStored True) [Rec ?c] 0 0 [SFlag 1] 1)"
    using C tso_cons.pop [of "?st PCount (CGot ?c) [Rec ?c] 0 0 [SFlag 1] 0" ?c ?c "[]" rb] c(3)
    by (fastforce simp: cons_view_def)
  then have "tso_reach False rb (?st PCount (CStored True) [] 0 0 [SFlag 1] 0)"
    using C tso_cons.drain_tail [of "?st PCount (CStored True) [Rec ?c] 0 0 [SFlag 1] 1"] by fastforce
  \<comment> \<open>the exchange misses the flag\<close>
  then have "tso_reach False rb (?st PCount CLoad [] 0 0 [SFlag 1] 0)"
    using C tso_cons.exchange_0 [of "?st PCount (CStored True) [] 0 0 [SFlag 1] 0"] by fastforce
  then have "tso_reach False rb (?st PCount CLoad [] 1 0 [] 0)"
    using P tso_prod.drain_flag [of "?st PCount CLoad [] 0 0 [SFlag 1] 0"] by fastforce
  then have "tso_reach False rb (?st PFutex CLoad [] 1 1 [] 0)"
    using P tso_prod.count [of "?st PCount CLoad [] 1 0 [] 0"] by fastforce
  then show ?thesis
    using P tso_prod.futex_sleep [of "?st PFutex CLoad [] 1 1 [] 0"] by (fastforce simp: tso_stuck_def)
qed

subsection \<open>With the fence\<close>

text \<open>
  The invariant of the protocol under sequential consistency, over the consumer's view. The buffer is
  empty when the producer is past the fence; and a view that the consumer has emptied while
  \<open>tail\<close> is still on its way is followed by the exchange.
\<close>

definition tso_covered :: "tso_sys \<Rightarrow> bool" where
  "tso_covered s \<longleftrightarrow> cons_view s \<noteq> [] \<or> ts_cons s = CStored True"

fun pstore_ok :: "pstore \<Rightarrow> bool" where
  "pstore_ok (SHead fs) \<longleftrightarrow> (\<exists>n p. 0 < n \<and> (fs = [Rec n] \<or> fs = [Pad p, Rec n]))"
| "pstore_ok (SFlag v) \<longleftrightarrow> v \<in> {0, 1}"

definition tso_inv :: "tso_sys \<Rightarrow> bool" where
  "tso_inv s \<longleftrightarrow> wf_frames (cons_view s) \<and> ts_cbuf s \<le> length (ts_mem s) \<and>
    list_all pstore_ok (ts_pbuf s) \<and> ts_flag s \<in> {0, 1} \<and>
    (\<forall>u. ts_cons s = CGot u \<longrightarrow> u \<le> frames_used (cons_view s) \<and> cons_view s \<noteq> []) \<and>
    (ts_cbuf s \<noteq> 0 \<longrightarrow> tso_covered s) \<and>
    (ts_prod s \<in> {PCount, PFutex, PAsleep} \<longrightarrow> ts_pbuf s = []) \<and>
    (ts_prod s = PAsleep \<longrightarrow> ts_flag s = 1 \<and> tso_covered s \<or> ts_flag s = 0 \<and> ts_cons s = CWake) \<and>
    (ts_prod s \<in> {PCount, PFutex} \<longrightarrow> ts_flag s = 0 \<or> tso_covered s)"

lemma tso_init_inv: "tso_inv tso_init"
  by (simp add: tso_init_def tso_inv_def cons_view_def)

lemma drain_head_view: "ts_cbuf s \<le> length (ts_mem s) \<Longrightarrow>
    cons_view (s\<lparr>ts_mem := ts_mem s @ fs, ts_pbuf := xs\<rparr>) = cons_view s @ fs"
  by (simp add: cons_view_def)

lemma tso_prod_inv:
  assumes "tso_prod True rb s s'" "tso_inv s" "0 < unat (high_watermark rb)"
  shows "tso_inv s'"
  using assms(1)
proof (cases rule: tso_prod.cases)
  case (push n new p)
  then have "pstore_ok (SHead new)" by auto
  then show ?thesis using push assms(2) by (auto simp: tso_inv_def tso_covered_def)
next
  case recheck_full
  then have "ts_mem s \<noteq> []" using assms(3) by (auto simp: prod_used_def)
  then have "tso_covered s" using assms(2) by (cases "ts_cbuf s = 0") (auto simp: tso_inv_def tso_covered_def cons_view_def)
  then show ?thesis using recheck_full assms(2) by (auto simp: tso_inv_def tso_covered_def)
next
  case (drain_head fs xs)
  have len: "ts_cbuf s \<le> length (ts_mem s)" using assms(2) by (simp add: tso_inv_def)
  have view: "cons_view s' = cons_view s @ fs" unfolding drain_head(1) by (rule drain_head_view [OF len])
  have "pstore_ok (SHead fs)" using drain_head(2) assms(2) by (simp add: tso_inv_def)
  then obtain n p where "0 < n" "fs = [Rec n] \<or> fs = [Pad p, Rec n]" by auto
  then have "wf_frames (cons_view s @ fs)" "fs \<noteq> []"
    using wf_frames_push [of "cons_view s" n p] assms(2) by (auto simp: tso_inv_def)
  have eqs: "ts_prod s' = ts_prod s" "ts_cons s' = ts_cons s" "ts_flag s' = ts_flag s"
    "ts_cbuf s' = ts_cbuf s" "ts_pbuf s' = xs" by (simp_all add: drain_head(1))
  note I = assms(2) [unfolded tso_inv_def tso_covered_def]
  have a: "ts_cbuf s' \<le> length (ts_mem s')" using len by (simp add: drain_head(1))
  have b: "u \<le> frames_used (cons_view s)" if "ts_cons s = CGot u" for u using I that by blast
  have c: "ts_prod s \<notin> {PCount, PFutex, PAsleep}" using I drain_head(2) by fastforce
  have d: "list_all pstore_ok xs" using I drain_head(2) by simp
  have e: "ts_flag s \<in> {0, 1}" using I by blast
  show ?thesis unfolding tso_inv_def tso_covered_def view eqs
    using a [unfolded eqs] b c d e \<open>wf_frames (cons_view s @ fs)\<close> \<open>fs \<noteq> []\<close>
    by (intro conjI allI impI) (simp_all add: trans_le_add1)
next
  case futex_again
  have "tso_inv (s\<lparr>ts_prod := PCheck\<rparr>)" using assms(2) by (auto simp: tso_inv_def tso_covered_def)
  then show ?thesis using futex_again(1) by simp
next
  case futex_sleep
  have "ts_flag s = 0 \<or> tso_covered s" using assms(2) futex_sleep(2) by (simp add: tso_inv_def)
  then have "tso_covered s" using futex_sleep(4) by simp
  then have "tso_inv (s\<lparr>ts_prod := PAsleep\<rparr>)"
    using assms(2) futex_sleep(3,4) by (simp add: tso_inv_def tso_covered_def)
  then show ?thesis using futex_sleep(1) by simp
next
  case (drain_flag v xs)
  then show ?thesis using assms(2) by (simp add: tso_inv_def tso_covered_def)
qed (use assms(2) in \<open>auto simp: tso_inv_def tso_covered_def\<close>)

lemma tso_stir_inv: "tso_stir s s' \<Longrightarrow> tso_inv s \<Longrightarrow> tso_inv s'"
  by (erule tso_stir.cases) (auto simp: tso_inv_def tso_covered_def)

lemma tso_small_inv: "tso_small s s' \<Longrightarrow> tso_inv s \<Longrightarrow> tso_inv s'"
  by (erule tso_small.cases) (auto simp: tso_inv_def tso_covered_def)

lemma drop_Cons_tl: "drop k xs = y # ys \<Longrightarrow> drop (Suc k) xs = ys \<and> Suc k \<le> length xs"
proof (induction k arbitrary: xs)
  case (Suc k)
  then show ?case by (cases xs) auto
qed simp

lemma tso_cons_inv:
  assumes "tso_cons rb s s'" "tso_inv s" "0 < unat (low_watermark rb)"
  shows "tso_inv s'"
  using assms(1)
proof (cases rule: tso_cons.cases)
  case (skip_pad u p fs)
  then obtain n fs' where fs: "fs = Rec n # fs'" "0 < n" "wf_frames fs'"
    using assms(2) by (cases "Pad p # fs" rule: wf_frames.cases) (auto simp: tso_inv_def)
  have "cons_view s' = fs" "ts_cbuf s' \<le> length (ts_mem s')"
    using skip_pad drop_Cons_tl [of "ts_cbuf s" "ts_mem s"] by (simp_all add: cons_view_def)
  then show ?thesis using skip_pad fs assms(2) by (auto simp: tso_inv_def tso_covered_def)
next
  case (pop u n fs)
  have view: "cons_view s' = fs" "ts_cbuf s' \<le> length (ts_mem s')"
    using pop drop_Cons_tl [of "ts_cbuf s" "ts_mem s"] by (simp_all add: cons_view_def)
  have "fs = [] \<Longrightarrow> u - n < unat (low_watermark rb)"
    using pop assms(2,3) by (auto simp: tso_inv_def)
  moreover have "wf_frames fs" using pop assms(2) by (auto simp: tso_inv_def)
  ultimately show ?thesis using pop view assms(2) by (auto simp: tso_inv_def tso_covered_def)
next
  case (drain_tail k f fs)
  have "cons_view s' = cons_view s" using drain_tail by (simp add: cons_view_def)
  then show ?thesis using drain_tail assms(2) by (auto simp: tso_inv_def tso_covered_def)
qed (use assms(2) in \<open>auto simp: tso_inv_def tso_covered_def\<close>)

lemma tso_reach_inv:
  assumes "tso_reach True rb s" "ring_geom rb k" shows "tso_inv s"
  using assms(1)
proof induction
  case init
  show ?case by (rule tso_init_inv)
next
  case (prod s s')
  have "0 < unat (high_watermark rb)" using watermark_pos [OF assms(2)] by (simp add: word_less_nat_alt)
  then show ?case using tso_prod_inv prod by blast
next
  case (cons s s')
  have "0 < unat (low_watermark rb)" using watermark_pos [OF assms(2)] by (simp add: word_less_nat_alt)
  then show ?case using tso_cons_inv cons by blast
next
  case (small s s')
  then show ?case using tso_small_inv by blast
next
  case (stir s s')
  then show ?case using tso_stir_inv by blast
qed

text \<open>What a covered sleeper may rely on: the consumer can step.\<close>

lemma tso_asleep_cons_enabled:
  assumes "tso_inv s" "ts_prod s = PAsleep" shows "\<exists>s'. tso_cons rb s s'"
proof (cases "ts_cons s")
  case CLoad
  then have "cons_view s \<noteq> []" using assms by (auto simp: tso_inv_def tso_covered_def)
  then show ?thesis using CLoad tso_cons.loads by blast
next
  case (CGot u)
  then obtain f fs where fs: "cons_view s = f # fs" using assms by (cases "cons_view s") (auto simp: tso_inv_def)
  show ?thesis
  proof (cases f)
    case (Pad p) then show ?thesis using CGot fs tso_cons.skip_pad by blast
  next
    case (Rec n) then show ?thesis using CGot fs tso_cons.pop by blast
  qed
next
  case (CStored b)
  show ?thesis
  proof (cases "ts_cbuf s")
    case 0
    then show ?thesis using CStored tso_cons.keep tso_cons.exchange_0 tso_cons.exchange_1
      by (cases b; cases "ts_flag s = 0") (metis (full_types))+
  next
    case (Suc n)
    then obtain f fs where "ts_mem s = f # fs" using assms(1) by (cases "ts_mem s") (auto simp: tso_inv_def)
    then show ?thesis using Suc tso_cons.drain_tail by blast
  qed
next
  case CWake
  then show ?thesis using tso_cons.wake by blast
qed

text \<open>The consumer alone comes to an end.\<close>

definition tso_left :: "tso_sys \<Rightarrow> nat" where
  "tso_left s = 5 * length (cons_view s) + ts_cbuf s + cons_phase (ts_cons s)"

lemma tso_cons_left:
  assumes "tso_cons rb s s'" shows "tso_left s' < tso_left s"
  using assms
proof (cases rule: tso_cons.cases)
  case (skip_pad u p fs)
  then have "cons_view s' = fs" using drop_Cons_tl [of "ts_cbuf s" "ts_mem s"] by (simp add: cons_view_def)
  then show ?thesis using skip_pad by (simp add: tso_left_def)
next
  case (pop u n fs)
  then have "cons_view s' = fs" using drop_Cons_tl [of "ts_cbuf s" "ts_mem s"] by (simp add: cons_view_def)
  then show ?thesis using pop by (simp add: tso_left_def)
next
  case (drain_tail k f fs)
  then have "cons_view s' = cons_view s" by (simp add: cons_view_def)
  then show ?thesis using drain_tail by (simp add: tso_left_def)
qed (simp_all add: tso_left_def)

interpretation tso_popping: draining "tso_cons rb" tso_left "tso_reach fenced rb" for fenced rb
  by unfold_locales (auto intro: tso_reach.cons simp: tso_cons_left)

lemma tso_left_bound: "tso_inv s \<Longrightarrow> tso_left s \<le> 5 * length (ts_mem s) + 4"
proof -
  assume "tso_inv s"
  then have "ts_cbuf s \<le> length (ts_mem s)" by (simp add: tso_inv_def)
  moreover have "cons_phase (ts_cons s) \<le> 4" by (cases "ts_cons s") auto
  ultimately show ?thesis by (simp add: tso_left_def cons_view_def)
qed

subsection \<open>Properties\<close>

text \<open>C17: The release store of the flag does not stop the acquire load of \<open>tail\<close> behind it from
  overtaking it: on total store order the protocol of the code deadlocks on every ring. The
  producer sleeps with the flag up on an empty ring with every store in memory, and neither side
  has a step; only a spurious return or a signal ends the sleep.\<close>

lemma tso_lost_wakeup:
  assumes "ring_geom rb k"
  shows "\<exists>s. tso_reach False rb s \<and> ts_prod s = PAsleep \<and> ts_flag s = 1 \<and> ts_mem s = [] \<and>
    ts_pbuf s = [] \<and> ts_cbuf s = 0 \<and> (\<forall>s'. \<not> tso_prod False rb s s' \<and> \<not> tso_cons rb s s' \<and> \<not> tso_small s s')"
  using tso_stuck_reach [OF assms] tso_stuck_steps
  by (intro exI [of _ tso_stuck]) (simp add: tso_stuck_def)


lemma tso_lost_wakeup_witness:
  "\<exists>s. tso_reach False page_ring s \<and> ts_prod s = PAsleep \<and> ts_mem s = [] \<and> (\<forall>s'. \<not> tso_cons page_ring s s')"
  using tso_lost_wakeup [OF page_geom] by blast

definition tso_page_asleep :: tso_sys where
  "tso_page_asleep = \<lparr>ts_prod = PAsleep, ts_cons = CLoad, ts_mem = [Rec 4000], ts_flag = 1, ts_parks = 1,
    ts_pbuf = [], ts_cbuf = 0\<rparr>"

lemma tso_page_asleep_reach: "tso_reach True page_ring tso_page_asleep"
proof -
  let ?st = "\<lambda>p m f k b. \<lparr>ts_prod = p, ts_cons = CLoad, ts_mem = m, ts_flag = f, ts_parks = k, ts_pbuf = b, ts_cbuf = 0\<rparr>"
  note P = tso_reach.prod [where fenced = True and rb = page_ring]
  have "tso_reach True page_ring (?st PSend [] 0 0 [SHead [Rec 4000]])"
    using P [OF tso_reach.init] tso_prod.push [of tso_init 4000 "[Rec 4000]" 0 page_ring True]
    by (simp add: tso_init_def prod_used_def page_cap)
  then have "tso_reach True page_ring (?st PSend [Rec 4000] 0 0 [])"
    using P tso_prod.drain_head [of "?st PSend [] 0 0 [SHead [Rec 4000]]"] by fastforce
  then have "tso_reach True page_ring (?st PCheck [Rec 4000] 0 0 [])"
    using P tso_prod.wait [of "?st PSend [Rec 4000] 0 0 []"] by fastforce
  then have "tso_reach True page_ring (?st PArm [Rec 4000] 0 0 [])"
    using P tso_prod.check_full [of "?st PCheck [Rec 4000] 0 0 []"] by (fastforce simp: prod_used_def page_high)
  then have "tso_reach True page_ring (?st PRecheck [Rec 4000] 0 0 [SFlag 1])"
    using P tso_prod.arm [of "?st PArm [Rec 4000] 0 0 []"] by fastforce
  then have "tso_reach True page_ring (?st PRecheck [Rec 4000] 1 0 [])"
    using P tso_prod.drain_flag [of "?st PRecheck [Rec 4000] 0 0 [SFlag 1]"] by fastforce
  then have "tso_reach True page_ring (?st PCount [Rec 4000] 1 0 [])"
    using P tso_prod.recheck_full [of "?st PRecheck [Rec 4000] 1 0 []" True] by (fastforce simp: prod_used_def page_high)
  then have "tso_reach True page_ring (?st PFutex [Rec 4000] 1 1 [])"
    using P tso_prod.count [of "?st PCount [Rec 4000] 1 0 []"] by fastforce
  then show ?thesis
    using P tso_prod.futex_sleep [of "?st PFutex [Rec 4000] 1 1 []"] by (fastforce simp: tso_page_asleep_def)
qed


end
