(* ===== verification/FutexEmu.thy ===== *)
theory FutexEmu
  imports WakeProtocol Runs
begin

text \<open>
  The futex emulation that \<open>src/shm_ringbuffer.c\<close> compiles where there is no futex: a
  process-shared mutex and condition variable beside the flag. Its initialisation with every
  error path, and the wait and wake as steps of the flow-control protocol, which they refine: the
  mutex makes the comparison of the flag and the sleep one step, as the kernel does.
\<close>

subsection \<open>Initialisation\<close>

text \<open>What the \<open>pthread\<close> calls answer, an error number or 0.\<close>

record pthread_env =
  pe_mutexattr_init :: int
  pe_mutexattr_setpshared :: int
  pe_mutex_init :: int
  pe_condattr_init :: int
  pe_condattr_setpshared :: int
  pe_cond_init :: int

text \<open>The structure, with what is initialised in it.\<close>

record futex_compat_emu =
  em_flag :: int
  em_mtx :: bool
  em_cnd :: bool
  em_ready :: bool

text \<open>The result: the code, the structure, whether the two attribute objects are left alive.\<close>

definition futex_compat_emu_init ::
  "pthread_env \<Rightarrow> futex_compat_emu \<Rightarrow> int \<times> futex_compat_emu \<times> bool \<times> bool" where
  "futex_compat_emu_init e f =
    (if pe_mutexattr_init e \<noteq> 0 then (- pe_mutexattr_init e, f, False, False) else
     let ma = True in
     if pe_mutexattr_setpshared e \<noteq> 0 then
       let ma = False in (- pe_mutexattr_setpshared e, f, ma, False)
     else
     let rc = pe_mutex_init e; f = (if rc = 0 then f\<lparr>em_mtx := True\<rparr> else f); ma = False in
     if rc \<noteq> 0 then (- rc, f, ma, False) else
     if pe_condattr_init e \<noteq> 0 then (- pe_condattr_init e, f\<lparr>em_mtx := False\<rparr>, ma, False) else
     let ca = True in
     if pe_condattr_setpshared e \<noteq> 0 then
       let ca = False in (- pe_condattr_setpshared e, f\<lparr>em_mtx := False\<rparr>, ma, ca)
     else
     let rc = pe_cond_init e; f = (if rc = 0 then f\<lparr>em_cnd := True\<rparr> else f); ca = False in
     if rc \<noteq> 0 then (- rc, f\<lparr>em_mtx := False\<rparr>, ma, ca) else
     (0, f\<lparr>em_flag := 0, em_ready := True\<rparr>, ma, ca))"

subsection \<open>Wait and wake\<close>

text \<open>
  Where the producer stands inside \<open>futex_compat_emu_wait\<close>: not in it (or before the lock), before
  the load of the flag, before \<open>pthread_cond_wait\<close>, in it, woken and waiting for the mutex, before
  the unlock with its result. The consumer inside \<open>futex_compat_emu_wake\<close>, behind the exchange:
  before the lock, before the broadcast, before the unlock.
\<close>

datatype emu_wait_pc = EOut | ETest | EReady | ECond | EWoken | EUnlock int

datatype emu_wake_pc = KOut | KBroadcast | KUnlock

datatype emu_owner = Waiter | Waker

record emu_sys =
  es_flow :: flow_sys
  es_wait :: emu_wait_pc
  es_wake :: emu_wake_pc
  es_mutex :: "emu_owner option"

definition emu_init :: emu_sys where
  "emu_init = \<lparr>es_flow = flow_init, es_wait = EOut, es_wake = KOut, es_mutex = None\<rparr>"

text \<open>
  The steps. The caller's steps are those of the protocol outside the futex calls. The structure is
  initialised (the producer does that when it maps the ring) and locking a valid mutex succeeds.
\<close>

inductive emu_step :: "shm_ring \<Rightarrow> emu_sys \<Rightarrow> emu_sys \<Rightarrow> bool" for rb where
  producer: "es_wait s = EOut \<Longrightarrow> fs_prod (es_flow s) \<notin> {PFutex, PAsleep} \<Longrightarrow> prod_step rb (es_flow s) f \<Longrightarrow>
    emu_step rb s (s\<lparr>es_flow := f\<rparr>)"
| wait_lock: "es_wait s = EOut \<Longrightarrow> fs_prod (es_flow s) = PFutex \<Longrightarrow> es_mutex s = None \<Longrightarrow>
    emu_step rb s (s\<lparr>es_wait := ETest, es_mutex := Some Waiter\<rparr>)"
| wait_again: "es_wait s = ETest \<Longrightarrow> fs_flag (es_flow s) \<noteq> 1 \<Longrightarrow>
    emu_step rb s (s\<lparr>es_wait := EUnlock (- EAGAIN)\<rparr>)"
| wait_commit: "es_wait s = ETest \<Longrightarrow> fs_flag (es_flow s) = 1 \<Longrightarrow> emu_step rb s (s\<lparr>es_wait := EReady\<rparr>)"
| cond_wait: "es_wait s = EReady \<Longrightarrow> emu_step rb s (s\<lparr>es_wait := ECond, es_mutex := None\<rparr>)"
| cond_fails: "es_wait s = EReady \<Longrightarrow> emu_step rb s (s\<lparr>es_wait := EUnlock (- EINVAL)\<rparr>)"
| cond_spurious: "es_wait s = ECond \<Longrightarrow> emu_step rb s (s\<lparr>es_wait := EWoken\<rparr>)"
| cond_relock: "es_wait s = EWoken \<Longrightarrow> es_mutex s = None \<Longrightarrow>
    emu_step rb s (s\<lparr>es_wait := EUnlock 0, es_mutex := Some Waiter\<rparr>)"
| wait_returns: "es_wait s = EUnlock rc \<Longrightarrow>
    emu_step rb s (s\<lparr>es_wait := EOut, es_mutex := None,
      es_flow := (es_flow s)\<lparr>fs_prod := if rc = 0 \<or> rc = - EAGAIN then PCheck else PSend\<rparr>\<rparr>)"
| consumer: "es_wake s = KOut \<Longrightarrow> fs_cons (es_flow s) \<noteq> CWake \<Longrightarrow>
    cons_step rb (es_flow s) f \<or> cons_small (es_flow s) f \<Longrightarrow> emu_step rb s (s\<lparr>es_flow := f\<rparr>)"
| wake_lock: "es_wake s = KOut \<Longrightarrow> fs_cons (es_flow s) = CWake \<Longrightarrow> es_mutex s = None \<Longrightarrow>
    emu_step rb s (s\<lparr>es_wake := KBroadcast, es_mutex := Some Waker\<rparr>)"
| broadcast: "es_wake s = KBroadcast \<Longrightarrow>
    emu_step rb s (s\<lparr>es_wake := KUnlock, es_wait := if es_wait s = ECond then EWoken else es_wait s\<rparr>)"
| wake_returns: "es_wake s = KUnlock \<Longrightarrow>
    emu_step rb s (s\<lparr>es_wake := KOut, es_mutex := None, es_flow := (es_flow s)\<lparr>fs_cons := CLoad\<rparr>\<rparr>)"

inductive emu_reach :: "shm_ring \<Rightarrow> emu_sys \<Rightarrow> bool" for rb where
  init: "emu_reach rb emu_init"
| step: "emu_reach rb s \<Longrightarrow> emu_step rb s s' \<Longrightarrow> emu_reach rb s'"

subsection \<open>The futex state of a state of the emulation\<close>

fun wait_abs :: "emu_wait_pc \<Rightarrow> prod_pc \<Rightarrow> prod_pc" where
  "wait_abs EOut p = p"
| "wait_abs ETest p = PFutex"
| "wait_abs EReady p = PAsleep"
| "wait_abs ECond p = PAsleep"
| "wait_abs EWoken p = PCheck"
| "wait_abs (EUnlock rc) p = (if rc = 0 \<or> rc = - EAGAIN then PCheck else PSend)"

fun wake_abs :: "emu_wake_pc \<Rightarrow> cons_pc \<Rightarrow> cons_pc" where
  "wake_abs KUnlock c = CLoad"
| "wake_abs _ c = c"

definition emu_abs :: "emu_sys \<Rightarrow> flow_sys" where
  "emu_abs s = (es_flow s)\<lparr>fs_prod := wait_abs (es_wait s) (fs_prod (es_flow s)),
     fs_cons := wake_abs (es_wake s) (fs_cons (es_flow s))\<rparr>"

text \<open>The mutex is held exactly in the critical sections, and the callers stand at their calls.\<close>

definition mutex_inv :: "emu_sys \<Rightarrow> bool" where
  "mutex_inv s \<longleftrightarrow>
     (es_mutex s = Some Waiter \<longleftrightarrow> es_wait s \<in> {ETest, EReady} \<or> (\<exists>rc. es_wait s = EUnlock rc)) \<and>
     (es_mutex s = Some Waker \<longleftrightarrow> es_wake s \<noteq> KOut) \<and>
     (es_wait s \<noteq> EOut \<longrightarrow> fs_prod (es_flow s) = PFutex) \<and>
     (es_wait s = EOut \<longrightarrow> fs_prod (es_flow s) \<noteq> PAsleep) \<and>
     (es_wake s \<noteq> KOut \<longrightarrow> fs_cons (es_flow s) = CWake)"

lemma emu_init_inv: "mutex_inv emu_init"
  by (simp add: mutex_inv_def emu_init_def flow_init_def)

lemma prod_step_cons: "prod_step rb f f' \<Longrightarrow> fs_cons f' = fs_cons f \<or> fs_prod f = PAsleep"
  by (auto elim!: prod_stepE)

lemma emu_step_inv: "emu_step rb s s' \<Longrightarrow> mutex_inv s \<Longrightarrow> mutex_inv s'"
proof (induction rule: emu_step.induct)
  case (producer s f)
  have "fs_cons f = fs_cons (es_flow s)" "fs_prod f \<noteq> PAsleep"
    using producer by (auto elim!: prod_stepE)
  then show ?case using producer by (auto simp: mutex_inv_def)
next
  case (consumer s f)
  have "fs_prod f = fs_prod (es_flow s)"
    using consumer by (auto elim!: cons_stepE cons_smallE)
  then show ?case using consumer by (auto simp: mutex_inv_def)
qed (auto simp: mutex_inv_def)

text \<open>The protocol's steps do not read the other side's program counter.\<close>

lemma prod_step_frame:
  assumes "prod_step rb f f'" "fs_prod f \<notin> {PFutex, PAsleep}"
  shows "prod_step rb (f\<lparr>fs_cons := c\<rparr>) (f'\<lparr>fs_cons := c\<rparr>)"
  using assms(1)
proof (cases rule: prod_step.cases)
  case (push n new p)
  have "f\<lparr>fs_cons := c, fs_frames := fs_frames f @ new\<rparr> = f'\<lparr>fs_cons := c\<rparr>" using push(1) by simp
  then show ?thesis using prod_step.push [of "f\<lparr>fs_cons := c\<rparr>" n new p rb] push(2-) by fastforce
qed (use assms(2) in \<open>auto simp: prod_step.simps\<close>)

lemma cons_step_frame:
  assumes "cons_step rb f f'" "fs_cons f \<noteq> CWake"
  shows "cons_step rb (f\<lparr>fs_prod := p\<rparr>) (f'\<lparr>fs_prod := p\<rparr>)"
  using assms by (cases rule: cons_step.cases) (auto simp: cons_step.simps)

lemma cons_small_frame: "cons_small f f' \<Longrightarrow> cons_small (f\<lparr>fs_prod := p\<rparr>) (f'\<lparr>fs_prod := p\<rparr>)"
  by (auto simp: cons_small.simps)

subsection \<open>The simulation\<close>

text \<open>Every step of the emulation is a step of the futex protocol or leaves its state alone.\<close>

lemma emu_sim_prod:
  "prod_step rb (emu_abs s) g \<Longrightarrow> emu_abs s' = g \<Longrightarrow>
    flow_step rb (emu_abs s) (emu_abs s') \<or> emu_abs s' = emu_abs s"
  by (simp add: flow_step_def)

lemma emu_step_sim:
  assumes "emu_step rb s s'" "mutex_inv s"
  shows "flow_step rb (emu_abs s) (emu_abs s') \<or> emu_abs s' = emu_abs s"
  using assms(1)
proof (cases rule: emu_step.cases)
  case (producer f)
  have "fs_cons f = fs_cons (es_flow s)" using producer by (auto elim!: prod_stepE)
  then have "emu_abs s' = f\<lparr>fs_cons := wake_abs (es_wake s) (fs_cons (es_flow s))\<rparr>"
    "emu_abs s = (es_flow s)\<lparr>fs_cons := wake_abs (es_wake s) (fs_cons (es_flow s))\<rparr>"
    using producer by (simp_all add: emu_abs_def)
  then show ?thesis using prod_step_frame [OF producer(4,3)] by (simp add: flow_step_def)
next
  case (consumer f)
  have "fs_prod f = fs_prod (es_flow s)" using consumer by (auto elim!: cons_stepE cons_smallE)
  then have "emu_abs s' = f\<lparr>fs_prod := wait_abs (es_wait s) (fs_prod (es_flow s))\<rparr>"
    "emu_abs s = (es_flow s)\<lparr>fs_prod := wait_abs (es_wait s) (fs_prod (es_flow s))\<rparr>"
    using consumer by (simp_all add: emu_abs_def)
  then show ?thesis using consumer(3,4) cons_step_frame cons_small_frame by (auto simp: flow_step_def)
next
  case wait_again
  have "prod_step rb (emu_abs s) ((emu_abs s)\<lparr>fs_prod := PCheck\<rparr>)"
    by (rule prod_step.futex_again) (simp_all add: emu_abs_def wait_again)
  then show ?thesis by (rule emu_sim_prod) (simp add: emu_abs_def wait_again)
next
  case wait_commit
  have "prod_step rb (emu_abs s) ((emu_abs s)\<lparr>fs_prod := PAsleep\<rparr>)"
    by (rule prod_step.futex_sleep) (simp_all add: emu_abs_def wait_commit)
  then show ?thesis by (rule emu_sim_prod) (simp add: emu_abs_def wait_commit)
next
  case cond_fails
  have "prod_step rb (emu_abs s) ((emu_abs s)\<lparr>fs_prod := PSend\<rparr>)"
    by (rule prod_step.signalled) (simp_all add: emu_abs_def cond_fails)
  then show ?thesis by (rule emu_sim_prod) (simp add: emu_abs_def cond_fails errno_defs)
next
  case cond_spurious
  have "prod_step rb (emu_abs s) ((emu_abs s)\<lparr>fs_prod := PCheck\<rparr>)"
    by (rule prod_step.spurious) (simp_all add: emu_abs_def cond_spurious)
  then show ?thesis by (rule emu_sim_prod) (simp add: emu_abs_def cond_spurious)
next
  case broadcast
  let ?g = "(emu_abs s)\<lparr>fs_cons := CLoad,
      fs_prod := if fs_prod (emu_abs s) = PAsleep then PCheck else fs_prod (emu_abs s)\<rparr>"
  have m: "es_wait s \<noteq> EReady" "fs_cons (es_flow s) = CWake"
    using broadcast assms(2) by (auto simp: mutex_inv_def)
  have p: "fs_prod (es_flow s) \<noteq> PAsleep \<or> es_wait s \<noteq> EOut"
    using assms(2) by (auto simp: mutex_inv_def)
  have "cons_step rb (emu_abs s) ?g"
    by (rule cons_step.wake) (simp add: emu_abs_def broadcast m)
  moreover have "emu_abs s' = ?g"
    using m(1) p broadcast by (cases "es_wait s") (auto simp: emu_abs_def)
  ultimately show ?thesis by (simp add: flow_step_def)
qed (use assms(2) in \<open>auto simp: emu_abs_def mutex_inv_def\<close>)

interpretation emu: simulation "emu_step rb" "flow_step rb" emu_abs mutex_inv for rb
  by unfold_locales (use emu_step_inv emu_step_sim in blast)+

lemma emu_reach_steps: "emu_reach rb s \<Longrightarrow> (emu_step rb)\<^sup>*\<^sup>* emu_init s"
  by (induction rule: emu_reach.induct) auto

lemma flow_steps_reach: "(flow_step rb)\<^sup>*\<^sup>* f f' \<Longrightarrow> flow_reach rb f \<Longrightarrow> flow_reach rb f'"
  by (induction rule: rtranclp_induct) (auto intro: flow_reach.step)

lemma emu_reach_flow: "emu_reach rb s \<Longrightarrow> flow_reach rb (emu_abs s)"
proof -
  assume "emu_reach rb s"
  from emu.sim_run [OF emu_reach_steps [OF this] emu_init_inv]
  have "(flow_step rb)\<^sup>*\<^sup>* flow_init (emu_abs s)" by (simp add: emu_abs_def emu_init_def)
  then show ?thesis using flow_reach.init by (rule flow_steps_reach)
qed

subsection \<open>Properties\<close>


text \<open>Initialisation is all or nothing: it returns 0 exactly when every call succeeds, with the
  flag down, the mutex and the condition variable initialised and ready published; otherwise it
  returns the negated error number of the first call that failed, with nothing left initialised
  and ready unset. No attribute object survives.\<close>

lemma futex_compat_emu_init_clean:
  assumes "\<not> em_mtx f" "\<not> em_cnd f" "\<not> em_ready f" "futex_compat_emu_init e f = (rc, f', ma, ca)"
  shows "\<not> ma \<and> \<not> ca \<and>
    (let rcs = [pe_mutexattr_init e, pe_mutexattr_setpshared e, pe_mutex_init e,
         pe_condattr_init e, pe_condattr_setpshared e, pe_cond_init e];
         bad = filter (\<lambda>r. r \<noteq> 0) rcs
     in if bad = [] then rc = 0 \<and> em_flag f' = 0 \<and> em_mtx f' \<and> em_cnd f' \<and> em_ready f'
        else rc = - hd bad \<and> em_flag f' = em_flag f \<and> \<not> em_mtx f' \<and> \<not> em_cnd f' \<and> \<not> em_ready f')"
  using assms by (auto simp: futex_compat_emu_init_def Let_def split: if_splits)

definition emu_asleep :: emu_sys where
  "emu_asleep = \<lparr>es_flow = page_parking, es_wait = ECond, es_wake = KOut, es_mutex = None\<rparr>"

lemma emu_asleep_reach: "emu_reach page_ring emu_asleep"
proof -
  let ?st = "\<lambda>f w m. \<lparr>es_flow = f, es_wait = w, es_wake = KOut, es_mutex = m\<rparr>"
  have "emu_reach page_ring (?st page_parking EOut None)"
  proof (rule page_parking_induct)
    show "emu_reach page_ring (?st flow_init EOut None)"
      using emu_reach.init by (simp add: emu_init_def)
    show "emu_reach page_ring (?st f' EOut None)"
      if "emu_reach page_ring (?st f EOut None)" "prod_step page_ring f f'" "fs_prod f \<notin> {PFutex, PAsleep}"
      for f f'
      using emu_reach.step [OF that(1)] emu_step.producer [of "?st f EOut None" page_ring f'] that(2,3) by simp
  qed
  then have "emu_reach page_ring (?st page_parking ETest (Some Waiter))"
    using emu_reach.step emu_step.wait_lock [of "?st page_parking EOut None" page_ring]
    by (fastforce simp: page_parking_def)
  then have "emu_reach page_ring (?st page_parking EReady (Some Waiter))"
    using emu_reach.step emu_step.wait_commit [of "?st page_parking ETest (Some Waiter)" page_ring]
    by (fastforce simp: page_parking_def)
  then show ?thesis
    using emu_reach.step emu_step.cond_wait [of "?st page_parking EReady (Some Waiter)" page_ring]
    by (fastforce simp: emu_asleep_def)
qed


definition emu_fresh :: futex_compat_emu where
  "emu_fresh = \<lparr>em_flag = 0, em_mtx = False, em_cnd = False, em_ready = False\<rparr>"

definition emu_no_pshared :: pthread_env where
  "emu_no_pshared = \<lparr>pe_mutexattr_init = 0, pe_mutexattr_setpshared = 0, pe_mutex_init = 0,
     pe_condattr_init = 0, pe_condattr_setpshared = 22, pe_cond_init = 0\<rparr>"

lemma futex_compat_emu_init_clean_witness:
  "futex_compat_emu_init emu_no_pshared emu_fresh = (- 22, emu_fresh, False, False) \<and> \<not> em_mtx emu_fresh"
proof -
  have run: "futex_compat_emu_init emu_no_pshared emu_fresh = (- 22, emu_fresh, False, False)"
    by (simp add: futex_compat_emu_init_def emu_no_pshared_def emu_fresh_def)
  show ?thesis using futex_compat_emu_init_clean [OF _ _ _ run] run by (simp add: emu_fresh_def)
qed

end
