(* ===== verification/Binary64.thy ===== *)
theory Binary64
  imports Prelude "HOL-Library.Log_Nat"
begin

text \<open>
  The C \<open>double\<close>: IEEE-754 binary64 with rounding to nearest, ties to even, gradual
  underflow, infinities and one NaN. A finite value is the rational it denotes, so every
  operation is executable. The sign of zero is not kept: no division of the program has a
  zero divisor, and comparisons do not see it.

  \<open>fl\<close> is the rounding of an exact result (53 significant bits, least exponent -1074);
  \<open>round64\<close> adds the overflow to infinity. The lemmas are the ones the components rest on:
  rounding is monotone, leaves representable values alone, and a value within half an ulp
  of a power of two rounds to it.
\<close>

subsection \<open>Powers of two\<close>

abbreviation pw :: "int \<Rightarrow> rat" where "pw e \<equiv> 2 powi e"

lemma pw_pos [simp]: "0 < pw e" "0 \<le> pw e" "pw e \<noteq> 0"
  by simp_all

lemma pw_add: "pw (a + b) = pw a * pw b"
  by (rule power_int_add) simp

lemma pw_diff: "pw (a - b) = pw a / pw b"
  by (rule power_int_diff) simp

lemma pw_mono: "a \<le> b \<Longrightarrow> pw a \<le> pw b"
  by (rule power_int_increasing) simp_all

lemma pw_strict: "a < b \<Longrightarrow> pw a < pw b"
  by (rule power_int_strict_increasing) simp_all

lemma pw_le_iff [simp]: "pw a \<le> pw b \<longleftrightarrow> a \<le> b"
  by (meson linorder_not_less pw_mono pw_strict)

lemma pw_less_iff [simp]: "pw a < pw b \<longleftrightarrow> a < b"
  by (meson linorder_not_less pw_mono pw_strict)

lemma pw_int: "0 \<le> e \<Longrightarrow> pw e = of_int (2 ^ nat e)"
  by (simp add: power_int_def)

subsection \<open>Rounding to an integer, ties to even\<close>

definition rne :: "rat \<Rightarrow> int" where
  "rne x = (let n = \<lfloor>x\<rfloor>; d = x - of_int n in
     if d < 1 / 2 \<or> d = 1 / 2 \<and> even n then n else n + 1)"

lemma rne_of_int [simp]: "rne (of_int n) = n"
  by (simp add: rne_def)

lemma rne_error: "\<bar>of_int (rne x) - x\<bar> \<le> 1 / 2"
proof -
  have "rne x = \<lfloor>x\<rfloor> \<and> x - of_int \<lfloor>x\<rfloor> \<le> 1 / 2 \<or> rne x = \<lfloor>x\<rfloor> + 1 \<and> 1 / 2 \<le> x - of_int \<lfloor>x\<rfloor>"
    by (auto simp: rne_def Let_def)
  moreover have "of_int \<lfloor>x\<rfloor> \<le> x" "x < of_int \<lfloor>x\<rfloor> + 1" by linarith+
  ultimately show ?thesis by auto
qed

lemma rne_cases: "rne x = \<lfloor>x\<rfloor> \<or> rne x = \<lfloor>x\<rfloor> + 1"
  by (simp add: rne_def Let_def)

lemma rne_near: "\<bar>x - of_int n\<bar> < 1 / 2 \<Longrightarrow> rne x = n"
  using rne_error [of x] by linarith

lemma rne_tie_odd: "odd n \<Longrightarrow> rne (of_int n + 1 / 2) = n + 1"
proof -
  assume "odd n"
  moreover have "\<lfloor>of_int n + 1 / 2 :: rat\<rfloor> = n" by (rule floor_unique) simp_all
  ultimately show ?thesis by (simp add: rne_def)
qed

lemma rne_mono: "x \<le> y \<Longrightarrow> rne x \<le> rne y"
proof -
  assume xy: "x \<le> y"
  then have "\<lfloor>x\<rfloor> \<le> \<lfloor>y\<rfloor>" by (rule floor_mono)
  then consider "\<lfloor>x\<rfloor> + 1 \<le> \<lfloor>y\<rfloor>" | "\<lfloor>x\<rfloor> = \<lfloor>y\<rfloor>" by linarith
  then show ?thesis
  proof cases
    case 1
    then show ?thesis using rne_cases [of x] rne_cases [of y] by linarith
  next
    case 2
    with xy show ?thesis by (auto simp: rne_def Let_def)
  qed
qed

lemma rne_le: "x \<le> of_int n \<Longrightarrow> rne x \<le> n"
  using rne_mono [of x "of_int n"] by simp

lemma rne_ge: "of_int n \<le> x \<Longrightarrow> n \<le> rne x"
  using rne_mono [of "of_int n" x] by simp

lemma rne_minus: "rne (- x) = - rne x"
proof (cases "x = of_int \<lfloor>x\<rfloor>")
  case True
  then show ?thesis by (metis of_int_minus rne_of_int)
next
  case False
  have fl: "\<lfloor>- x\<rfloor> = - \<lfloor>x\<rfloor> - 1"
    using False by linarith
  show ?thesis by (auto simp: rne_def Let_def fl)
qed

subsection \<open>The exponent of a positive rational\<close>

definition ilog2 :: "rat \<Rightarrow> int" where
  "ilog2 x = (case quotient_of x of (p, q) \<Rightarrow>
     let e = bitlen p - bitlen q in if pw e \<le> x then e else e - 1)"

lemma ilog2_unique:
  assumes "pw a \<le> x" "x < pw (a + 1)" "pw b \<le> x" "x < pw (b + 1)"
  shows "a = b"
proof -
  have "pw a < pw (b + 1)" "pw b < pw (a + 1)" using assms by (blast intro: le_less_trans)+
  then show ?thesis by simp
qed

lemma bitlen_rat: "0 < p \<Longrightarrow> pw (bitlen p - 1) \<le> of_int p \<and> of_int p < pw (bitlen p)"
proof -
  assume p: "0 < p"
  then have "1 \<le> bitlen p"
    using bitlen_nonneg [of p] bitlen_eq_zero_iff [of p] by linarith
  moreover have "2 ^ nat (bitlen p - 1) \<le> p \<and> p < 2 ^ nat (bitlen p)"
    by (rule bitlen_bounds [OF p])
  ultimately show ?thesis by (simp add: pw_int of_int_le_iff of_int_less_iff del: of_int_power)
qed

lemma ilog2_bounds:
  assumes "0 < x"
  shows "pw (ilog2 x) \<le> x \<and> x < pw (ilog2 x + 1)"
proof -
  obtain p q where pq: "quotient_of x = (p, q)" by (cases "quotient_of x")
  have q: "0 < q" using quotient_of_denom_pos [OF pq] .
  have x: "x = of_int p / of_int q" by (rule quotient_of_div [OF pq])
  have p: "0 < p" using assms x q by (simp add: zero_less_divide_iff)
  define e where "e = bitlen p - bitlen q"
  have bp: "pw (bitlen p - 1) \<le> of_int p" "of_int p < pw (bitlen p)"
    and bq: "pw (bitlen q - 1) \<le> of_int q" "of_int q < pw (bitlen q)"
    using bitlen_rat [OF p] bitlen_rat [OF q] by auto
  have "x < pw (bitlen p) / pw (bitlen q - 1)"
    unfolding x using bp bq p q by (intro frac_less) auto
  also have "\<dots> = pw (e + 1)" by (simp add: e_def flip: pw_diff) (simp add: algebra_simps)
  finally have up: "x < pw (e + 1)" .
  have "pw (bitlen p - 1) / pw (bitlen q) \<le> x"
    unfolding x using bp bq p q by (intro frac_le) auto
  then have lo: "pw (e - 1) \<le> x" by (simp add: e_def pw_diff [symmetric] algebra_simps)
  show ?thesis
    using up lo by (auto simp: ilog2_def pq e_def [symmetric] Let_def not_le)
qed

lemma ilog2_eqI: "pw e \<le> x \<Longrightarrow> x < pw (e + 1) \<Longrightarrow> ilog2 x = e"
  using ilog2_bounds [of x] ilog2_unique by (meson less_le_trans pw_pos(1))

lemma ilog2_mono: "0 < x \<Longrightarrow> x \<le> y \<Longrightarrow> ilog2 x \<le> ilog2 y"
proof -
  assume "0 < x" "x \<le> y"
  then have "pw (ilog2 x) < pw (ilog2 y + 1)"
    using ilog2_bounds [of x] ilog2_bounds [of y] by linarith
  then show ?thesis by simp
qed

lemma ilog2_pw [simp]: "ilog2 (pw e) = e"
  by (rule ilog2_eqI) simp_all

subsection \<open>Rounding to 53 bits\<close>

definition ulp_exp :: "rat \<Rightarrow> int" where
  "ulp_exp x = max (ilog2 \<bar>x\<bar> - 52) (-1074)"

definition fl :: "rat \<Rightarrow> rat" where
  "fl x = (if x = 0 then 0 else of_int (rne (x / pw (ulp_exp x))) * pw (ulp_exp x))"

definition repr64 :: "rat \<Rightarrow> bool" where
  "repr64 x \<longleftrightarrow> (\<exists>m e. x = of_int m * pw e \<and> \<bar>m\<bar> \<le> 2 ^ 53 \<and> -1074 \<le> e)"

lemma fl_0 [simp]: "fl 0 = 0"
  by (simp add: fl_def)

lemma fl_minus: "fl (- x) = - fl x"
  by (simp add: fl_def ulp_exp_def rne_minus)

lemma fl_form: "x \<noteq> 0 \<Longrightarrow> fl x = of_int (rne (x / pw (ulp_exp x))) * pw (ulp_exp x)"
  by (simp add: fl_def)

lemma ulp_exp_bounds:
  assumes "0 < x"
  shows "x < pw (ulp_exp x + 53)"
    and "ulp_exp x = -1074 \<or> pw (ulp_exp x + 52) \<le> x"
    and "-1074 \<le> ulp_exp x"
proof -
  have b: "pw (ilog2 x) \<le> x" "x < pw (ilog2 x + 1)"
    using ilog2_bounds [OF assms] by auto
  have "pw (ilog2 x + 1) \<le> pw (ulp_exp x + 53)"
    using assms by (simp add: ulp_exp_def)
  with b show "x < pw (ulp_exp x + 53)" by linarith
  show "ulp_exp x = -1074 \<or> pw (ulp_exp x + 52) \<le> x"
    using b assms by (auto simp: ulp_exp_def max_def)
  show "-1074 \<le> ulp_exp x" by (simp add: ulp_exp_def)
qed

lemma ulp_exp_minus [simp]: "ulp_exp (- x) = ulp_exp x"
  by (simp add: ulp_exp_def)

lemma ulp_exp_mono: "0 < x \<Longrightarrow> x \<le> y \<Longrightarrow> ulp_exp x \<le> ulp_exp y"
  using ilog2_mono [of x y] by (simp add: ulp_exp_def)

lemma fl_upper:
  assumes "0 < x" shows "fl x \<le> pw (ulp_exp x + 53)"
proof -
  let ?u = "ulp_exp x"
  have "x / pw ?u \<le> of_int (2 ^ 53)"
    using ulp_exp_bounds(1) [OF assms] by (simp add: pw_add divide_le_eq mult.commute)
  then have "rne (x / pw ?u) \<le> 2 ^ 53" by (rule rne_le)
  then have "of_int (rne (x / pw ?u)) \<le> (of_int (2 ^ 53) :: rat)" by (simp only: of_int_le_iff)
  then show ?thesis using assms by (simp add: fl_form pw_add mult.commute)
qed

lemma fl_lower:
  assumes "0 < x" "pw (ulp_exp x + 52) \<le> x" shows "pw (ulp_exp x + 52) \<le> fl x"
proof -
  let ?u = "ulp_exp x"
  have "of_int (2 ^ 52) \<le> x / pw ?u"
    using assms by (simp add: pw_add le_divide_eq mult.commute)
  then have "2 ^ 52 \<le> rne (x / pw ?u)" by (rule rne_ge)
  then have "(of_int (2 ^ 52) :: rat) \<le> of_int (rne (x / pw ?u))" by (simp only: of_int_le_iff)
  then show ?thesis using assms by (simp add: fl_form pw_add mult.commute)
qed

lemma fl_nonneg: "0 \<le> x \<Longrightarrow> 0 \<le> fl x"
proof (cases "x = 0")
  case False
  assume "0 \<le> x"
  then have "0 \<le> rne (x / pw (ulp_exp x))" by (intro rne_ge) simp
  then show ?thesis using False by (simp add: fl_form)
qed simp

lemma fl_mono_pos:
  assumes "0 < x" "x \<le> y" shows "fl x \<le> fl y"
proof (cases "ulp_exp x = ulp_exp y")
  case True
  have "x / pw (ulp_exp y) \<le> y / pw (ulp_exp y)"
    using assms by (simp add: divide_right_mono)
  then show ?thesis using assms True rne_mono by (simp add: fl_form)
next
  case False
  then have lt: "ulp_exp x < ulp_exp y" using ulp_exp_mono [OF assms] by simp
  have "pw (ulp_exp y + 52) \<le> fl y"
    using lt ulp_exp_bounds [of x] ulp_exp_bounds(2) [of y] assms by (intro fl_lower) auto
  moreover have "pw (ulp_exp x + 53) \<le> pw (ulp_exp y + 52)" using lt by simp
  ultimately show ?thesis using fl_upper [OF assms(1)] by linarith
qed

lemma fl_mono: "x \<le> y \<Longrightarrow> fl x \<le> fl y"
proof -
  assume xy: "x \<le> y"
  consider "0 < x" | "x \<le> 0" "0 \<le> y" | "y < 0" by linarith
  then show ?thesis
  proof cases
    case 1
    then show ?thesis using xy by (rule fl_mono_pos)
  next
    case 2
    then have "0 \<le> fl (- x)" "0 \<le> fl y" by (simp_all add: fl_nonneg)
    then show ?thesis by (simp add: fl_minus)
  next
    case 3
    then have "fl (- y) \<le> fl (- x)" using xy by (intro fl_mono_pos) auto
    then show ?thesis by (simp add: fl_minus)
  qed
qed

lemma repr64_uminus: "repr64 x \<Longrightarrow> repr64 (- x)"
proof -
  assume "repr64 x"
  then obtain m e where "x = of_int m * pw e" "\<bar>m\<bar> \<le> 2 ^ 53" "-1074 \<le> e"
    by (auto simp: repr64_def)
  then show ?thesis
    unfolding repr64_def by (intro exI [of _ "- m"] exI [of _ e]) simp
qed

lemma repr64_minus [simp]: "repr64 (- x) \<longleftrightarrow> repr64 x"
  using repr64_uminus [of x] repr64_uminus [of "- x"] by auto

lemma fl_repr:
  assumes "repr64 x" shows "fl x = x"
proof -
  have pos: "fl y = y" if y: "0 < y" "repr64 y" for y
  proof -
    obtain m e where me: "y = of_int m * pw e" "\<bar>m\<bar> \<le> 2 ^ 53" "-1074 \<le> e"
      using y(2) by (auto simp: repr64_def)
    show ?thesis
    proof (cases "m = 2 ^ 53")
      case True
      then have y': "y = pw (53 + e)" by (simp add: me pw_add)
      then have "ulp_exp y = e + 1" using me(3) by (simp add: ulp_exp_def)
      then show ?thesis
        using rne_of_int [of "2 ^ 52"] by (simp add: fl_form y' flip: pw_diff) (simp add: pw_add)
    next
      case False
      have "0 < m" using y(1) me(1) zero_less_mult_pos2 [of "of_int m" "pw e"] by simp
      then have "of_int m \<le> (of_int (2 ^ 53 - 1) :: rat)"
        using False me(2) by (simp only: of_int_le_iff)
      then have "of_int m < pw 53" by simp
      then have "y < pw (53 + e)" by (simp add: me(1) pw_add)
      then have "pw (ilog2 y) < pw (53 + e)" using ilog2_bounds [OF y(1)] by linarith
      then have ue: "ulp_exp y \<le> e" using me(3) y(1) by (simp add: ulp_exp_def)
      then have "y / pw (ulp_exp y) = of_int m * pw (e - ulp_exp y)" by (simp add: me(1) pw_diff)
      also have "\<dots> = of_int (m * 2 ^ nat (e - ulp_exp y))" using ue by (simp add: pw_int)
      finally have "rne (y / pw (ulp_exp y)) = m * 2 ^ nat (e - ulp_exp y)"
        and q: "of_int (m * 2 ^ nat (e - ulp_exp y)) = y / pw (ulp_exp y)"
        by (simp_all only: rne_of_int)
      then show ?thesis using y(1) by (simp add: fl_form q del: of_int_mult)
    qed
  qed
  consider "0 < x" | "x = 0" | "0 < - x" by linarith
  then show ?thesis
  proof cases
    case 3
    then have "fl (- x) = - x" using assms by (intro pos) simp_all
    then show ?thesis by (simp add: fl_minus)
  qed (use pos assms in auto)
qed

lemma repr64_of_int: "\<bar>m\<bar> \<le> 2 ^ 53 \<Longrightarrow> repr64 (of_int m)"
  unfolding repr64_def by (intro exI [of _ m] exI [of _ 0]) simp

lemma repr64_of_nat: "n \<le> 2 ^ 53 \<Longrightarrow> repr64 (of_nat n)"
  using repr64_of_int [of "int n"] by simp

lemma repr64_numeral [simp]: "(numeral k :: int) \<le> 2 ^ 53 \<Longrightarrow> repr64 (numeral k)"
  using repr64_of_int [of "numeral k"] by simp

lemma repr64_0 [simp]: "repr64 0" and repr64_1 [simp]: "repr64 1"
  using repr64_of_int [of 0] repr64_of_int [of 1] by simp_all

lemma repr64_scale: "repr64 x \<Longrightarrow> 0 \<le> k \<Longrightarrow> repr64 (x * pw k)"
  unfolding repr64_def
proof (elim exE conjE)
  fix m e assume "x = of_int m * pw e" "\<bar>m\<bar> \<le> 2 ^ 53" "-1074 \<le> e" "0 \<le> k"
  then show "\<exists>m e. x * pw k = of_int m * pw e \<and> \<bar>m\<bar> \<le> 2 ^ 53 \<and> -1074 \<le> e"
    by (intro exI [of _ m] exI [of _ "e + k"]) (simp add: pw_add)
qed

lemma repr64_pw: "-1074 \<le> e \<Longrightarrow> repr64 (pw e)"
  unfolding repr64_def by (intro exI [of _ 1] exI [of _ e]) simp

lemma repr64_fl [simp]: "repr64 (fl x)"
proof -
  have pos: "repr64 (fl y)" if y: "0 < y" for y
  proof -
    let ?m = "rne (y / pw (ulp_exp y))"
    have "0 \<le> ?m" using y by (intro rne_ge) simp
    moreover have "y / pw (ulp_exp y) \<le> of_int (2 ^ 53)"
      using ulp_exp_bounds(1) [OF y] by (simp add: pw_add divide_le_eq mult.commute)
    then have "?m \<le> 2 ^ 53" by (rule rne_le)
    ultimately show ?thesis
      using y ulp_exp_bounds(3) [OF y] unfolding repr64_def
      by (intro exI [of _ ?m] exI [of _ "ulp_exp y"]) (simp add: fl_form)
  qed
  consider "0 < x" | "x = 0" | "0 < - x" by linarith
  then show ?thesis
  proof cases
    case 3
    then have "repr64 (fl (- x))" by (rule pos)
    then show ?thesis by (simp add: fl_minus)
  qed (use pos in auto)
qed

lemma fl_fl [simp]: "fl (fl x) = fl x"
  by (simp add: fl_repr)

lemma fl_le: "x \<le> y \<Longrightarrow> repr64 y \<Longrightarrow> fl x \<le> y"
  using fl_mono [of x y] by (simp add: fl_repr)

lemma fl_ge: "y \<le> x \<Longrightarrow> repr64 y \<Longrightarrow> y \<le> fl x"
  using fl_mono [of y x] by (simp add: fl_repr)

text \<open>
  A rounded result compares with a representable value as the exact one does, up to ties.
\<close>

lemma fl_less_imp: "fl x < y \<Longrightarrow> repr64 y \<Longrightarrow> x < y"
  using fl_ge [of y x] by linarith

lemma less_fl_imp: "y < fl x \<Longrightarrow> repr64 y \<Longrightarrow> y < x"
  using fl_le [of x y] by linarith

lemma fl_error: "0 < x \<Longrightarrow> \<bar>fl x - x\<bar> \<le> pw (ulp_exp x - 1)"
proof -
  assume x: "0 < x"
  let ?u = "ulp_exp x"
  have "fl x - x = (of_int (rne (x / pw ?u)) - x / pw ?u) * pw ?u"
    using x by (simp add: fl_form algebra_simps)
  then have "\<bar>fl x - x\<bar> = \<bar>of_int (rne (x / pw ?u)) - x / pw ?u\<bar> * pw ?u"
    by (simp add: abs_mult)
  also have "\<dots> \<le> 1 / 2 * pw ?u"
    by (intro mult_right_mono rne_error) simp
  also have "\<dots> = pw (?u - 1)" by (simp add: pw_diff)
  finally show ?thesis .
qed

text \<open>
  Above a power of two the half ulp is \<open>pw (k - 53)\<close>, below it \<open>pw (k - 54)\<close>, and the tie
  below goes to the power of two, whose significand is even.
\<close>

lemma fl_near_pw:
  assumes k: "-1000 \<le> k" and y: "\<bar>y - pw k\<bar> \<le> pw (k - 54)"
  shows "fl y = pw k"
proof (rule antisym)
  have up: "y \<le> pw k + pw (k - 54)" and lo: "pw k - pw (k - 54) \<le> y"
    using y by linarith+
  have hi_exp: "ilog2 (pw k + pw (k - 54)) = k"
    by (rule ilog2_eqI) (simp_all add: pw_add pw_diff)
  have "fl (pw k + pw (k - 54)) = pw k"
  proof -
    have "(pw k + pw (k - 54)) / pw (k - 52) = of_int (2 ^ 52) + 1 / 4"
      by (simp add: pw_diff field_simps)
    moreover have "rne (of_int (2 ^ 52) + 1 / 4) = 2 ^ 52"
      by (rule rne_near) simp
    moreover have "ulp_exp (pw k + pw (k - 54)) = k - 52"
      using k hi_exp by (simp add: ulp_exp_def add_nonneg_nonneg)
    ultimately show ?thesis by (simp add: fl_form pw_diff add_nonneg_eq_0_iff)
  qed
  then show "fl y \<le> pw k" using fl_mono [OF up] by simp
  have pos: "0 < pw k - pw (k - 54)" by simp
  have lo_exp: "ilog2 (pw k - pw (k - 54)) = k - 1"
    by (rule ilog2_eqI) (simp_all add: pw_diff)
  have "fl (pw k - pw (k - 54)) = pw k"
  proof -
    have "(pw k - pw (k - 54)) / pw (k - 53) = of_int (2 ^ 53 - 1) + 1 / 2"
      by (simp add: pw_diff field_simps)
    moreover have "rne (of_int (2 ^ 53 - 1) + 1 / 2) = 2 ^ 53 - 1 + 1"
      by (rule rne_tie_odd) simp
    moreover have "ulp_exp (pw k - pw (k - 54)) = k - 53"
      using k lo_exp pos by (simp add: ulp_exp_def)
    ultimately show ?thesis using pos by (simp add: fl_form pw_diff)
  qed
  then show "pw k \<le> fl y" using fl_mono [OF lo] by simp
qed

subsection \<open>The type and its operations\<close>

datatype double = Fin rat | PInf | MInf | NaN

text \<open>The overflow threshold of the rounded result.\<close>

definition ovf64 :: rat where "ovf64 = pw 1024"

lemma pw_less_ovf64: "k < 1024 \<Longrightarrow> pw k < ovf64"
  unfolding ovf64_def by (rule pw_strict)

lemma ovf64_pos [simp]: "0 < ovf64"
  by (simp add: ovf64_def)

definition round64 :: "rat \<Rightarrow> double" where
  "round64 x = (let r = fl x in
     if ovf64 \<le> r then PInf else if r \<le> - ovf64 then MInf else Fin r)"

fun isfinite :: "double \<Rightarrow> bool" where
  "isfinite (Fin _) = True"
| "isfinite _ = False"

fun val :: "double \<Rightarrow> rat" where
  "val (Fin x) = x"
| "val _ = 0"

text \<open>An infinity with the sign of \<open>s\<close>, NaN for zero: infinity times a finite value, and a
  nonzero value over zero.\<close>

fun signed_inf :: "rat \<Rightarrow> double" where
  "signed_inf s = (if s = 0 then NaN else if 0 < s then PInf else MInf)"

instantiation double :: "{zero, one, plus, minus, uminus, times, inverse, abs, ord}"
begin

definition zero_double :: double where "0 = Fin 0"
definition one_double :: double where "1 = Fin 1"

fun uminus_double :: "double \<Rightarrow> double" where
  "- Fin x = Fin (- x)"
| "- PInf = MInf"
| "- MInf = PInf"
| "- NaN = NaN"

fun plus_double :: "double \<Rightarrow> double \<Rightarrow> double" where
  "Fin x + Fin y = round64 (x + y)"
| "NaN + b = NaN"
| "a + NaN = NaN"
| "PInf + MInf = NaN"
| "MInf + PInf = NaN"
| "PInf + b = PInf"
| "a + PInf = PInf"
| "MInf + b = MInf"
| "a + MInf = MInf"

definition minus_double :: "double \<Rightarrow> double \<Rightarrow> double" where
  "a - b = a + - (b :: double)"

fun times_double :: "double \<Rightarrow> double \<Rightarrow> double" where
  "Fin x * Fin y = round64 (x * y)"
| "NaN * b = NaN"
| "a * NaN = NaN"
| "PInf * PInf = PInf"
| "PInf * MInf = MInf"
| "MInf * PInf = MInf"
| "MInf * MInf = PInf"
| "PInf * Fin y = signed_inf y"
| "MInf * Fin y = signed_inf (- y)"
| "Fin x * PInf = signed_inf x"
| "Fin x * MInf = signed_inf (- x)"

fun divide_double :: "double \<Rightarrow> double \<Rightarrow> double" where
  "Fin x div Fin y = (if y = 0 then signed_inf x else round64 (x / y))"
| "NaN div b = NaN"
| "a div NaN = NaN"
| "Fin x div b = Fin 0"
| "PInf div Fin y = (if 0 \<le> y then PInf else MInf)"
| "MInf div Fin y = (if 0 \<le> y then MInf else PInf)"
| "a div b = NaN"

definition inverse_double :: "double \<Rightarrow> double" where
  "inverse a = 1 div (a :: double)"

fun abs_double :: "double \<Rightarrow> double" where
  "abs (Fin x) = Fin \<bar>x\<bar>"
| "abs PInf = PInf"
| "abs MInf = PInf"
| "abs NaN = NaN"

fun less_double :: "double \<Rightarrow> double \<Rightarrow> bool" where
  "Fin x < Fin y \<longleftrightarrow> x < y"
| "NaN < b \<longleftrightarrow> False"
| "a < NaN \<longleftrightarrow> False"
| "a < MInf \<longleftrightarrow> False"
| "MInf < b \<longleftrightarrow> True"
| "PInf < b \<longleftrightarrow> False"
| "a < PInf \<longleftrightarrow> True"

definition less_eq_double :: "double \<Rightarrow> double \<Rightarrow> bool" where
  "a \<le> b \<longleftrightarrow> a < b \<or> (a = b \<and> a \<noteq> NaN)" for a b :: double

instance ..

end

subsection \<open>Well-formed values, ranges and comparisons\<close>

text \<open>The values a \<open>double\<close> object can hold: a finite one is representable and in range.\<close>

fun valid64 :: "double \<Rightarrow> bool" where
  "valid64 (Fin x) \<longleftrightarrow> repr64 x \<and> \<bar>x\<bar> < ovf64"
| "valid64 _ \<longleftrightarrow> True"

lemma valid64_round64 [simp]: "valid64 (round64 x)"
  by (auto simp: round64_def Let_def abs_less_iff not_le)

lemma round64_Fin: "\<bar>fl x\<bar> < ovf64 \<Longrightarrow> round64 x = Fin (fl x)"
  by (auto simp: round64_def Let_def abs_less_iff not_le)

lemma round64_bounded:
  assumes "\<bar>x\<bar> \<le> pw k" "-1074 \<le> k" "k < 1024"
  shows "round64 x = Fin (fl x)" and "\<bar>fl x\<bar> \<le> pw k"
proof -
  have r: "repr64 (pw k)" "repr64 (- pw k)" using assms by (simp_all add: repr64_pw)
  have "fl x \<le> pw k" using assms r by (intro fl_le) auto
  moreover have "- pw k \<le> fl x" using assms r by (intro fl_ge) auto
  ultimately show b: "\<bar>fl x\<bar> \<le> pw k" by simp
  have "pw k < ovf64" using assms by (intro pw_less_ovf64)
  with b show "round64 x = Fin (fl x)" by (intro round64_Fin) linarith
qed

lemma round64_repr: "valid64 (Fin x) \<Longrightarrow> round64 x = Fin x"
  using round64_Fin [of x] by (simp add: fl_repr)

lemma round64_0 [simp]: "round64 0 = Fin 0"
  by (rule round64_repr) simp

text \<open>Dyadic numerals are exact; the scale \<open>2 ^ k\<close> is named when the rule is applied.\<close>

lemma round64_exact:
  "x * 2 ^ k = of_int m \<Longrightarrow> \<bar>m\<bar> \<le> 2 ^ 53 \<Longrightarrow> k \<le> 1074 \<Longrightarrow> round64 x = Fin x"
proof (rule round64_repr)
  assume a: "x * 2 ^ k = of_int m" "\<bar>m\<bar> \<le> 2 ^ 53" "k \<le> 1074"
  then have x: "x = of_int m * pw (- int k)"
    by (simp add: power_int_minus field_simps)
  have "pw (- int k) \<le> pw 0" by (intro pw_mono) simp
  then have "pw (- int k) \<le> 1" by simp
  moreover have "(of_int \<bar>m\<bar> :: rat) \<le> of_int (2 ^ 53)" using a(2) by (simp only: of_int_le_iff)
  ultimately have "\<bar>x\<bar> \<le> of_int (2 ^ 53) * 1"
    unfolding x abs_mult by (intro mult_mono) auto
  moreover have "(of_int (2 ^ 53) :: rat) * 1 < ovf64"
    using pw_less_ovf64 [of 53] by simp
  ultimately have "\<bar>x\<bar> < ovf64" by linarith
  then show "valid64 (Fin x)"
    using a x unfolding valid64.simps repr64_def by (intro conjI exI [of _ m] exI [of _ "- int k"]) auto
qed

lemma round64_int: "\<bar>m\<bar> \<le> 2 ^ 53 \<Longrightarrow> round64 (of_int m) = Fin (of_int m)"
  by (rule round64_exact [where k = 0]) simp_all

lemma round64_numeral [simp]: "(numeral k :: int) \<le> 2 ^ 53 \<Longrightarrow> round64 (numeral k) = Fin (numeral k)"
  using round64_int [of "numeral k"] by simp

lemma round64_1 [simp]: "round64 1 = Fin 1"
  using round64_int [of 1] by simp

lemma Fin_le_iff [simp]: "Fin x \<le> Fin y \<longleftrightarrow> x \<le> y"
  by (auto simp: less_eq_double_def)

lemma NaN_le [simp]: "\<not> NaN \<le> d" "\<not> d \<le> NaN"
  by (cases d; simp add: less_eq_double_def)+

lemma inf_cmp [simp]: "Fin x \<le> PInf" "MInf \<le> Fin x" "MInf \<le> PInf" "PInf \<le> PInf" "MInf \<le> MInf"
  "\<not> PInf \<le> Fin x" "\<not> Fin x \<le> MInf" "\<not> PInf \<le> MInf"
  by (simp_all add: less_eq_double_def)

lemma double_not_le: "d \<noteq> NaN \<Longrightarrow> d' \<noteq> NaN \<Longrightarrow> (\<not> d \<le> d') = (d' < (d :: double))"
  by (cases d; cases d') auto

lemma double_le_trans: "d \<le> d' \<Longrightarrow> d' \<le> d'' \<Longrightarrow> d \<le> (d'' :: double)"
  by (cases d; cases d'; cases d'') auto

lemma double_less_le_trans: "d < d' \<Longrightarrow> d' \<le> d'' \<Longrightarrow> d < (d'' :: double)"
  by (cases d; cases d'; cases d'') auto

lemma double_le_less_trans: "d \<le> d' \<Longrightarrow> d' < d'' \<Longrightarrow> d < (d'' :: double)"
  by (cases d; cases d'; cases d'') auto

lemma double_less_imp_le: "d < d' \<Longrightarrow> d \<le> (d' :: double)"
  by (simp add: less_eq_double_def)

lemma double_less_irrefl [simp]: "\<not> d < (d :: double)"
  by (cases d) auto

lemma double_less_not_le: "d < d' \<Longrightarrow> \<not> d' \<le> (d :: double)"
  by (cases d; cases d') auto

lemma round64_mono: "x \<le> y \<Longrightarrow> round64 x \<le> round64 y"
  using fl_mono [of x y] by (auto simp: round64_def Let_def not_le)

lemma round64_neq_NaN [simp]: "round64 x \<noteq> NaN"
  by (simp add: round64_def Let_def)

text \<open>A strict comparison of a rounded value with a \<open>double\<close> holds of the exact value.\<close>

lemma round64_less_imp: "round64 x < Fin c \<Longrightarrow> valid64 (Fin c) \<Longrightarrow> x < c"
proof -
  assume a: "round64 x < Fin c" "valid64 (Fin c)"
  then have "fl x < c" by (auto simp: round64_def Let_def split: if_splits)
  then show ?thesis using a(2) by (auto intro: fl_less_imp)
qed

lemma less_round64_imp: "Fin c < round64 x \<Longrightarrow> valid64 (Fin c) \<Longrightarrow> c < x"
proof -
  assume a: "Fin c < round64 x" "valid64 (Fin c)"
  then have "c < fl x" by (auto simp: round64_def Let_def split: if_splits)
  then show ?thesis using a(2) by (auto intro: less_fl_imp)
qed

lemma round64_le: "x \<le> c \<Longrightarrow> valid64 (Fin c) \<Longrightarrow> round64 x \<le> Fin c"
  using round64_mono [of x c] by (simp only: round64_repr)

lemma round64_ge: "c \<le> x \<Longrightarrow> valid64 (Fin c) \<Longrightarrow> Fin c \<le> round64 x"
  using round64_mono [of c x] by (simp only: round64_repr)

subsection \<open>Conversions\<close>

text \<open>\<open>(double)n\<close> for an unsigned 64-bit \<open>n\<close>, and \<open>(size_t)d\<close>, which truncates toward zero
  and is undefined outside the range of the type (0 stands for that case; the users prove
  that they stay in range).\<close>

definition rat_of_u64 :: "u64 \<Rightarrow> rat" where
  "rat_of_u64 w = of_nat (unat w)"

definition d_of_u64 :: "u64 \<Rightarrow> double" where
  "d_of_u64 w = round64 (rat_of_u64 w)"

definition u64_of_d :: "double \<Rightarrow> u64" where
  "u64_of_d d = (case d of Fin x \<Rightarrow> if -1 < x \<and> x < 2 ^ 64 then word_of_int \<lfloor>max 0 x\<rfloor> else 0 | _ \<Rightarrow> 0)"

lemma rat_of_u64_nonneg [simp]: "0 \<le> rat_of_u64 w"
  unfolding rat_of_u64_def by (rule of_nat_0_le_iff)

lemma rat_of_u64_le_iff: "rat_of_u64 v \<le> rat_of_u64 w \<longleftrightarrow> v \<le> w"
  by (simp only: rat_of_u64_def of_nat_le_iff word_le_nat_alt)

lemma rat_of_u64_less_iff: "rat_of_u64 v < rat_of_u64 w \<longleftrightarrow> v < w"
  by (simp only: rat_of_u64_def of_nat_less_iff word_less_nat_alt)

lemma rat_of_u64_less: "rat_of_u64 w < pw 64"
proof -
  have "(of_nat (unat w) :: rat) < of_nat (2 ^ 64)"
    using unsigned_less [of w, where ?'a = nat] by (simp only: of_nat_less_iff) simp
  then show ?thesis by (simp only: rat_of_u64_def) simp
qed

lemma rat_of_u64_0 [simp]: "rat_of_u64 0 = 0"
  by (simp add: rat_of_u64_def)

lemma rat_of_u64_numeral [simp]: "rat_of_u64 (numeral k) = of_nat (unat (numeral k :: u64))"
  by (simp only: rat_of_u64_def)

lemma repr64_rat_of_u64: "unat w \<le> 2 ^ 53 \<Longrightarrow> repr64 (rat_of_u64 w)"
  unfolding rat_of_u64_def by (rule repr64_of_nat)

lemma d_of_u64_eq: "d_of_u64 w = Fin (fl (rat_of_u64 w))"
  unfolding d_of_u64_def
  by (rule round64_bounded(1) [of _ 64]) (use rat_of_u64_less [of w] in \<open>simp_all add: less_imp_le\<close>)

lemma d_of_u64_Fin: "\<exists>r. d_of_u64 w = Fin r \<and> 0 \<le> r \<and> r \<le> pw 64 \<and> repr64 r"
  using rat_of_u64_less [of w]
  by (auto simp: d_of_u64_eq repr64_pw intro!: fl_nonneg fl_le simp del: power_int_numeral)

lemma d_of_u64_exact: "unat w \<le> 2 ^ 53 \<Longrightarrow> d_of_u64 w = Fin (rat_of_u64 w)"
  by (simp add: d_of_u64_eq fl_repr repr64_rat_of_u64)

lemma d_of_u64_mono: "v \<le> w \<Longrightarrow> d_of_u64 v \<le> d_of_u64 w"
  unfolding d_of_u64_def by (intro round64_mono) (simp add: rat_of_u64_le_iff)

lemma d_of_u64_0 [simp]: "d_of_u64 0 = Fin 0"
  by (simp add: d_of_u64_def)

lemma valid64_d_of_u64 [simp]: "valid64 (d_of_u64 w)"
  by (simp add: d_of_u64_def)

lemma d_of_u64_nonneg: "Fin 0 \<le> d_of_u64 w"
  using d_of_u64_Fin [of w] by auto

lemma d_of_u64_neq_NaN [simp]: "d_of_u64 w \<noteq> NaN"
  by (simp add: d_of_u64_def)

end
