(* ===== verification/AdaptTypes.thy ===== *)
theory AdaptTypes
  imports Prelude Binary64
begin

text \<open>
  The public enumerations and thresholds of \<open>include/adapt_ipc.h\<close>. The policy modes are
  ordered as the C enumeration orders them, since the code compares them with \<open>>=\<close>.
\<close>

datatype adapt_role_t = ADAPT_ROLE_PRODUCER | ADAPT_ROLE_CONSUMER

datatype adapt_route_t = ADAPT_ROUTE_NONE | ADAPT_ROUTE_SHM | ADAPT_ROUTE_UDS

datatype adapt_policy_mode_t = ADAPT_POLICY_DEFAULT | ADAPT_POLICY_SIZE_ONLY
  | ADAPT_POLICY_SIZE_HYSTERESIS | ADAPT_POLICY_QUEUE_AWARE | ADAPT_POLICY_COST_AWARE
  | ADAPT_POLICY_FULL_ADAPTIVE

datatype adapt_qos_t = ADAPT_QOS_BALANCED | ADAPT_QOS_LATENCY | ADAPT_QOS_THROUGHPUT

datatype adapt_health_state_t = ADAPT_HEALTH_UNAVAILABLE | ADAPT_HEALTH_HEALTHY
  | ADAPT_HEALTH_DEGRADED | ADAPT_HEALTH_BLOCKED | ADAPT_HEALTH_RECOVERING

fun policy_num :: "adapt_policy_mode_t \<Rightarrow> nat" where
  "policy_num ADAPT_POLICY_DEFAULT = 0"
| "policy_num ADAPT_POLICY_SIZE_ONLY = 1"
| "policy_num ADAPT_POLICY_SIZE_HYSTERESIS = 2"
| "policy_num ADAPT_POLICY_QUEUE_AWARE = 3"
| "policy_num ADAPT_POLICY_COST_AWARE = 4"
| "policy_num ADAPT_POLICY_FULL_ADAPTIVE = 5"

lemma policy_num_eq: "policy_num p = policy_num q \<Longrightarrow> p = q"
  by (cases p; cases q) simp_all

instantiation adapt_policy_mode_t :: linorder
begin

definition less_eq_adapt_policy_mode_t :: "adapt_policy_mode_t \<Rightarrow> adapt_policy_mode_t \<Rightarrow> bool" where
  "p \<le> q \<longleftrightarrow> policy_num p \<le> policy_num q"

definition less_adapt_policy_mode_t :: "adapt_policy_mode_t \<Rightarrow> adapt_policy_mode_t \<Rightarrow> bool" where
  "p < q \<longleftrightarrow> policy_num p < policy_num q"

instance
  by standard (auto simp: less_eq_adapt_policy_mode_t_def less_adapt_policy_mode_t_def intro: policy_num_eq)

end

lemmas policy_order = less_eq_adapt_policy_mode_t_def less_adapt_policy_mode_t_def

subsection \<open>Thresholds\<close>

definition ADAPT_TAU_LOW :: double where "ADAPT_TAU_LOW = Fin 1024"
definition ADAPT_TAU_HIGH :: double where "ADAPT_TAU_HIGH = Fin 4096"
definition UDS_MAX_DGRAM :: nat where "UDS_MAX_DGRAM = 4096"
definition ADAPT_UDS_POLL_MS :: int where "ADAPT_UDS_POLL_MS = 2"

text \<open>\<open>ADAPT_EWMA_ALPHA\<close>: the double nearest to 0.2.\<close>
definition ADAPT_EWMA_ALPHA :: double where "ADAPT_EWMA_ALPHA = round64 (2 / 10)"

subsection \<open>Names\<close>

definition adapt_policy_name :: "adapt_policy_mode_t \<Rightarrow> string" where
  "adapt_policy_name p = [''default'', ''size_only'', ''size_hysteresis'', ''queue_aware'',
     ''cost_aware'', ''full_adaptive''] ! policy_num p"

fun adapt_qos_name :: "adapt_qos_t \<Rightarrow> string" where
  "adapt_qos_name ADAPT_QOS_BALANCED = ''balanced''"
| "adapt_qos_name ADAPT_QOS_LATENCY = ''latency''"
| "adapt_qos_name ADAPT_QOS_THROUGHPUT = ''throughput''"

fun adapt_health_name :: "adapt_health_state_t \<Rightarrow> string" where
  "adapt_health_name ADAPT_HEALTH_UNAVAILABLE = ''unavailable''"
| "adapt_health_name ADAPT_HEALTH_HEALTHY = ''healthy''"
| "adapt_health_name ADAPT_HEALTH_DEGRADED = ''degraded''"
| "adapt_health_name ADAPT_HEALTH_BLOCKED = ''blocked''"
| "adapt_health_name ADAPT_HEALTH_RECOVERING = ''recovering''"

fun adapt_route_name :: "adapt_route_t \<Rightarrow> string" where
  "adapt_route_name ADAPT_ROUTE_SHM = ''SHM''"
| "adapt_route_name ADAPT_ROUTE_UDS = ''UDS''"
| "adapt_route_name ADAPT_ROUTE_NONE = ''NONE''"

text \<open>The value of \<open>ADAPTIPC_POLICY\<close>: any other string, or none, keeps the default mode.\<close>

definition policy_of_env :: "string option \<Rightarrow> adapt_policy_mode_t" where
  "policy_of_env pv = (case pv of None \<Rightarrow> ADAPT_POLICY_SIZE_HYSTERESIS
     | Some v \<Rightarrow>
       if v = ''size_only'' then ADAPT_POLICY_SIZE_ONLY
       else if v = ''size_hysteresis'' then ADAPT_POLICY_SIZE_HYSTERESIS
       else if v = ''queue_aware'' then ADAPT_POLICY_QUEUE_AWARE
       else if v = ''cost_aware'' then ADAPT_POLICY_COST_AWARE
       else if v = ''full_adaptive'' then ADAPT_POLICY_FULL_ADAPTIVE
       else ADAPT_POLICY_SIZE_HYSTERESIS)"

lemma policy_of_env_name:
  "policy_of_env (Some (adapt_policy_name p)) =
    (if p = ADAPT_POLICY_DEFAULT then ADAPT_POLICY_SIZE_HYSTERESIS else p)"
  by (cases p) (simp_all add: policy_of_env_def adapt_policy_name_def)

end
