(* ===== verification/Ewma.thy ===== *)
theory Ewma
  imports Binary64
begin

text \<open>
  The exponentially weighted moving average every estimator of the code uses:
  \<open>a * x + (1.0 - a) * e\<close> in binary64. \<open>ewma_update\<close> is the function of that name in
  \<open>src/adapt_ipc.c\<close>; the other users write the same expression out (\<open>ewma_step\<close>).

  The main facts hold of the rounded computation, not of an idealised one: with inputs
  between 0 and a power of two the average stays there exactly, and with inputs at or
  above a power of two it stays at or above it. Both thresholds of the router are powers
  of two, which is what makes its hysteresis exact.
\<close>

definition ewma_step :: "double \<Rightarrow> double \<Rightarrow> double \<Rightarrow> double" where
  "ewma_step a x e = a * x + (1 - a) * e"

definition ewma_update :: "double \<Rightarrow> double \<Rightarrow> csize \<Rightarrow> double" where
  "ewma_update ewma alpha current_size = ewma_step alpha (d_of_u64 current_size) ewma"

subsection \<open>The rounded average as a rational\<close>

definition ewma_q :: "rat \<Rightarrow> rat \<Rightarrow> rat \<Rightarrow> rat" where
  "ewma_q a x e = fl (fl (a * x) + fl (fl (1 - a) * e))"

text \<open>A weight is a representable value of the unit interval.\<close>

definition weight :: "rat \<Rightarrow> bool" where
  "weight a \<longleftrightarrow> repr64 a \<and> 0 \<le> a \<and> a \<le> 1"

lemma weight_complement:
  assumes "weight a"
  shows "0 \<le> fl (1 - a)" "fl (1 - a) \<le> 1" "\<bar>a + fl (1 - a) - 1\<bar> \<le> pw (-54)"
proof -
  have a: "0 \<le> a" "a \<le> 1" using assms by (auto simp: weight_def)
  then show "0 \<le> fl (1 - a)" "fl (1 - a) \<le> 1" by (auto intro: fl_nonneg fl_le)
  consider "a = 1" | "a = 0" | "0 < a" "a < 1" using a by linarith
  then show "\<bar>a + fl (1 - a) - 1\<bar> \<le> pw (-54)"
  proof cases
    case 3
    then have "pw (ilog2 (1 - a)) < pw 0" using ilog2_bounds [of "1 - a"] by simp
    then have "ulp_exp (1 - a) - 1 \<le> -54" using 3 by (simp add: ulp_exp_def del: power_int_0_right)
    then have "pw (ulp_exp (1 - a) - 1) \<le> pw (-54)" by (rule pw_mono)
    then show ?thesis using fl_error [of "1 - a"] 3 by (simp add: abs_if split: if_splits)
  qed (simp_all add: fl_repr)
qed


lemma weight_scale:
  assumes "weight a" "0 \<le> k"
  shows "repr64 (a * pw k)" "repr64 (fl (1 - a) * pw k)"
  using assms by (auto simp: weight_def intro: repr64_scale)

lemma weighted_sum_near:
  assumes "weight a" "0 \<le> k"
  shows "\<bar>a * pw k + fl (1 - a) * pw k - pw k\<bar> \<le> pw (k - 54)"
proof -
  have "\<bar>a * pw k + fl (1 - a) * pw k - pw k\<bar> = \<bar>a + fl (1 - a) - 1\<bar> * pw k"
  proof -
    have "a * pw k + fl (1 - a) * pw k - pw k = (a + fl (1 - a) - 1) * pw k"
      by (simp add: algebra_simps)
    then show ?thesis by (simp only: abs_mult) simp
  qed
  also have "\<dots> \<le> pw (-54) * pw k"
    by (intro mult_right_mono weight_complement assms) simp
  also have "\<dots> = pw (k - 54)" by (simp only: pw_add [symmetric]) simp
  finally show ?thesis .
qed

lemma ewma_q_upper:
  assumes a: "weight a" and k: "0 \<le> k"
    and x: "0 \<le> x" "x \<le> pw k" and e: "0 \<le> e" "e \<le> pw k"
  shows "ewma_q a x e \<le> pw k"
proof -
  have w: "0 \<le> a" "0 \<le> fl (1 - a)" using a weight_complement by (auto simp: weight_def)
  have "fl (a * x) \<le> a * pw k"
    using w x weight_scale [OF a k] by (intro fl_le mult_left_mono) auto
  moreover have "fl (fl (1 - a) * e) \<le> fl (1 - a) * pw k"
    using w e weight_scale [OF a k] by (intro fl_le mult_left_mono) auto
  ultimately have "fl (a * x) + fl (fl (1 - a) * e) \<le> pw k + pw (k - 54)"
    using weighted_sum_near [OF a k] by linarith
  moreover have "fl (pw k + pw (k - 54)) = pw k" using k by (intro fl_near_pw) simp_all
  ultimately show ?thesis unfolding ewma_q_def by (metis fl_mono)
qed

lemma ewma_q_lower:
  assumes a: "weight a" and k: "0 \<le> k" and x: "pw k \<le> x" and e: "pw k \<le> e"
  shows "pw k \<le> ewma_q a x e"
proof -
  have w: "0 \<le> a" "0 \<le> fl (1 - a)" using a weight_complement by (auto simp: weight_def)
  have "a * pw k \<le> fl (a * x)"
    using w x weight_scale [OF a k] by (intro fl_ge) (auto intro: mult_left_mono)
  moreover have "fl (1 - a) * pw k \<le> fl (fl (1 - a) * e)"
    using w e weight_scale [OF a k] by (intro fl_ge) (auto intro: mult_left_mono)
  ultimately have "pw k - pw (k - 54) \<le> fl (a * x) + fl (fl (1 - a) * e)"
    using weighted_sum_near [OF a k] by linarith
  moreover have "fl (pw k - pw (k - 54)) = pw k" using k by (intro fl_near_pw) simp_all
  ultimately show ?thesis unfolding ewma_q_def by (metis fl_mono)
qed

lemma ewma_q_nonneg:
  "weight a \<Longrightarrow> 0 \<le> x \<Longrightarrow> 0 \<le> e \<Longrightarrow> 0 \<le> ewma_q a x e"
  unfolding ewma_q_def using weight_complement [of a]
  by (auto simp: weight_def intro!: fl_nonneg add_nonneg_nonneg mult_nonneg_nonneg)

lemma ewma_q_mono:
  assumes "weight a" "x \<le> x'" "e \<le> e'"
  shows "ewma_q a x e \<le> ewma_q a x' e'"
  unfolding ewma_q_def using assms weight_complement [of a]
  by (auto simp: weight_def intro!: fl_mono add_mono mult_left_mono)

lemma ewma_q_repr [simp]: "repr64 (ewma_q a x e)"
  by (simp add: ewma_q_def)

subsection \<open>The average on doubles\<close>

text \<open>Inside a power-of-two range no operation overflows, so the doubles compute \<open>ewma_q\<close>.\<close>

lemma ewma_step_Fin:
  assumes a: "weight a" and k: "0 \<le> k" "k \<le> 1000"
    and x: "0 \<le> x" "x \<le> pw k" and e: "0 \<le> e" "e \<le> pw k"
  shows "ewma_step (Fin a) (Fin x) (Fin e) = Fin (ewma_q a x e)"
proof -
  have w: "0 \<le> a" "a \<le> 1" "0 \<le> fl (1 - a)" "fl (1 - a) \<le> 1"
    using a weight_complement by (auto simp: weight_def)
  have ax: "0 \<le> a * x" "a * x \<le> pw k"
    using w x mult_mono [of a 1 x "pw k"] by auto
  have be: "0 \<le> fl (1 - a) * e" "fl (1 - a) * e \<le> pw k"
    using w e mult_mono [of "fl (1 - a)" 1 e "pw k"] by auto
  have one: "round64 (1 - a) = Fin (fl (1 - a))"
    using round64_bounded(1) [of "1 - a" 0] w by simp
  have r: "round64 (a * x) = Fin (fl (a * x))" "round64 (fl (1 - a) * e) = Fin (fl (fl (1 - a) * e))"
    using round64_bounded(1) [of _ k] ax be k by auto
  have s: "fl (a * x) \<le> pw k" "fl (fl (1 - a) * e) \<le> pw k" "0 \<le> fl (a * x)" "0 \<le> fl (fl (1 - a) * e)"
    using ax be k by (auto intro!: fl_le fl_nonneg repr64_pw)
  have "\<bar>fl (a * x) + fl (fl (1 - a) * e)\<bar> \<le> pw (k + 1)" using s by (simp add: pw_add)
  then have "round64 (fl (a * x) + fl (fl (1 - a) * e)) = Fin (ewma_q a x e)"
    using round64_bounded(1) [of _ "k + 1"] k by (simp add: ewma_q_def)
  then show ?thesis by (simp add: ewma_step_def minus_double_def one_double_def one r)
qed

text \<open>The closed range \<open>[0, 2 ^ k]\<close> of a \<open>double\<close>, and the range invariant of the average.\<close>

definition inrange :: "int \<Rightarrow> double \<Rightarrow> bool" where
  "inrange k d \<longleftrightarrow> valid64 d \<and> Fin 0 \<le> d \<and> d \<le> Fin (pw k)"

lemma inrange_Fin_iff: "inrange k (Fin x) \<longleftrightarrow> valid64 (Fin x) \<and> 0 \<le> x \<and> x \<le> pw k"
  by (simp add: inrange_def)

lemma inrangeE:
  assumes "inrange k d" obtains x where "d = Fin x" "repr64 x" "0 \<le> x" "x \<le> pw k"
  using assms by (cases d) (auto simp: inrange_def)

lemma inrange_mono: "inrange k d \<Longrightarrow> k \<le> k' \<Longrightarrow> inrange k' d"
proof -
  assume d: "inrange k d" and "k \<le> k'"
  then have "pw k \<le> pw k'" by simp
  with d show ?thesis by (auto simp: inrange_def intro: double_le_trans [of _ "Fin (pw k)"])
qed

lemma inrange_d_of_u64: "inrange 64 (d_of_u64 w)"
  using d_of_u64_Fin [of w] valid64_d_of_u64 [of w] by (auto simp: inrange_def)

lemma inrange_0 [simp]: "inrange k (Fin 0)"
  by (simp add: inrange_def)

lemma inrange_ewma_step:
  assumes "weight a" "0 \<le> k" "k \<le> 1000" "inrange k x" "inrange k e"
  shows "inrange k (ewma_step (Fin a) x e)"
proof -
  obtain q p where q: "x = Fin q" "0 \<le> q" "q \<le> pw k" and p: "e = Fin p" "0 \<le> p" "p \<le> pw k"
    using assms(4,5) by (auto elim!: inrangeE)
  have s: "ewma_step (Fin a) x e = Fin (ewma_q a q p)"
    unfolding q(1) p(1) using assms q p by (intro ewma_step_Fin)
  have "pw k < ovf64" using assms by (intro pw_less_ovf64) simp
  then show ?thesis
    unfolding s inrange_Fin_iff
    using ewma_q_upper [of a k q p] ewma_q_nonneg [of a q p] assms q p by auto
qed

lemma ewma_step_ge:
  assumes "weight a" "0 \<le> j" "k \<le> 1000" "inrange k x" "inrange k e"
    and "Fin (pw j) \<le> x" "Fin (pw j) \<le> e"
  shows "Fin (pw j) \<le> ewma_step (Fin a) x e"
proof -
  obtain q p where q: "x = Fin q" "0 \<le> q" "q \<le> pw k" and p: "e = Fin p" "0 \<le> p" "p \<le> pw k"
    using assms(4,5) by (auto elim!: inrangeE)
  have "pw j \<le> pw k" using assms(6) q by (simp del: pw_le_iff)
  then have "0 \<le> k" using assms(2) by simp
  then have "ewma_step (Fin a) x e = Fin (ewma_q a q p)"
    unfolding q(1) p(1) using assms q p by (intro ewma_step_Fin) auto
  then show ?thesis using ewma_q_lower [of a j q p] assms q p by simp
qed

end
