(* ===== verification/RuntimeContext.thy ===== *)
theory RuntimeContext
  imports AdaptTypes Ewma
begin

text \<open>
  The runtime context of \<open>src/runtime_context.c\<close>: the producer's averages of the arrival rate,
  the drain rate and the occupancy, and the queue-wait estimate. The clock that
  \<open>adapt_rtctx_queue_wait_us\<close> reads is an argument. The contexts are fields of the endpoint
  and never null where they are written.
\<close>

record adapt_rtctx =
  ewma_arrival_bps :: double
  ewma_drain_bps :: double
  ewma_occ_bytes :: double
  ewma_latency_us :: double
  prev_occ_bytes :: double
  last_ns :: u64
  last_drain_ns :: u64
  samples :: u32
  drain_valid :: bool
  min_samples :: u32

definition ADAPT_DRAIN_FLOOR_BPS :: double where "ADAPT_DRAIN_FLOOR_BPS = Fin 50000000"
definition ADAPT_ACTIVE_WINDOW_NS :: u64 where "ADAPT_ACTIVE_WINDOW_NS = 20000000"
definition ADAPT_DRAIN_STALE_NS :: u64 where "ADAPT_DRAIN_STALE_NS = 5000000"
definition UINT_MAX :: u32 where "UINT_MAX = - 1"

definition adapt_rtctx_init :: "u32 \<Rightarrow> adapt_rtctx" where
  "adapt_rtctx_init n = \<lparr>ewma_arrival_bps = 0, ewma_drain_bps = 0, ewma_occ_bytes = 0,
     ewma_latency_us = 0, prev_occ_bytes = 0, last_ns = 0, last_drain_ns = 0, samples = 0,
     drain_valid = False, min_samples = (if n \<noteq> 0 then n else 8)\<rparr>"

subsection \<open>One observation\<close>

text \<open>The elapsed time in seconds; \<open>Fin 0\<close> without a previous observation.\<close>

definition rtctx_dt_ns :: "adapt_rtctx \<Rightarrow> u64 \<Rightarrow> double" where
  "rtctx_dt_ns rc now = (if last_ns rc \<noteq> 0 \<and> last_ns rc < now then d_of_u64 (now - last_ns rc) else 0)"

definition rate_bps :: "double \<Rightarrow> double \<Rightarrow> double" where
  "rate_bps bytes dt = bytes / (dt / Fin 1000000000)"

text \<open>The drain-rate branch: a sample when the ring holds less than after the previous push.\<close>

definition drain_observe :: "adapt_rtctx \<Rightarrow> csize \<Rightarrow> u64 \<Rightarrow> double \<Rightarrow> double \<Rightarrow> adapt_rtctx" where
  "drain_observe rc occ now dt alpha =
    (let expected = prev_occ_bytes rc in
     if d_of_u64 occ < expected then
       let drained = expected - d_of_u64 occ;
           rc = rc\<lparr>ewma_drain_bps := ewma_step alpha (rate_bps drained dt) (ewma_drain_bps rc)\<rparr>;
           rc = (if samples rc < UINT_MAX then rc\<lparr>samples := samples rc + 1\<rparr> else rc) in
       (if 0 < drained then rc\<lparr>drain_valid := True, last_drain_ns := now\<rparr> else rc)
     else rc)"

definition adapt_rtctx_sample :: "adapt_rtctx \<Rightarrow> csize \<Rightarrow> csize \<Rightarrow> u64 \<Rightarrow> double \<Rightarrow> adapt_rtctx" where
  "adapt_rtctx_sample rc payload occ now alpha =
    (let dt = rtctx_dt_ns rc now;
         rc = (if 0 < dt then
                 drain_observe (rc\<lparr>ewma_arrival_bps :=
                     ewma_step alpha (rate_bps (d_of_u64 payload) dt) (ewma_arrival_bps rc)\<rparr>)
                   occ now dt alpha
               else rc);
         occ_a = alpha * Fin (1 / 4);
         rc = rc\<lparr>ewma_occ_bytes := ewma_step occ_a (d_of_u64 occ) (ewma_occ_bytes rc)\<rparr> in
     rc\<lparr>prev_occ_bytes := d_of_u64 occ + d_of_u64 payload, last_ns := now\<rparr>)"

subsection \<open>The queue wait\<close>

definition drain_fresh :: "adapt_rtctx option \<Rightarrow> u64 \<Rightarrow> bool" where
  "drain_fresh rc clk = (case rc of None \<Rightarrow> False
     | Some r \<Rightarrow> last_drain_ns r \<noteq> 0 \<and> last_drain_ns r \<le> clk \<and> clk - last_drain_ns r < ADAPT_DRAIN_STALE_NS)"

definition drain_reliable :: "adapt_rtctx option \<Rightarrow> u64 \<Rightarrow> bool" where
  "drain_reliable rc clk = (case rc of None \<Rightarrow> False
     | Some r \<Rightarrow> min_samples r \<le> samples r \<and> drain_valid r \<and> drain_fresh rc clk)"

definition drain_rate :: "adapt_rtctx option \<Rightarrow> u64 \<Rightarrow> double" where
  "drain_rate rc clk =
    (let rate = (if drain_reliable rc clk then ewma_drain_bps (the rc) else 0) in
     if rate \<le> ADAPT_DRAIN_FLOOR_BPS then ADAPT_DRAIN_FLOOR_BPS else rate)"

definition adapt_rtctx_queue_wait_us :: "adapt_rtctx option \<Rightarrow> csize \<Rightarrow> csize \<Rightarrow> u64 \<Rightarrow> double" where
  "adapt_rtctx_queue_wait_us rc incoming occ clk =
    (let bytes = d_of_u64 occ in
     if bytes \<le> 0 then 0 else
     let us = bytes / drain_rate rc clk * Fin 1000000 in
     if isfinite us then us else 0)"


subsection \<open>Ranges\<close>

lemma inrange_add:
  assumes "inrange k x" "inrange k y" "-1000 \<le> k" "k \<le> 1000" shows "inrange (k + 1) (x + y)"
proof -
  obtain p q where p: "x = Fin p" "0 \<le> p" "p \<le> pw k" and q: "y = Fin q" "0 \<le> q" "q \<le> pw k"
    using assms(1,2) by (auto elim!: inrangeE)
  have b: "\<bar>p + q\<bar> \<le> pw (k + 1)" using p q by (simp add: pw_add)
  have "0 \<le> fl (p + q)" using p q by (intro fl_nonneg) simp
  then show ?thesis
    using round64_bounded [OF b] assms(3,4) p q valid64_round64 [of "p + q"] by (auto simp: inrange_def)
qed

lemma inrange_div:
  assumes "inrange k x" "d = Fin q" "pw j \<le> q" "-1000 \<le> k - j" "k - j \<le> 1000"
  shows "inrange (k - j) (x / d)"
proof -
  obtain p where p: "x = Fin p" "0 \<le> p" "p \<le> pw k" using assms(1) by (auto elim!: inrangeE)
  have q: "0 < q" using assms(3) pw_pos(1) [of j] by linarith
  have "p / q \<le> pw k / pw j" using p assms(3) q by (intro frac_le) auto
  then have b: "\<bar>p / q\<bar> \<le> pw (k - j)" using p q by (simp add: pw_diff)
  have "0 \<le> fl (p / q)" using p q by (intro fl_nonneg) simp
  then show ?thesis
    using round64_bounded [OF b] assms(2,4,5) p q valid64_round64 [of "p / q"] by (auto simp: inrange_def)
qed

text \<open>A difference of a value and a smaller one stays in range.\<close>

lemma inrange_sub:
  assumes "inrange k x" "Fin 0 \<le> y" "y < x" "-1000 \<le> k" "k \<le> 1000" shows "inrange k (x - y)"
proof -
  obtain p where p: "x = Fin p" "0 \<le> p" "p \<le> pw k" using assms(1) by (auto elim!: inrangeE)
  then obtain q where q: "y = Fin q" "0 \<le> q" "q < p" using assms(2,3) by (cases y) auto
  have b: "\<bar>p - q\<bar> \<le> pw k" using p q by simp
  have "0 \<le> fl (p - q)" using q by (intro fl_nonneg) simp
  then show ?thesis
    using round64_bounded [OF b] assms(4,5) p q valid64_round64 [of "p - q"]
    by (auto simp: inrange_def minus_double_def)
qed

lemma rat_of_u64_pos: "w \<noteq> 0 \<Longrightarrow> 1 \<le> rat_of_u64 w"
proof -
  assume "w \<noteq> 0"
  then have "1 \<le> unat w" by (simp add: unat_gt_0 Suc_le_eq)
  then have "(of_nat 1 :: rat) \<le> of_nat (unat w)" by (simp only: of_nat_le_iff)
  then show ?thesis by (simp add: rat_of_u64_def)
qed

lemma rate_bps_inrange:
  assumes "inrange k x" "w \<noteq> 0" "-900 \<le> k" "k \<le> 900"
  shows "inrange (k + 30) (rate_bps x (d_of_u64 w))"
proof -
  obtain q where q: "d_of_u64 w = Fin q" "0 \<le> q" "q \<le> pw 64" using d_of_u64_Fin by blast
  have "1 \<le> rat_of_u64 w" using assms(2) by (rule rat_of_u64_pos)
  then have q1: "1 \<le> q" using q(1) fl_ge [of 1 "rat_of_u64 w"] by (simp add: d_of_u64_eq)
  have b: "\<bar>q / 1000000000\<bar> \<le> pw 64" using q by simp
  have "pw (-30) \<le> q / 1000000000" using q1 by (simp add: power_int_minus field_simps)
  then have lo: "pw (-30) \<le> fl (q / 1000000000)" by (intro fl_ge repr64_pw) auto
  have "d_of_u64 w / Fin 1000000000 = Fin (fl (q / 1000000000))"
    using round64_bounded(1) [OF b] q(1) by simp
  then have "inrange (k - (-30)) (x / (d_of_u64 w / Fin 1000000000))"
    using assms lo by (intro inrange_div) auto
  then show ?thesis by (simp add: rate_bps_def)
qed

lemma u64_word_le: "unat occ \<le> 2 ^ m \<Longrightarrow> inrange (int m) (d_of_u64 occ)"
proof -
  assume a: "unat occ \<le> 2 ^ m"
  have "rat_of_u64 occ \<le> of_nat (2 ^ m)" unfolding rat_of_u64_def using a by (simp only: of_nat_le_iff)
  then have "rat_of_u64 occ \<le> pw (int m)" by simp
  then have "fl (rat_of_u64 occ) \<le> pw (int m)" by (intro fl_le repr64_pw) auto
  then show ?thesis using valid64_d_of_u64 [of occ] by (auto simp: inrange_def d_of_u64_eq intro: fl_nonneg)
qed

text \<open>What every observation keeps: all averages are finite, in a fixed range, and the occupancy
  average is below the bound \<open>2 ^ m\<close> of the occupancies.\<close>

definition rtctx_ok :: "nat \<Rightarrow> adapt_rtctx \<Rightarrow> bool" where
  "rtctx_ok m rc \<longleftrightarrow> inrange 94 (ewma_arrival_bps rc) \<and> inrange 95 (ewma_drain_bps rc) \<and>
     inrange (int m) (ewma_occ_bytes rc) \<and> inrange 65 (prev_occ_bytes rc)"

lemma rtctx_init_ok: "rtctx_ok m (adapt_rtctx_init n)"
  by (simp add: rtctx_ok_def adapt_rtctx_init_def zero_double_def)

lemma weight_quarter:
  assumes "weight a" shows "\<exists>b. Fin a * Fin (1 / 4) = Fin b \<and> weight b"
proof -
  have a: "0 \<le> a" "a \<le> 1" using assms by (auto simp: weight_def)
  then have b: "\<bar>a * (1 / 4)\<bar> \<le> pw 0" by simp
  have "0 \<le> fl (a * (1 / 4))" using a by (intro fl_nonneg) simp
  then have "Fin a * Fin (1 / 4) = Fin (fl (a * (1 / 4)))" "weight (fl (a * (1 / 4)))"
    using round64_bounded [OF b] by (auto simp: weight_def)
  then show ?thesis by blast
qed

lemma drain_observe_ok:
  assumes "rtctx_ok m rc" "weight a" "w \<noteq> 0"
  shows "rtctx_ok m (drain_observe rc occ now (d_of_u64 w) (Fin a))"
proof -
  have "d_of_u64 occ < prev_occ_bytes rc \<Longrightarrow>
      inrange 95 (ewma_step (Fin a) (rate_bps (prev_occ_bytes rc - d_of_u64 occ) (d_of_u64 w)) (ewma_drain_bps rc))"
  proof -
    assume l: "d_of_u64 occ < prev_occ_bytes rc"
    have "inrange 65 (prev_occ_bytes rc - d_of_u64 occ)"
      using assms(1) l by (intro inrange_sub d_of_u64_nonneg) (auto simp: rtctx_ok_def)
    then have "inrange (65 + 30) (rate_bps (prev_occ_bytes rc - d_of_u64 occ) (d_of_u64 w))"
      using assms(3) by (intro rate_bps_inrange) auto
    then show ?thesis using assms by (intro inrange_ewma_step) (auto simp: rtctx_ok_def)
  qed
  then show ?thesis using assms(1) by (simp add: drain_observe_def Let_def rtctx_ok_def)
qed

lemma rtctx_dt: "rtctx_dt_ns rc now = (if last_ns rc \<noteq> 0 \<and> last_ns rc < now
    then d_of_u64 (now - last_ns rc) else Fin 0)"
  by (simp add: rtctx_dt_ns_def zero_double_def)

lemma rtctx_sample_ok:
  assumes ok: "rtctx_ok m rc" and a: "weight a" and occ: "unat occ \<le> 2 ^ m" and m: "m \<le> 64"
  shows "rtctx_ok m (adapt_rtctx_sample rc payload occ now (Fin a))"
proof -
  define dt where "dt = rtctx_dt_ns rc now"
  define rc1 where "rc1 = (if 0 < dt then drain_observe (rc\<lparr>ewma_arrival_bps :=
      ewma_step (Fin a) (rate_bps (d_of_u64 payload) dt) (ewma_arrival_bps rc)\<rparr>) occ now dt (Fin a) else rc)"
  have ok1: "rtctx_ok m rc1"
  proof (cases "0 < dt")
    case True
    then obtain w where w: "dt = d_of_u64 w" "w \<noteq> 0"
      by (auto simp: dt_def rtctx_dt zero_double_def split: if_splits)
    have "inrange (64 + 30) (rate_bps (d_of_u64 payload) dt)"
      unfolding w(1) using w(2) inrange_d_of_u64 by (intro rate_bps_inrange) auto
    then have "inrange 94 (ewma_step (Fin a) (rate_bps (d_of_u64 payload) dt) (ewma_arrival_bps rc))"
      using ok a by (intro inrange_ewma_step) (auto simp: rtctx_ok_def)
    then have "rtctx_ok m (rc\<lparr>ewma_arrival_bps :=
        ewma_step (Fin a) (rate_bps (d_of_u64 payload) dt) (ewma_arrival_bps rc)\<rparr>)"
      using ok by (simp add: rtctx_ok_def)
    then show ?thesis unfolding rc1_def w(1) using True w drain_observe_ok [OF _ a w(2)] by auto
  qed (simp add: rc1_def ok)
  obtain b where b: "Fin a * Fin (1 / 4) = Fin b" "weight b" using weight_quarter [OF a] by blast
  have "inrange (int m) (ewma_step (Fin b) (d_of_u64 occ) (ewma_occ_bytes rc1))"
    using b ok1 u64_word_le [OF occ] m by (intro inrange_ewma_step) (auto simp: rtctx_ok_def)
  moreover have "inrange (64 + 1) (d_of_u64 occ + d_of_u64 payload)"
    by (intro inrange_add inrange_d_of_u64) auto
  ultimately show ?thesis
    using ok1 unfolding adapt_rtctx_sample_def Let_def b dt_def [symmetric] rc1_def [symmetric]
    by (simp add: rtctx_ok_def)
qed

subsection \<open>The wait as a rational\<close>

definition wait_q :: "rat \<Rightarrow> rat \<Rightarrow> rat" where
  "wait_q b r = fl (fl (b / r) * 1000000)"

lemma wait_q_mono: "0 < r \<Longrightarrow> b \<le> b' \<Longrightarrow> wait_q b r \<le> wait_q b' r"
  unfolding wait_q_def by (intro fl_mono mult_right_mono divide_right_mono) auto

lemma wait_q_antimono: "0 < r \<Longrightarrow> r \<le> r' \<Longrightarrow> 0 \<le> b \<Longrightarrow> wait_q b r' \<le> wait_q b r"
  unfolding wait_q_def by (intro fl_mono mult_right_mono divide_left_mono) auto

lemma drain_rate_Fin:
  assumes "\<forall>r. rc = Some r \<longrightarrow> inrange 95 (ewma_drain_bps r)"
  shows "\<exists>r. drain_rate rc clk = Fin r \<and> 50000000 \<le> r"
proof (cases "drain_reliable rc clk")
  case True
  then obtain r where r: "rc = Some r" by (cases rc) (auto simp: drain_reliable_def)
  then obtain q where "ewma_drain_bps r = Fin q" using assms by (auto elim: inrangeE)
  then show ?thesis using True r by (auto simp: drain_rate_def ADAPT_DRAIN_FLOOR_BPS_def)
next
  case False
  then show ?thesis by (simp add: drain_rate_def ADAPT_DRAIN_FLOOR_BPS_def zero_double_def)
qed

lemma drain_rate_None: "drain_rate None clk = Fin 50000000"
  by (simp add: drain_rate_def drain_reliable_def ADAPT_DRAIN_FLOOR_BPS_def zero_double_def)

lemma queue_wait_eq:
  assumes "drain_rate rc clk = Fin r" "50000000 \<le> r"
  shows "adapt_rtctx_queue_wait_us rc incoming occ clk = Fin (wait_q (fl (rat_of_u64 occ)) r)"
proof -
  obtain b where b: "d_of_u64 occ = Fin b" "0 \<le> b" "b \<le> pw 64" using d_of_u64_Fin by blast
  then have bq: "fl (rat_of_u64 occ) = b" by (simp add: d_of_u64_eq)
  have "b / r \<le> pw 64 / 50000000" using b assms(2) by (intro frac_le) auto
  also have "\<dots> \<le> pw 39" by simp
  finally have q: "\<bar>b / r\<bar> \<le> pw 39" using b assms(2) by simp
  have "\<bar>fl (b / r) * 1000000\<bar> \<le> pw 39 * pw 20"
    using round64_bounded(2) [OF q] unfolding abs_mult by (intro mult_mono) auto
  then have u: "\<bar>fl (b / r) * 1000000\<bar> \<le> pw 59" by (simp only: pw_add [symmetric]) simp
  have us: "Fin b / Fin r * Fin 1000000 = Fin (wait_q b r)"
    using round64_bounded(1) [OF q] round64_bounded(1) [OF u] assms(2) by (simp add: wait_q_def)
  show ?thesis
  proof (cases "b \<le> 0")
    case True
    then have "b = 0" using b by simp
    then show ?thesis using b bq by (simp add: adapt_rtctx_queue_wait_us_def zero_double_def wait_q_def)
  next
    case False
    then show ?thesis using b bq us assms(1)
      by (simp add: adapt_rtctx_queue_wait_us_def Let_def zero_double_def)
  qed
qed

lemma wait_q_nonneg: "0 \<le> b \<Longrightarrow> 0 < r \<Longrightarrow> 0 \<le> wait_q b r"
  unfolding wait_q_def by (intro fl_nonneg mult_nonneg_nonneg) (auto intro!: fl_nonneg)

subsection \<open>Properties\<close>

text \<open>No observation ever makes an estimate infinite, negative or not a number: with a
  smoothing weight in the unit interval the averages stay in fixed ranges, and the smoothed
  occupancy stays within the bound of the occupancies, so its conversion to an integer is
  always defined.\<close>

lemma adapt_rtctx_sample_ranges:
  assumes "rtctx_ok m rc" "weight a" "unat occ \<le> 2 ^ m" "m \<le> 63"
  shows "rtctx_ok m (adapt_rtctx_sample rc payload occ now (Fin a)) \<and>
    unat (u64_of_d (ewma_occ_bytes (adapt_rtctx_sample rc payload occ now (Fin a)))) \<le> 2 ^ m"
proof
  have m: "m \<le> 64" using assms(4) by simp
  show ok: "rtctx_ok m (adapt_rtctx_sample rc payload occ now (Fin a))"
    by (rule rtctx_sample_ok [OF assms(1-3) m])
  obtain x where x: "ewma_occ_bytes (adapt_rtctx_sample rc payload occ now (Fin a)) = Fin x"
    "0 \<le> x" "x \<le> pw (int m)" using ok by (auto simp: rtctx_ok_def elim: inrangeE)
  have "x \<le> of_int (2 ^ m)" using x(3) by (simp add: pw_int)
  then have f: "0 \<le> \<lfloor>x\<rfloor>" "\<lfloor>x\<rfloor> \<le> 2 ^ m" using x(2) floor_mono [of x "of_int (2 ^ m)"] by simp_all
  have "(2::nat) ^ m \<le> 2 ^ 63" using assms(4) by (intro power_increasing) auto
  then have "(2::int) ^ m \<le> 2 ^ 63" by (metis of_nat_le_iff of_nat_power of_nat_numeral)
  moreover have "(2::int) ^ 63 < 2 ^ 64" by simp
  ultimately have f2: "\<lfloor>x\<rfloor> < 2 ^ 64" using f(2) by linarith
  have x64: "x < 2 ^ 64" using f2 by (simp add: floor_less_iff)
  have "unat (word_of_int \<lfloor>x\<rfloor> :: u64) = nat \<lfloor>x\<rfloor>"
    using f(1) f2 by (simp add: unat_eq_nat_uint uint_word_of_int)
  then show "unat (u64_of_d (ewma_occ_bytes (adapt_rtctx_sample rc payload occ now (Fin a)))) \<le> 2 ^ m"
    using x f x64 by (simp add: u64_of_d_def nat_le_iff)
qed

text \<open>C36: The estimated queue wait is finite, not negative, 0 on an empty queue, grows with the
  bytes ahead, and never exceeds what the 50 MB/s fallback gives: a consumer slower than the
  fallback has its wait underestimated, also when its rate is measured.\<close>

lemma queue_wait_bounds:
  assumes "rtctx_ok m rc" "occ \<le> occ'"
  shows "Fin 0 \<le> adapt_rtctx_queue_wait_us (Some rc) n occ clk \<and>
    adapt_rtctx_queue_wait_us (Some rc) n occ clk \<le> adapt_rtctx_queue_wait_us (Some rc) n occ' clk \<and>
    adapt_rtctx_queue_wait_us (Some rc) n occ' clk \<le> adapt_rtctx_queue_wait_us None n occ' clk \<and>
    adapt_rtctx_queue_wait_us (Some rc) n 0 clk = Fin 0"
proof -
  obtain r where r: "drain_rate (Some rc) clk = Fin r" "50000000 \<le> r"
    using drain_rate_Fin [of "Some rc" clk] assms(1) by (auto simp: rtctx_ok_def)
  have b: "fl (rat_of_u64 occ) \<le> fl (rat_of_u64 occ')" "0 \<le> fl (rat_of_u64 occ)" "0 \<le> fl (rat_of_u64 occ')"
    using assms(2) by (auto intro: fl_mono fl_nonneg simp: rat_of_u64_le_iff)
  show ?thesis
    unfolding queue_wait_eq [OF r] queue_wait_eq [OF drain_rate_None order_refl]
    using wait_q_nonneg [OF b(2), of r] wait_q_mono [OF _ b(1), of r]
      wait_q_antimono [OF _ r(2) b(3)] r(2) by (simp add: wait_q_def [of 0])
qed


subsection \<open>The properties at concrete inputs\<close>

lemma weight_half: "weight (1 / 2)"
proof -
  have "repr64 (pw (-1))" by (rule repr64_pw) simp
  then show ?thesis by (simp add: weight_def power_int_minus field_simps)
qed

lemma adapt_rtctx_sample_ranges_witness:
  "rtctx_ok 16 (adapt_rtctx_sample (adapt_rtctx_init 8) 100 65536 7 (Fin (1 / 2)))"
  using adapt_rtctx_sample_ranges [OF rtctx_init_ok weight_half, of 65536 16 8 100 7] by simp

lemma queue_wait_bounds_witness:
  "adapt_rtctx_queue_wait_us (Some (adapt_rtctx_init 8)) 1 2 9 \<le>
   adapt_rtctx_queue_wait_us (Some (adapt_rtctx_init 8)) 1 5 9"
  using queue_wait_bounds [OF rtctx_init_ok, of 2 5 8 1 9] by simp


end
