(* ===== verification/CostModel.thy ===== *)
theory CostModel
  imports RuntimeContext
begin

text \<open>
  The cost configuration, its environment overrides and the online calibration of
  \<open>src/cost_model.c\<close>. \<open>getenv\<close> and \<open>atof\<close> are arguments of the functions that call them.
  The arrays of four entries are functions on the index; the flat layout is the code's:
  UDS small and large at 0 and 1, SHM small and large at 2 and 3.
\<close>

record adapt_cost_cfg =
  uds_fixed_us :: double
  uds_slope_us_per_b :: double
  shm_fixed_us :: double
  shm_slope_us_per_b :: double
  switch_cost_us :: double
  margin_us :: double
  setup_cost_us :: double
  shm_notify_floor_us :: double
  shm_active_notify_us :: double
  health_penalty_us :: "adapt_health_state_t \<Rightarrow> double"
  cfg_qos :: adapt_qos_t
  latency_budget_us :: double
  latency_weight :: double
  learn_min_samples :: u32
  learn_alpha :: double
  crossover_min_b :: double
  crossover_max_b :: double

definition adapt_cost_cfg_defaults :: adapt_cost_cfg where
  "adapt_cost_cfg_defaults = \<lparr>
     uds_fixed_us = Fin 3, uds_slope_us_per_b = round64 (15 / 10000),
     shm_fixed_us = round64 (3 / 10), shm_slope_us_per_b = round64 (4 / 10000),
     switch_cost_us = Fin 20, margin_us = Fin 5, setup_cost_us = Fin 52,
     shm_notify_floor_us = Fin 2000, shm_active_notify_us = Fin 5,
     health_penalty_us = (\<lambda>s. case s of ADAPT_HEALTH_UNAVAILABLE \<Rightarrow> Fin 1000000
        | ADAPT_HEALTH_HEALTHY \<Rightarrow> Fin 0 | ADAPT_HEALTH_DEGRADED \<Rightarrow> Fin 100
        | ADAPT_HEALTH_BLOCKED \<Rightarrow> Fin 1000 | ADAPT_HEALTH_RECOVERING \<Rightarrow> Fin 25),
     cfg_qos = ADAPT_QOS_BALANCED, latency_budget_us = Fin 0, latency_weight = Fin 1,
     learn_min_samples = 32, learn_alpha = round64 (1 / 10),
     crossover_min_b = Fin 512, crossover_max_b = Fin 1048576\<rparr>"

text \<open>\<open>(unsigned)d\<close>: truncation toward zero, undefined outside the type (0 there).\<close>

definition u32_of_d :: "double \<Rightarrow> u32" where
  "u32_of_d d = (case d of Fin x \<Rightarrow> if -1 < x \<and> x < 2 ^ 32 then word_of_int \<lfloor>max 0 x\<rfloor> else 0 | _ \<Rightarrow> 0)"

definition d_of_u32 :: "u32 \<Rightarrow> double" where
  "d_of_u32 w = Fin (of_nat (unat w))"

definition env_dbl :: "(string \<Rightarrow> string option) \<Rightarrow> (string \<Rightarrow> double) \<Rightarrow> string \<Rightarrow> double \<Rightarrow> double" where
  "env_dbl getenv atof name cur = (case getenv name of None \<Rightarrow> cur | Some v \<Rightarrow> atof v)"

definition adapt_cost_cfg_from_env ::
  "(string \<Rightarrow> string option) \<Rightarrow> (string \<Rightarrow> double) \<Rightarrow> adapt_cost_cfg \<Rightarrow> adapt_cost_cfg" where
  "adapt_cost_cfg_from_env getenv atof cfg = (let e = env_dbl getenv atof in cfg\<lparr>
     switch_cost_us := e ''ADAPTIPC_SWITCH_COST_US'' (switch_cost_us cfg),
     margin_us := e ''ADAPTIPC_MARGIN_US'' (margin_us cfg),
     setup_cost_us := e ''ADAPTIPC_SETUP_COST_US'' (setup_cost_us cfg),
     shm_notify_floor_us := e ''ADAPTIPC_NOTIFY_FLOOR_US'' (shm_notify_floor_us cfg),
     latency_budget_us := e ''ADAPTIPC_LATENCY_BUDGET_US'' (latency_budget_us cfg),
     learn_min_samples := u32_of_d (e ''ADAPTIPC_MIN_SAMPLES'' (d_of_u32 (learn_min_samples cfg))),
     learn_alpha := e ''ADAPTIPC_LEARN_ALPHA'' (learn_alpha cfg)\<rparr>)"

subsection \<open>Calibration\<close>

record adapt_learn =
  cls_mean_us :: "nat \<Rightarrow> double"
  cls_mean_b :: "nat \<Rightarrow> double"
  ln_n :: "nat \<Rightarrow> u64"
  fixed_us :: "nat \<Rightarrow> double"
  slope_us_per_b :: "nat \<Rightarrow> double"
  crossover_b :: double
  crossover_updates :: u32

definition ADAPT_LEARN_SMALL_MAX :: csize where "ADAPT_LEARN_SMALL_MAX = 1024"

definition adapt_learn_init :: "adapt_cost_cfg \<Rightarrow> adapt_learn" where
  "adapt_learn_init cfg = \<lparr>cls_mean_us = (\<lambda>_. 0), cls_mean_b = (\<lambda>_. 0), ln_n = (\<lambda>_. 0),
     fixed_us = (\<lambda>i. if i < 2 then uds_fixed_us cfg else shm_fixed_us cfg),
     slope_us_per_b = (\<lambda>i. if i < 2 then uds_slope_us_per_b cfg else shm_slope_us_per_b cfg),
     crossover_b = Fin (- 1), crossover_updates = 0\<rparr>"

definition LIDX :: "adapt_route_t \<Rightarrow> nat \<Rightarrow> nat" where
  "LIDX t c = (if t = ADAPT_ROUTE_UDS then 0 else 2) + c"

definition slope_min :: double where "slope_min = round64 (1 / 1000000)"
definition dfs_min :: double where "dfs_min = round64 (1 / 1000000000)"

text \<open>The refit of one transport from its two class means, if it is usable.\<close>

definition refit :: "adapt_learn \<Rightarrow> nat \<Rightarrow> nat \<Rightarrow> adapt_learn" where
  "refit l idx oth =
    (let ds = cls_mean_b l idx - cls_mean_b l oth in
     if Fin 128 < \<bar>ds\<bar> then
       let slope = (cls_mean_us l idx - cls_mean_us l oth) / ds in
       if isfinite slope \<and> slope_min < slope then
         let fixed = cls_mean_us l idx - slope * cls_mean_b l idx in
         if isfinite fixed \<and> 0 \<le> fixed then
           l\<lparr>slope_us_per_b := (slope_us_per_b l)(idx := slope, oth := slope),
             fixed_us := (fixed_us l)(idx := fixed, oth := fixed)\<rparr>
         else l
       else l
     else l)"

definition observe_class :: "adapt_learn \<Rightarrow> adapt_cost_cfg \<Rightarrow> nat \<Rightarrow> csize \<Rightarrow> double \<Rightarrow> adapt_learn" where
  "observe_class l cfg idx sz cost =
    (let a = learn_alpha cfg;
         l = l\<lparr>cls_mean_us := (cls_mean_us l)(idx := ewma_step a cost (cls_mean_us l idx)),
               cls_mean_b := (cls_mean_b l)(idx := ewma_step a (d_of_u64 sz) (cls_mean_b l idx)),
               ln_n := (ln_n l)(idx := if ln_n l idx < - 1 then ln_n l idx + 1 else ln_n l idx)\<rparr>;
         oth = (if idx mod 2 = 0 then idx + 1 else idx - 1);
         base = (idx div 2) * 2 in
     if ucast (learn_min_samples cfg) \<le> ln_n l base \<and> ucast (learn_min_samples cfg) \<le> ln_n l (base + 1)
     then refit l idx oth else l)"

definition adapt_learn_observe ::
  "adapt_learn \<Rightarrow> adapt_cost_cfg \<Rightarrow> adapt_route_t \<Rightarrow> csize \<Rightarrow> double \<Rightarrow> adapt_learn" where
  "adapt_learn_observe l cfg transport sz cost =
    (if \<not> isfinite cost \<or> cost < 0 then l
     else if transport \<noteq> ADAPT_ROUTE_UDS \<and> transport \<noteq> ADAPT_ROUTE_SHM then l
     else let cls = (if sz \<le> ADAPT_LEARN_SMALL_MAX then 0 else 1) in
       observe_class l cfg (LIDX transport cls) sz cost)"

text \<open>The crossover with the new state; the code returns it and updates the state in place.\<close>

definition adapt_learn_crossover :: "adapt_learn \<Rightarrow> adapt_cost_cfg \<Rightarrow> double \<times> adapt_learn" where
  "adapt_learn_crossover l cfg =
    (let min = ucast (learn_min_samples cfg) in
     if ln_n l 0 < min \<or> ln_n l 2 < min \<or> ln_n l 1 < min \<or> ln_n l 3 < min then (crossover_b l, l) else
     let dfs = slope_us_per_b l 0 - slope_us_per_b l 2 in
     if dfs \<le> dfs_min then (crossover_b l, l) else
     let s = (fixed_us l 2 - fixed_us l 0) / dfs in
     if \<not> isfinite s then (crossover_b l, l) else
     let s = (if s < crossover_min_b cfg then crossover_min_b cfg else s);
         s = (if crossover_max_b cfg < s then crossover_max_b cfg else s);
         c = (if crossover_b l < 0 then s
              else crossover_b l + learn_alpha cfg * (s - crossover_b l)) in
     (c, l\<lparr>crossover_b := c, crossover_updates := crossover_updates l + 1\<rparr>))"

subsection \<open>Cost primitives\<close>

definition adapt_cost_uds :: "adapt_cost_cfg \<Rightarrow> csize \<Rightarrow> double" where
  "adapt_cost_uds cfg sz = uds_fixed_us cfg + uds_slope_us_per_b cfg * d_of_u64 sz"

definition adapt_cost_shm :: "adapt_cost_cfg \<Rightarrow> csize \<Rightarrow> double \<Rightarrow> double \<Rightarrow> bool \<Rightarrow> double" where
  "adapt_cost_shm cfg sz queue_wait health_penalty shm_mapped =
    (let c = shm_fixed_us cfg + shm_slope_us_per_b cfg * d_of_u64 sz;
         c = (if 0 < queue_wait then c + queue_wait else c);
         c = (if 0 < health_penalty then c + health_penalty else c) in
     if \<not> shm_mapped then c + setup_cost_us cfg else c)"


subsection \<open>The fitted costs stay usable\<close>

definition fit_ok :: "double \<Rightarrow> double \<Rightarrow> bool" where
  "fit_ok fixed slope \<longleftrightarrow> isfinite fixed \<and> 0 \<le> fixed \<and> isfinite slope \<and> 0 < slope"

definition learn_ok :: "adapt_learn \<Rightarrow> bool" where
  "learn_ok l \<longleftrightarrow> (\<forall>i\<in>{0, 2}. fit_ok (fixed_us l i) (slope_us_per_b l i) \<and>
     fixed_us l (i + 1) = fixed_us l i \<and> slope_us_per_b l (i + 1) = slope_us_per_b l i)"

lemma slope_min_pos: "0 < slope_min"
proof -
  have "Fin (pw (-20)) \<le> slope_min" unfolding slope_min_def
  proof (rule round64_ge)
    show "pw (-20) \<le> 1 / 1000000" by (simp add: power_int_minus)
    show "valid64 (Fin (pw (-20)))"
      unfolding valid64.simps abs_of_pos [OF pw_pos(1)] by (intro conjI repr64_pw pw_less_ovf64) simp_all
  qed
  moreover have "0 < Fin (pw (-20))" by (simp add: zero_double_def)
  ultimately show ?thesis using double_less_le_trans by blast
qed

lemma double_less_trans: "a < b \<Longrightarrow> b < c \<Longrightarrow> a < (c :: double)"
  using double_less_imp_le double_less_le_trans by blast

lemma refit_cases:
  "refit l idx oth = l \<or> (\<exists>slope fixed. fit_ok fixed slope \<and>
     refit l idx oth = l\<lparr>slope_us_per_b := (slope_us_per_b l)(idx := slope, oth := slope),
       fixed_us := (fixed_us l)(idx := fixed, oth := fixed)\<rparr>)"
proof -
  have "fit_ok fixed slope" if "isfinite slope" "slope_min < slope" "isfinite fixed" "0 \<le> fixed" for fixed slope
    using that slope_min_pos double_less_trans by (auto simp: fit_ok_def)
  then show ?thesis unfolding refit_def Let_def by (simp split: if_split) blast
qed

lemma refit_ok:
  assumes "learn_ok l" "(idx, oth) \<in> {(0, 1), (1, 0), (2, 3), (3, 2)}"
  shows "learn_ok (refit l idx oth)"
  using refit_cases [of l idx oth]
proof
  assume "\<exists>slope fixed. fit_ok fixed slope \<and>
     refit l idx oth = l\<lparr>slope_us_per_b := (slope_us_per_b l)(idx := slope, oth := slope),
       fixed_us := (fixed_us l)(idx := fixed, oth := fixed)\<rparr>"
  then show ?thesis using assms by (auto simp: learn_ok_def)
qed (simp add: assms(1))

lemma LIDX_cases: "LIDX t c \<in> {0, 1, 2, 3}" if "c < 2"
  using that by (auto simp: LIDX_def less_2_cases_iff)

lemma observe_class_ok:
  assumes "learn_ok l" "idx \<in> {0, 1, 2, 3}" shows "learn_ok (observe_class l cfg idx sz cost)"
proof -
  let ?l = "l\<lparr>cls_mean_us := (cls_mean_us l)(idx := ewma_step (learn_alpha cfg) cost (cls_mean_us l idx)),
      cls_mean_b := (cls_mean_b l)(idx := ewma_step (learn_alpha cfg) (d_of_u64 sz) (cls_mean_b l idx)),
      ln_n := (ln_n l)(idx := if ln_n l idx < - 1 then ln_n l idx + 1 else ln_n l idx)\<rparr>"
  have "learn_ok ?l" using assms(1) by (simp add: learn_ok_def)
  moreover have "(idx, if idx mod 2 = 0 then idx + 1 else idx - 1) \<in> {(0, 1), (1, 0), (2, 3), (3, 2)}"
    using assms(2) by auto
  ultimately show ?thesis unfolding observe_class_def Let_def using refit_ok by simp
qed

lemma learn_observe_ok: "learn_ok l \<Longrightarrow> learn_ok (adapt_learn_observe l cfg t sz cost)"
  unfolding adapt_learn_observe_def Let_def
  by (auto intro!: observe_class_ok [OF _ LIDX_cases] simp del: insert_iff)

subsection \<open>A step between two values stays between them\<close>

lemma repr64_ge_form:
  assumes "repr64 x" "pw j \<le> x" obtains m e where "x = of_int m * pw e" "\<bar>m\<bar> \<le> 2 ^ 53" "j - 53 \<le> e"
proof -
  obtain m e where x: "x = of_int m * pw e" "\<bar>m\<bar> \<le> 2 ^ 53" using assms(1) by (auto simp: repr64_def)
  have "(of_int m :: rat) \<le> of_int (2 ^ 53)" using x(2) by (simp only: of_int_le_iff)
  then have "x \<le> pw 53 * pw e" unfolding x(1) by (intro mult_right_mono) simp_all
  then have "pw j \<le> pw (53 + e)" using assms(2) unfolding pw_add by linarith
  then have "j - 53 \<le> e" by simp
  then show ?thesis using that x by blast
qed

lemma repr64_half:
  assumes "repr64 x" "pw j \<le> x" "-1000 \<le> j" shows "repr64 (x / 2)"
proof -
  obtain m e where x: "x = of_int m * pw e" "\<bar>m\<bar> \<le> 2 ^ 53" "j - 53 \<le> e"
    using repr64_ge_form [OF assms(1,2)] by blast
  have "x / 2 = of_int m * pw (e - 1)" unfolding x(1) pw_diff by simp
  then show ?thesis using x assms(3) unfolding repr64_def by (intro exI [of _ m] exI [of _ "e - 1"]) simp
qed

lemma pw_shift: "-53 \<le> e \<Longrightarrow> pw e = of_int (2 ^ nat (e + 53)) * pw (-53)"
proof -
  assume e: "-53 \<le> e"
  have "pw e = pw ((e + 53) + -53)" by simp
  also have "\<dots> = pw (e + 53) * pw (-53)" by (rule pw_add)
  also have "pw (e + 53) = of_int (2 ^ nat (e + 53))" using e by (intro pw_int) simp
  finally show ?thesis .
qed

text \<open>The difference of two different representable values that are at least 1.\<close>

lemma repr64_diff_ge:
  assumes "repr64 x" "repr64 y" "1 \<le> y" "y < x" shows "pw (-53) \<le> x - y"
proof -
  obtain m e where x: "x = of_int m * pw e" "-53 \<le> e"
    using repr64_ge_form [OF assms(1), of 0] assms(3,4)
    by (metis diff_0 less_imp_le order_trans power_int_0_right)
  obtain n f where y: "y = of_int n * pw f" "-53 \<le> f"
    using repr64_ge_form [OF assms(2), of 0] assms(3) by (metis diff_0 power_int_0_right)
  note pe = pw_shift [OF x(2)] and pf = pw_shift [OF y(2)]
  let ?d = "m * 2 ^ nat (e + 53) - n * 2 ^ nat (f + 53)"
  have d: "x - y = of_int ?d * pw (-53)" unfolding x(1) y(1) pe pf by (simp add: algebra_simps)
  then have "0 < (of_int ?d :: rat) * pw (-53)" using assms(4) by simp
  then have "(0::rat) < of_int ?d" using pw_pos(1) [of "-53"] by (simp only: zero_less_mult_iff) auto
  then have "0 < ?d" by (simp only: of_int_0_less_iff)
  then have "(1::rat) \<le> of_int ?d" by (simp only: of_int_1_le_iff)
  then have "1 * pw (-53) \<le> of_int ?d * pw (-53)" by (intro mult_right_mono) auto
  then show ?thesis unfolding d by simp
qed

text \<open>The step of at most half the way, as computed.\<close>

lemma half_step:
  assumes "pw (-53) \<le> x" "0 \<le> a" "a \<le> 1 / 2" shows "0 \<le> fl (a * fl x)" "fl (a * fl x) \<le> x"
proof -
  have x: "0 < x" using assms(1) pw_pos(1) [of "-53"] by linarith
  have lo: "pw (-53) \<le> fl x" using assms(1) by (intro fl_ge repr64_pw) auto
  then have f0: "0 \<le> fl x" using pw_pos(1) [of "-53"] by linarith
  then show "0 \<le> fl (a * fl x)" using assms(2) by (intro fl_nonneg) simp
  note ib = ilog2_bounds [OF x]
  have b: "pw (ilog2 x) \<le> x" using ib by blast
  have "pw (-53) < pw (ilog2 x + 1)" using assms(1) ib by linarith
  then have "-53 \<le> ilog2 x" by (simp only: pw_less_iff)
  then have "pw (ulp_exp x - 1) \<le> pw (ilog2 x)" by (intro pw_mono) (use x in \<open>simp add: ulp_exp_def\<close>)
  then have "fl x \<le> 2 * x" using fl_error [OF x] b abs_ge_self [of "fl x - x"] by linarith
  moreover have "a * fl x \<le> fl x / 2" using assms(3) f0 mult_right_mono [of a "1 / 2" "fl x"] by simp
  then have "fl (a * fl x) \<le> fl x / 2" by (rule fl_le) (rule repr64_half [OF repr64_fl lo], simp)
  ultimately show "fl (a * fl x) \<le> x" by linarith
qed

lemma step_between:
  assumes c: "repr64 c" "1 \<le> c" and s: "repr64 s" "1 \<le> s" and a: "0 \<le> a" "a \<le> 1 / 2"
  shows "min c s \<le> fl (c + fl (a * fl (s - c)))" "fl (c + fl (a * fl (s - c))) \<le> max c s"
proof -
  consider "s = c" | "c < s" | "s < c" by linarith
  then have "min c s \<le> fl (c + fl (a * fl (s - c))) \<and> fl (c + fl (a * fl (s - c))) \<le> max c s"
  proof cases
    case 1
    then show ?thesis using c by (simp add: fl_repr)
  next
    case 2
    note h = half_step [OF repr64_diff_ge [OF s(1) c(1,2) 2] a]
    have "c \<le> fl (c + fl (a * fl (s - c)))" using h(1) c by (intro fl_ge) simp_all
    moreover have "fl (c + fl (a * fl (s - c))) \<le> s" using h(2) s by (intro fl_le) simp_all
    ultimately show ?thesis using 2 by simp
  next
    case 3
    note h = half_step [OF repr64_diff_ge [OF c(1) s(1,2) 3] a]
    have m: "fl (a * fl (s - c)) = - fl (a * fl (c - s))"
      using fl_minus [of "c - s"] fl_minus [of "a * fl (c - s)"] by simp
    have "s \<le> fl (c + fl (a * fl (s - c)))" unfolding m using h(2) s by (intro fl_ge) simp_all
    moreover have "fl (c + fl (a * fl (s - c))) \<le> c" unfolding m using h(1) c by (intro fl_le) simp_all
    ultimately show ?thesis using 3 by simp
  qed
  then show "min c s \<le> fl (c + fl (a * fl (s - c)))" "fl (c + fl (a * fl (s - c))) \<le> max c s" by auto
qed

lemma double_step_between:
  assumes c: "repr64 c" "1 \<le> c" "c \<le> pw 60" and s: "repr64 s" "1 \<le> s" "s \<le> pw 60" and a: "0 \<le> a" "a \<le> 1 / 2"
  shows "Fin c + Fin a * (Fin s - Fin c) = Fin (fl (c + fl (a * fl (s - c))))"
proof -
  have d: "\<bar>s - c\<bar> \<le> pw 60" using c s by (auto simp: abs_if)
  then have f: "\<bar>fl (s - c)\<bar> \<le> pw 60" by (rule round64_bounded(2)) auto
  have "\<bar>a * fl (s - c)\<bar> \<le> 1 * pw 60" unfolding abs_mult using a f by (intro mult_mono) auto
  then have p: "\<bar>a * fl (s - c)\<bar> \<le> pw 60" by simp
  then have q: "\<bar>fl (a * fl (s - c))\<bar> \<le> pw 60" by (rule round64_bounded(2)) auto
  have "\<bar>c + fl (a * fl (s - c))\<bar> \<le> pw 60 + pw 60"
    using q c by (intro order_trans [OF abs_triangle_ineq] add_mono) auto
  then have r: "\<bar>c + fl (a * fl (s - c))\<bar> \<le> pw 61" using pw_add [of 60 1] by simp
  show ?thesis
    using round64_bounded(1) [OF d] round64_bounded(1) [OF p] round64_bounded(1) [OF r]
    by (simp add: minus_double_def)
qed

definition crossover_ok :: "adapt_cost_cfg \<Rightarrow> double \<Rightarrow> bool" where
  "crossover_ok cfg c \<longleftrightarrow> c = Fin (- 1) \<or> (crossover_min_b cfg \<le> c \<and> c \<le> crossover_max_b cfg)"


lemma crossover_step_ok:
  assumes lim: "crossover_min_b cfg = Fin lo" "crossover_max_b cfg = Fin hi" "valid64 (Fin lo)" "valid64 (Fin hi)"
      "1 \<le> lo" "lo \<le> hi" "hi \<le> pw 60"
    and a: "learn_alpha cfg = Fin a" "0 \<le> a" "a \<le> 1 / 2"
    and l: "valid64 (crossover_b l)" "crossover_ok cfg (crossover_b l)"
  shows "crossover_ok cfg (crossover_b (snd (adapt_learn_crossover l cfg))) \<and>
    valid64 (crossover_b (snd (adapt_learn_crossover l cfg)))"
proof -
  let ?s0 = "(fixed_us l 2 - fixed_us l 0) / (slope_us_per_b l 0 - slope_us_per_b l 2)"
  define s where "s = (if Fin hi < (if ?s0 < Fin lo then Fin lo else ?s0) then Fin hi
    else (if ?s0 < Fin lo then Fin lo else ?s0))"
  have new: "isfinite ?s0 \<Longrightarrow> \<exists>r. s = Fin r \<and> repr64 r \<and> lo \<le> r \<and> r \<le> hi"
  proof -
    assume f: "isfinite ?s0"
    then obtain q where q: "?s0 = Fin q" by (cases ?s0) auto
    have "valid64 ?s0" using q
      by (cases "fixed_us l 2 - fixed_us l 0"; cases "slope_us_per_b l 0 - slope_us_per_b l 2")
         (auto split: if_splits dest: arg_cong [where f = valid64])
    then show ?thesis using q lim by (auto simp: s_def not_less)
  qed
  have keep: "crossover_ok cfg (if crossover_b l < 0 then s else crossover_b l + Fin a * (s - crossover_b l)) \<and>
      valid64 (if crossover_b l < 0 then s else crossover_b l + Fin a * (s - crossover_b l))"
    if "isfinite ?s0"
  proof -
    obtain r where r: "s = Fin r" "repr64 r" "lo \<le> r" "r \<le> hi" using new \<open>isfinite ?s0\<close> by blast
    have vr: "valid64 (Fin r)" using r lim(4,5) by auto
    show ?thesis
    proof (cases "crossover_b l < 0")
      case True
      then show ?thesis using r vr lim by (simp add: crossover_ok_def)
    next
      case False
      then have "\<not> crossover_b l = Fin (- 1)" by (auto simp: zero_double_def)
      then obtain c where c: "crossover_b l = Fin c" "lo \<le> c" "c \<le> hi" "repr64 c"
        using l lim by (cases "crossover_b l") (auto simp: crossover_ok_def)
      have "Fin c + Fin a * (Fin r - Fin c) = Fin (fl (c + fl (a * fl (r - c))))"
        using c r lim a by (intro double_step_between) auto
      moreover have "min c r \<le> fl (c + fl (a * fl (r - c)))" "fl (c + fl (a * fl (r - c))) \<le> max c r"
        using c r lim a by (intro step_between; simp)+
      moreover have "\<bar>fl (c + fl (a * fl (r - c)))\<bar> < ovf64"
        using calculation(2,3) c r lim pw_less_ovf64 [of 60] by (auto simp: abs_if)
      ultimately show ?thesis using False c r lim by (auto simp: crossover_ok_def)
    qed
  qed
  show ?thesis
    unfolding adapt_learn_crossover_def Let_def lim(1,2) a(1) s_def [symmetric]
    using l keep by (simp add: lim(1,2) [symmetric] split: if_split)
qed

subsection \<open>Properties\<close>

text \<open>Calibration never produces an unusable cost model: whatever sizes and costs are observed,
  infinite and undefined ones included, the fitted fixed cost of each transport stays finite
  and not negative, its slope finite and positive, and its two size classes share one fit.\<close>

lemma adapt_learn_observe_fits:
  assumes "learn_ok l"
  shows "learn_ok (foldl (\<lambda>l (t, sz, cost). adapt_learn_observe l cfg t sz cost) l obs)"
  using assms
proof (induction obs arbitrary: l)
  case (Cons b obs)
  then show ?case using learn_observe_ok by (cases b) simp
qed simp

text \<open>The learned crossover, once learned, stays between the configured limits: it is clamped,
  and the rate-limited step towards a new value, as rounded, never leaves the interval. Before
  that it is -1.\<close>

lemma adapt_learn_crossover_bounded:
  assumes "crossover_min_b cfg = Fin lo" "crossover_max_b cfg = Fin hi" "valid64 (Fin lo)" "valid64 (Fin hi)"
      "1 \<le> lo" "lo \<le> hi" "hi \<le> pw 60"
    and "learn_alpha cfg = Fin a" "0 \<le> a" "a \<le> 1 / 2"
    and "valid64 (crossover_b l)" "crossover_ok cfg (crossover_b l)"
  shows "crossover_ok cfg (crossover_b (snd (adapt_learn_crossover l cfg)))"
  using crossover_step_ok [OF assms] by blast

subsection \<open>The properties on the default configuration\<close>

lemma round64_small_pos:
  assumes "pw j \<le> x" "x \<le> pw 10" "-1074 \<le> j" shows "\<exists>r. round64 x = Fin r \<and> 0 < r"
proof -
  have "0 < x" using assms(1) pw_pos(1) [of j] by linarith
  then have r: "round64 x = Fin (fl x)" using assms(2) by (intro round64_bounded(1) [of _ 10]) auto
  have "pw j \<le> fl x" using assms by (intro fl_ge repr64_pw)
  then have "0 < fl x" using pw_pos(1) [of j] by linarith
  then show ?thesis using r by blast
qed

lemma learn_ok_defaults: "learn_ok (adapt_learn_init adapt_cost_cfg_defaults)"
proof -
  obtain a where "round64 (15 / 10000) = Fin a" "0 < a" using round64_small_pos [of "-10" "15 / 10000"] by auto
  moreover obtain b where "round64 (3 / 10) = Fin b" "0 < b" using round64_small_pos [of "-2" "3 / 10"] by auto
  moreover obtain c where "round64 (4 / 10000) = Fin c" "0 < c" using round64_small_pos [of "-12" "4 / 10000"] by auto
  ultimately show ?thesis
    by (simp add: learn_ok_def fit_ok_def adapt_learn_init_def adapt_cost_cfg_defaults_def zero_double_def)
qed

lemma adapt_learn_observe_fits_witness:
  "learn_ok (foldl (\<lambda>l (t, sz, cost). adapt_learn_observe l adapt_cost_cfg_defaults t sz cost)
     (adapt_learn_init adapt_cost_cfg_defaults)
     [(ADAPT_ROUTE_UDS, 64, Fin 4), (ADAPT_ROUTE_SHM, 8192, PInf), (ADAPT_ROUTE_NONE, 1, NaN)])"
  by (rule adapt_learn_observe_fits [OF learn_ok_defaults])

lemma adapt_learn_crossover_bounded_witness:
  "crossover_ok (adapt_cost_cfg_defaults\<lparr>learn_alpha := Fin (1 / 4)\<rparr>)
     (crossover_b (snd (adapt_learn_crossover
        ((adapt_learn_init adapt_cost_cfg_defaults)\<lparr>crossover_b := Fin 700\<rparr>)
        (adapt_cost_cfg_defaults\<lparr>learn_alpha := Fin (1 / 4)\<rparr>))))"
proof (rule adapt_learn_crossover_bounded [where lo = 512 and hi = 1048576 and a = "1 / 4"])
  have "(1048576::rat) < ovf64" using pw_less_ovf64 [of 20] by simp
  then show "valid64 (Fin 512)" "valid64 (Fin 1048576)"
    "valid64 (crossover_b ((adapt_learn_init adapt_cost_cfg_defaults)\<lparr>crossover_b := Fin 700\<rparr>))"
    by simp_all
qed (simp_all add: adapt_cost_cfg_defaults_def crossover_ok_def)

end
