(* ===== verification/DecisionLog.thy ===== *)
theory DecisionLog
  imports RuntimeContext
begin

text \<open>
  The routing decision record and the decision log of \<open>src/cost_model.c\<close>: a ring of the last
  512 records with an unsigned cursor that wraps, and the rows of its dump. The text of the file
  is in \<open>DecisionCsv\<close>.
\<close>

record adapt_decision =
  dc_seq :: u64
  dc_ts_ns :: u64
  dc_payload :: csize
  dc_occ_bytes :: double
  dc_current :: adapt_route_t
  dc_selected :: adapt_route_t
  dc_cost_uds :: double
  dc_cost_shm :: double
  dc_queue_wait_shm_us :: double
  dc_switch_cost_us :: double
  dc_setup_cost_us :: double
  dc_health_penalty_us :: double
  dc_latency_penalty_us :: double
  dc_score_uds :: double
  dc_score_shm :: double
  dc_reason :: string

text \<open>The zeroed record of \<open>memset\<close>.\<close>

definition decision_zero :: adapt_decision where
  "decision_zero = \<lparr>dc_seq = 0, dc_ts_ns = 0, dc_payload = 0, dc_occ_bytes = 0,
     dc_current = ADAPT_ROUTE_NONE, dc_selected = ADAPT_ROUTE_NONE, dc_cost_uds = 0, dc_cost_shm = 0,
     dc_queue_wait_shm_us = 0, dc_switch_cost_us = 0, dc_setup_cost_us = 0, dc_health_penalty_us = 0,
     dc_latency_penalty_us = 0, dc_score_uds = 0, dc_score_shm = 0, dc_reason = ''''\<rparr>"

definition ADAPT_DECISION_LOG_N :: nat where "ADAPT_DECISION_LOG_N = 512"

record adapt_declog =
  dl_enabled :: bool
  dl_count :: u32
  dl_next :: u32
  dl_ring :: "nat \<Rightarrow> adapt_decision"

definition adapt_declog_init :: adapt_declog where
  "adapt_declog_init = \<lparr>dl_enabled = False, dl_count = 0, dl_next = 0, dl_ring = (\<lambda>_. decision_zero)\<rparr>"

definition log_slot :: "u32 \<Rightarrow> nat" where
  "log_slot w = unat (w mod 512)"

definition adapt_declog_record :: "adapt_declog \<Rightarrow> adapt_decision option \<Rightarrow> adapt_declog" where
  "adapt_declog_record dl d =
    (case d of None \<Rightarrow> dl
     | Some d \<Rightarrow>
       if \<not> dl_enabled dl then dl
       else let dl = dl\<lparr>dl_ring := (dl_ring dl)(log_slot (dl_next dl) := d), dl_next := dl_next dl + 1\<rparr> in
         if dl_count dl < 512 then dl\<lparr>dl_count := dl_count dl + 1\<rparr> else dl)"

text \<open>The rows of the dump, oldest first; \<open>None\<close> when no file is written.\<close>

definition adapt_declog_dump :: "adapt_declog \<Rightarrow> adapt_decision list option" where
  "adapt_declog_dump dl =
    (if \<not> dl_enabled dl \<or> dl_count dl = 0 then None
     else Some (map (\<lambda>k. dl_ring dl (log_slot (dl_next dl - dl_count dl + of_nat k))) [0..<unat (dl_count dl)]))"

subsection \<open>The log holds the last 512 decisions\<close>

definition log_holds :: "adapt_declog \<Rightarrow> adapt_decision list \<Rightarrow> bool" where
  "log_holds dl ds \<longleftrightarrow> dl_enabled dl \<and> dl_next dl = of_nat (length ds) \<and>
     dl_count dl = of_nat (min 512 (length ds)) \<and>
     (\<forall>i<length ds. length ds \<le> i + 512 \<longrightarrow> dl_ring dl (i mod 512) = ds ! i)"

lemma log_slot_of_nat: "log_slot (of_nat n) = n mod 512"
proof -
  have "unat ((of_nat n :: u32) mod 512) = n mod 2 ^ 32 mod 512"
    by (simp add: unat_mod_distrib unat_of_nat)
  also have "\<dots> = n mod 512" by (rule mod_mod_cancel) simp
  finally show ?thesis by (simp add: log_slot_def)
qed

lemma log_holds_record:
  assumes "log_holds dl ds" shows "log_holds (adapt_declog_record dl (Some d)) (ds @ [d])"
proof -
  have n: "dl_next dl = of_nat (length ds)" and c: "dl_count dl = of_nat (min 512 (length ds))"
    and e: "dl_enabled dl" and r: "\<And>i. i < length ds \<Longrightarrow> length ds \<le> i + 512 \<Longrightarrow> dl_ring dl (i mod 512) = ds ! i"
    using assms by (auto simp: log_holds_def)
  have less: "dl_count dl < 512 \<longleftrightarrow> length ds < 512"
    unfolding c by (auto simp: word_less_nat_alt unat_of_nat min_def)
  have ring: "((dl_ring dl)(length ds mod 512 := d)) (i mod 512) = (ds @ [d]) ! i"
    if "i < Suc (length ds)" "Suc (length ds) \<le> i + 512" for i
  proof (cases "i = length ds")
    case False
    then have "i < length ds" using that by simp
    moreover have "i mod 512 \<noteq> length ds mod 512"
    proof
      assume "i mod 512 = length ds mod 512"
      then have "512 dvd length ds - i" using \<open>i < length ds\<close> by (metis mod_eq_dvd_iff_nat less_imp_le)
      then show False using that \<open>i < length ds\<close> by (auto dest: dvd_imp_le)
    qed
    ultimately show ?thesis using r that by (simp add: nth_append)
  qed simp
  have "of_nat (min 512 (Suc (length ds))) = (if length ds < 512 then dl_count dl + 1 else dl_count dl)"
  proof -
    have "min 512 (Suc (length ds)) = (if length ds < 512 then min 512 (length ds) + 1 else min 512 (length ds))"
      by auto
    then show ?thesis unfolding c by (simp only: of_nat_add of_nat_1 split: if_split) simp
  qed
  then have "dl_enabled (adapt_declog_record dl (Some d))"
    "dl_next (adapt_declog_record dl (Some d)) = of_nat (Suc (length ds))"
    "dl_count (adapt_declog_record dl (Some d)) = of_nat (min 512 (Suc (length ds)))"
    "dl_ring (adapt_declog_record dl (Some d)) = (dl_ring dl)(length ds mod 512 := d)"
    using e less n by (auto simp: adapt_declog_record_def Let_def log_slot_of_nat)
  then show ?thesis using ring by (simp only: log_holds_def length_append_singleton) blast
qed

lemma log_holds_run:
  "log_holds dl ds \<Longrightarrow> log_holds (foldl adapt_declog_record dl (map Some es)) (ds @ es)"
proof (induction es arbitrary: dl ds)
  case (Cons e es)
  then show ?case using Cons.IH [OF log_holds_record [OF Cons.prems, of e]] by simp
qed simp

lemma log_holds_dump:
  assumes "log_holds dl ds" "ds \<noteq> []"
  shows "adapt_declog_dump dl = Some (drop (length ds - 512) ds)"
proof -
  let ?n = "length ds" and ?c = "min 512 (length ds)"
  have n: "dl_next dl = of_nat ?n" and c: "dl_count dl = of_nat ?c" and e: "dl_enabled dl"
    and r: "\<And>i. i < ?n \<Longrightarrow> ?n \<le> i + 512 \<Longrightarrow> dl_ring dl (i mod 512) = ds ! i"
    using assms(1) by (auto simp: log_holds_def)
  have cu: "unat (dl_count dl) = ?c" unfolding c by (simp add: unat_of_nat)
  have nc: "?n - ?c = ?n - 512" by simp
  have row: "dl_ring dl (log_slot (dl_next dl - dl_count dl + of_nat k)) = ds ! (?n - 512 + k)" if "k < ?c" for k
  proof -
    have "dl_next dl - dl_count dl + of_nat k = of_nat (?n - ?c + k)"
      unfolding n c by (simp add: of_nat_diff)
    then show ?thesis using r [of "?n - ?c + k"] that nc by (simp only: log_slot_of_nat)
  qed
  have "map (\<lambda>k. dl_ring dl (log_slot (dl_next dl - dl_count dl + of_nat k))) [0..<?c]
      = drop (?n - 512) ds"
    by (rule nth_equalityI) (auto simp: row)
  moreover have "dl_count dl \<noteq> 0"
  proof -
    have "0 < ?c" using assms(2) by simp
    then have "0 < unat (dl_count dl)" unfolding cu .
    then show ?thesis by (simp add: unat_gt_0)
  qed
  ultimately show ?thesis using e cu by (simp add: adapt_declog_dump_def)
qed

subsection \<open>Properties\<close>

text \<open>However many decisions are recorded, also past the wrap of the cursor, the dump of the
  log is exactly the last 512 of them, oldest first.\<close>

lemma declog_dump_last:
  assumes "ds \<noteq> []"
  shows "adapt_declog_dump (foldl adapt_declog_record (adapt_declog_init\<lparr>dl_enabled := True\<rparr>) (map Some ds))
    = Some (drop (length ds - 512) ds)"
proof -
  have "log_holds (adapt_declog_init\<lparr>dl_enabled := True\<rparr>) []"
    by (simp add: log_holds_def adapt_declog_init_def)
  from log_holds_run [OF this, of ds] show ?thesis using log_holds_dump assms by simp
qed

lemma declog_dump_last_witness:
  "adapt_declog_dump (foldl adapt_declog_record (adapt_declog_init\<lparr>dl_enabled := True\<rparr>)
     (map Some [decision_zero, decision_zero\<lparr>dc_seq := 1\<rparr>]))
   = Some [decision_zero, decision_zero\<lparr>dc_seq := 1\<rparr>]"
  using declog_dump_last [of "[decision_zero, decision_zero\<lparr>dc_seq := 1\<rparr>]"] by simp

end
