(* ===== verification/TransportHealth.thy ===== *)
theory TransportHealth
  imports AdaptTypes
begin

text \<open>
  The debounced health of the ring, \<open>src/transport_health.c\<close>: a state with streak counters
  that one occupancy observation per send updates. The unsigned counters wrap.
\<close>

record adapt_health =
  hl_state :: adapt_health_state_t
  bad_streak :: u32
  good_streak :: u32
  hl_transitions :: u32
  debounce :: u32

definition DEGRADED_OCC_FRAC :: double where "DEGRADED_OCC_FRAC = round64 (80 / 100)"
definition BLOCKED_OCC_FRAC :: double where "BLOCKED_OCC_FRAC = round64 (95 / 100)"
definition RECOVERED_OCC_FRAC :: double where "RECOVERED_OCC_FRAC = round64 (20 / 100)"
definition DRAIN_DEFICIT_FRAC :: double where "DRAIN_DEFICIT_FRAC = Fin (1 / 2)"

definition adapt_health_init :: "u32 \<Rightarrow> adapt_health" where
  "adapt_health_init n = \<lparr>hl_state = ADAPT_HEALTH_UNAVAILABLE, bad_streak = 0, good_streak = 0,
     hl_transitions = 0, debounce = (if n \<noteq> 0 then n else 8)\<rparr>"

definition set_state :: "adapt_health \<Rightarrow> adapt_health_state_t \<Rightarrow> bool \<times> adapt_health" where
  "set_state h s = (if hl_state h \<noteq> s
     then (True, h\<lparr>hl_state := s, hl_transitions := hl_transitions h + 1, bad_streak := 0, good_streak := 0\<rparr>)
     else (False, h))"

text \<open>What one observation says about the ring: the conditions of the three branches.\<close>

definition blocked_obs :: "double \<Rightarrow> bool" where
  "blocked_obs fr \<longleftrightarrow> BLOCKED_OCC_FRAC \<le> fr"

definition degraded_obs :: "double \<Rightarrow> csize \<Rightarrow> bool \<Rightarrow> double \<Rightarrow> double \<Rightarrow> bool" where
  "degraded_obs fr occ valid arrival drain \<longleftrightarrow> DEGRADED_OCC_FRAC \<le> fr \<or>
     (0 < occ \<and> valid \<and> 0 < arrival \<and> drain < DRAIN_DEFICIT_FRAC * arrival)"

definition recovered_obs :: "double \<Rightarrow> bool" where
  "recovered_obs fr \<longleftrightarrow> fr \<le> RECOVERED_OCC_FRAC"

definition bump_bad :: "adapt_health \<Rightarrow> adapt_health" where
  "bump_bad h = h\<lparr>bad_streak := bad_streak h + 1\<rparr>"

definition bump_good :: "adapt_health \<Rightarrow> adapt_health" where
  "bump_good h = h\<lparr>good_streak := good_streak h + 1\<rparr>"

definition adapt_health_update_shm ::
  "adapt_health \<Rightarrow> csize \<Rightarrow> csize \<Rightarrow> bool \<Rightarrow> double \<Rightarrow> double \<Rightarrow> bool \<times> adapt_health" where
  "adapt_health_update_shm h occ capacity valid arrival drain =
    (if capacity = 0 then (False, h) else
     let fr = d_of_u64 occ / d_of_u64 capacity in
     if blocked_obs fr then
       let h = bump_bad (h\<lparr>good_streak := 0\<rparr>) in
       (if debounce h \<le> bad_streak h \<or> hl_state h = ADAPT_HEALTH_DEGRADED
        then set_state h ADAPT_HEALTH_BLOCKED else (False, h))
     else if degraded_obs fr occ valid arrival drain then
       let h = h\<lparr>good_streak := 0\<rparr> in
       (if hl_state h = ADAPT_HEALTH_BLOCKED then
          if DEGRADED_OCC_FRAC \<le> fr then
            let h = bump_bad h in
            (if debounce h \<le> bad_streak h then set_state h ADAPT_HEALTH_DEGRADED else (False, h))
          else (False, h)
        else
          let h = bump_bad h in
          (if debounce h \<le> bad_streak h then set_state h ADAPT_HEALTH_DEGRADED else (False, h)))
     else if recovered_obs fr then
       let h = h\<lparr>bad_streak := 0\<rparr> in
       (if hl_state h = ADAPT_HEALTH_UNAVAILABLE then set_state h ADAPT_HEALTH_HEALTHY
        else if hl_state h \<noteq> ADAPT_HEALTH_HEALTHY then
          let h = bump_good h in
          (if debounce h \<le> good_streak h then
             set_state h (if hl_state h = ADAPT_HEALTH_BLOCKED
               then ADAPT_HEALTH_RECOVERING else ADAPT_HEALTH_HEALTHY)
           else (False, h))
        else (False, h))
     else (False, h))"


subsection \<open>The transition graph\<close>

inductive health_edge :: "adapt_health_state_t \<Rightarrow> adapt_health_state_t \<Rightarrow> bool" where
  first_seen: "health_edge ADAPT_HEALTH_UNAVAILABLE ADAPT_HEALTH_HEALTHY"
| degrade: "s \<noteq> ADAPT_HEALTH_DEGRADED \<Longrightarrow> health_edge s ADAPT_HEALTH_DEGRADED"
| block: "s \<noteq> ADAPT_HEALTH_BLOCKED \<Longrightarrow> health_edge s ADAPT_HEALTH_BLOCKED"
| drain: "health_edge ADAPT_HEALTH_BLOCKED ADAPT_HEALTH_RECOVERING"
| recover: "s = ADAPT_HEALTH_DEGRADED \<or> s = ADAPT_HEALTH_RECOVERING \<Longrightarrow> health_edge s ADAPT_HEALTH_HEALTHY"

inductive_simps health_edge_simps [simp]:
  "health_edge ADAPT_HEALTH_UNAVAILABLE t" "health_edge ADAPT_HEALTH_HEALTHY t"
  "health_edge ADAPT_HEALTH_DEGRADED t" "health_edge ADAPT_HEALTH_BLOCKED t"
  "health_edge ADAPT_HEALTH_RECOVERING t"

lemmas health_ops = set_state_def bump_bad_def bump_good_def

lemma update_cases:
  assumes "adapt_health_update_shm h occ cap valid arrival drain = (c, h')"
  shows "if c then health_edge (hl_state h) (hl_state h') \<and> hl_transitions h' = hl_transitions h + 1 \<and>
      bad_streak h' = 0 \<and> good_streak h' = 0
    else hl_state h' = hl_state h \<and> hl_transitions h' = hl_transitions h"
  and "debounce h' = debounce h"
  using assms by (cases "hl_state h"; auto simp: adapt_health_update_shm_def health_ops Let_def
      split: if_split_asm)+

subsection \<open>Debouncing\<close>

text \<open>A run of observations.\<close>

record health_obs =
  ob_occ :: csize
  ob_cap :: csize
  ob_valid :: bool
  ob_arrival :: double
  ob_drain :: double

definition observe :: "adapt_health \<Rightarrow> health_obs \<Rightarrow> adapt_health" where
  "observe h b = snd (adapt_health_update_shm h (ob_occ b) (ob_cap b) (ob_valid b) (ob_arrival b) (ob_drain b))"

lemma unat_inc_le: "unat (w + 1) \<le> unat w + 1" for w :: u32
  by (metis add.commute le_cases plus_1_eq_Suc unatSuc unat_eq_zero zero_le)

text \<open>One observation raises the streaks by one at most, and changes a healthy state only at the
  debounce count.\<close>

lemma observe_healthy:
  assumes "hl_state h = ADAPT_HEALTH_HEALTHY" "unat (bad_streak h) + 1 < unat (debounce h)"
  shows "hl_state (observe h b) = ADAPT_HEALTH_HEALTHY"
    and "unat (bad_streak (observe h b)) \<le> unat (bad_streak h) + 1"
    and "debounce (observe h b) = debounce h"
  using assms unat_inc_le [of "bad_streak h"]
  by (auto simp: observe_def adapt_health_update_shm_def health_ops Let_def word_le_nat_alt)

lemma observe_run_healthy:
  assumes "hl_state h = ADAPT_HEALTH_HEALTHY" "unat (bad_streak h) + length bs < unat (debounce h)"
  shows "hl_state (foldl observe h bs) = ADAPT_HEALTH_HEALTHY"
  using assms
proof (induction bs arbitrary: h)
  case (Cons b bs)
  then have "unat (bad_streak h) + 1 < unat (debounce h)" by simp
  note o = observe_healthy [OF Cons.prems(1) this, of b]
  then show ?case using Cons.prems by (simp add: Cons.IH)
qed simp

text \<open>An observation of an empty ring.\<close>

definition empty_obs :: "health_obs \<Rightarrow> bool" where
  "empty_obs b \<longleftrightarrow> ob_occ b = 0 \<and> ob_cap b \<noteq> 0"

lemma fracs:
  "Fin 0 < BLOCKED_OCC_FRAC" "Fin 0 < DEGRADED_OCC_FRAC" "Fin 0 \<le> RECOVERED_OCC_FRAC"
proof -
  have half: "round64 (1 / 2) = Fin (1 / 2)" by (rule round64_exact [where k = 1 and m = 1]) simp_all
  have "round64 (1 / 2) \<le> BLOCKED_OCC_FRAC" "round64 (1 / 2) \<le> DEGRADED_OCC_FRAC"
    unfolding BLOCKED_OCC_FRAC_def DEGRADED_OCC_FRAC_def by (rule round64_mono; simp)+
  then show "Fin 0 < BLOCKED_OCC_FRAC" "Fin 0 < DEGRADED_OCC_FRAC"
    unfolding half by (auto intro: double_less_le_trans [of _ "Fin (1 / 2)"])
  show "Fin 0 \<le> RECOVERED_OCC_FRAC"
    unfolding RECOVERED_OCC_FRAC_def by (rule round64_ge) (simp_all)
qed

lemma empty_frac:
  assumes "cap \<noteq> 0"
  shows "d_of_u64 0 / d_of_u64 cap = Fin 0"
proof -
  have "1 \<le> unat cap" using assms by (simp add: Suc_le_eq unat_gt_0)
  then have "(of_nat 1 :: rat) \<le> of_nat (unat cap)" by (simp only: of_nat_le_iff)
  then have "1 \<le> fl (rat_of_u64 cap)" by (intro fl_ge) (simp_all add: rat_of_u64_def)
  then show ?thesis by (simp add: d_of_u64_eq [of cap])
qed

lemma observe_empty:
  assumes "empty_obs b"
  shows "observe h b =
    (let h = h\<lparr>bad_streak := 0\<rparr> in
       (if hl_state h = ADAPT_HEALTH_UNAVAILABLE then snd (set_state h ADAPT_HEALTH_HEALTHY)
        else if hl_state h \<noteq> ADAPT_HEALTH_HEALTHY then
          let h = bump_good h in
          (if debounce h \<le> good_streak h then
             snd (set_state h (if hl_state h = ADAPT_HEALTH_BLOCKED
               then ADAPT_HEALTH_RECOVERING else ADAPT_HEALTH_HEALTHY))
           else h)
        else h))"
proof -
  have "\<not> BLOCKED_OCC_FRAC \<le> Fin 0" "\<not> DEGRADED_OCC_FRAC \<le> Fin 0"
    using fracs by (auto dest: double_less_not_le)
  then show ?thesis
    using assms empty_frac [of "ob_cap b"] fracs
    by (simp add: observe_def empty_obs_def adapt_health_update_shm_def blocked_obs_def degraded_obs_def
        recovered_obs_def Let_def split: if_split)
qed

definition recovery_left :: "adapt_health \<Rightarrow> nat" where
  "recovery_left h = (case hl_state h of
     ADAPT_HEALTH_UNAVAILABLE \<Rightarrow> 1
   | ADAPT_HEALTH_HEALTHY \<Rightarrow> 0
   | ADAPT_HEALTH_BLOCKED \<Rightarrow> 2 * unat (debounce h) - unat (good_streak h)
   | _ \<Rightarrow> unat (debounce h) - unat (good_streak h))"

definition streak_ok :: "adapt_health \<Rightarrow> bool" where
  "streak_ok h \<longleftrightarrow> debounce h \<noteq> 0 \<and>
     (hl_state h \<in> {ADAPT_HEALTH_DEGRADED, ADAPT_HEALTH_BLOCKED, ADAPT_HEALTH_RECOVERING} \<longrightarrow>
        good_streak h < debounce h)"

lemma unat_inc_less: "w < d \<Longrightarrow> unat (w + 1) = unat w + 1" for w d :: u32
  using unsigned_less [of d, where ?'a = nat] by (simp add: unat_word_ariths word_less_nat_alt)

lemma observe_empty_step:
  assumes "empty_obs b" "streak_ok h" "hl_state h \<noteq> ADAPT_HEALTH_HEALTHY"
  shows "streak_ok (observe h b)" "recovery_left (observe h b) < recovery_left h"
  using assms(2,3) unat_inc_less [of "good_streak h" "debounce h"]
  unfolding observe_empty [OF assms(1)]
  by (cases "hl_state h"; auto simp: health_ops Let_def streak_ok_def recovery_left_def
      word_le_nat_alt word_less_nat_alt not_le unat_gt_0)+

lemma observe_empty_healthy:
  "empty_obs b \<Longrightarrow> hl_state h = ADAPT_HEALTH_HEALTHY \<Longrightarrow> hl_state (observe h b) = ADAPT_HEALTH_HEALTHY"
  by (simp add: observe_empty Let_def)

lemma observe_empty_stays:
  "list_all empty_obs bs \<Longrightarrow> hl_state h = ADAPT_HEALTH_HEALTHY \<Longrightarrow>
   hl_state (foldl observe h bs) = ADAPT_HEALTH_HEALTHY"
  by (induction bs arbitrary: h) (simp_all add: observe_empty_healthy)

lemma observe_empty_recovers:
  "list_all empty_obs bs \<Longrightarrow> streak_ok h \<Longrightarrow> recovery_left h \<le> length bs \<Longrightarrow>
   hl_state (foldl observe h bs) = ADAPT_HEALTH_HEALTHY"
proof (induction bs arbitrary: h)
  case Nil
  then show ?case
    by (cases "hl_state h") (auto simp: recovery_left_def streak_ok_def word_less_nat_alt)
next
  case (Cons b bs)
  show ?case
  proof (cases "hl_state h = ADAPT_HEALTH_HEALTHY")
    case True
    then show ?thesis using Cons.prems(1) observe_empty_stays [of "b # bs" h] by simp
  next
    case False
    then show ?thesis using Cons observe_empty_step [of b h] by auto
  qed
qed

text \<open>What every update keeps: the good streak of a state that waits for recovery is below the
  debounce count.\<close>

lemma streak_ok_zero: "debounce h \<noteq> 0 \<Longrightarrow> good_streak h = 0 \<Longrightarrow> streak_ok h"
  by (simp add: streak_ok_def word_gt_0)

lemma streak_ok_set_state: "streak_ok h \<Longrightarrow> streak_ok (snd (set_state h s))"
  by (cases "hl_state h = s") (simp_all add: set_state_def streak_ok_zero, simp add: streak_ok_def word_gt_0)

lemma observe_streak_ok:
  assumes "streak_ok h" shows "streak_ok (observe h b)"
proof -
  have d: "debounce h \<noteq> 0" using assms by (simp add: streak_ok_def)
  let ?z = "h\<lparr>good_streak := 0\<rparr>" and ?g = "h\<lparr>bad_streak := 0\<rparr>"
  have z: "streak_ok ?z" "streak_ok (bump_bad ?z)" using d by (auto intro!: streak_ok_zero simp: bump_bad_def)
  have g: "streak_ok ?g" using assms by (simp add: streak_ok_def)
  have inc: "streak_ok (bump_good ?g)" if "\<not> debounce (bump_good ?g) \<le> good_streak (bump_good ?g)"
    using d that by (simp add: bump_good_def not_le streak_ok_def)
  have set_g: "streak_ok (snd (set_state (bump_good ?g) s))" if "s \<noteq> hl_state h" for s
    using d that by (simp add: set_state_def bump_good_def streak_ok_zero)
  have set_f: "streak_ok (snd (set_state ?g ADAPT_HEALTH_HEALTHY))" by (rule streak_ok_set_state [OF g])
  have st: "hl_state (bump_good ?g) = hl_state h" "hl_state (bump_bad ?z) = hl_state h"
    by (simp_all add: bump_good_def bump_bad_def)
  show ?thesis
    unfolding observe_def adapt_health_update_shm_def Let_def
    by (auto simp: assms z g inc set_g set_f st streak_ok_set_state [OF z(2)] if_distrib [of snd]
        intro: inc set_g)
qed

subsection \<open>Properties\<close>

text \<open>One observation moves the health along an edge of the documented graph or not at all; it
  reports a change exactly when it makes one, then counts it and clears both streaks.\<close>

lemma adapt_health_update_edges:
  "case adapt_health_update_shm h occ cap valid arrival drain of (c, h') \<Rightarrow>
    (if c then health_edge (hl_state h) (hl_state h') \<and> hl_transitions h' = hl_transitions h + 1 \<and>
        bad_streak h' = 0 \<and> good_streak h' = 0
     else hl_state h' = hl_state h \<and> hl_transitions h' = hl_transitions h)"
  by (cases "adapt_health_update_shm h occ cap valid arrival drain") (simp add: update_cases)


text \<open>A degraded ring is not debounced: a single observation at 95 percent blocks it.\<close>

lemma degraded_blocks_at_once:
  assumes "hl_state h = ADAPT_HEALTH_DEGRADED" "ob_cap b \<noteq> 0"
    and "BLOCKED_OCC_FRAC \<le> d_of_u64 (ob_occ b) / d_of_u64 (ob_cap b)"
  shows "hl_state (observe h b) = ADAPT_HEALTH_BLOCKED"
  using assms by (simp add: observe_def adapt_health_update_shm_def blocked_obs_def health_ops Let_def)

text \<open>C35: A drained ring recovers: whatever was observed before, \<open>2 * debounce\<close> observations of an
  empty ring make the health HEALTHY.\<close>

lemma drained_ring_recovers:
  assumes "n \<noteq> 0" "list_all empty_obs bs" "2 * unat n \<le> length bs"
  shows "hl_state (foldl observe (adapt_health_init n) (past @ bs)) = ADAPT_HEALTH_HEALTHY"
proof -
  have ok: "streak_ok (foldl observe h past) \<and> debounce (foldl observe h past) = debounce h"
    if "streak_ok h" for h
    using that
  proof (induction past arbitrary: h)
    case (Cons b past)
    have "debounce (observe h b) = debounce h"
      using update_cases(2) by (metis observe_def prod.collapse)
    then show ?case using Cons observe_streak_ok [OF Cons.prems, of b] by simp
  qed simp
  let ?h = "foldl observe (adapt_health_init n) past"
  have "streak_ok (adapt_health_init n)" using assms(1) by (simp add: adapt_health_init_def streak_ok_def)
  from ok [OF this] have h: "streak_ok ?h" "debounce ?h = n"
    using assms(1) by (auto simp: adapt_health_init_def)
  have "1 \<le> unat n" using assms(1) by (simp add: Suc_le_eq unat_gt_0)
  then have "recovery_left ?h \<le> 2 * unat n"
    using h by (cases "hl_state ?h") (simp_all add: recovery_left_def)
  then show ?thesis using observe_empty_recovers [OF assms(2) h(1)] assms(3) by simp
qed

subsection \<open>The properties at concrete inputs\<close>

definition drained_obs :: health_obs where
  "drained_obs = \<lparr>ob_occ = 0, ob_cap = 4096, ob_valid = True, ob_arrival = Fin 1, ob_drain = Fin 0\<rparr>"

definition full_obs :: health_obs where
  "full_obs = \<lparr>ob_occ = 4096, ob_cap = 4096, ob_valid = True, ob_arrival = Fin 1, ob_drain = Fin 0\<rparr>"

definition degraded_health :: adapt_health where
  "degraded_health = \<lparr>hl_state = ADAPT_HEALTH_DEGRADED, bad_streak = 0, good_streak = 0,
     hl_transitions = 2, debounce = 8\<rparr>"

lemma full_frac: "d_of_u64 4096 / d_of_u64 4096 = Fin 1"
  by (simp add: d_of_u64_exact)

lemma blocked_frac_le_1: "BLOCKED_OCC_FRAC \<le> Fin 1"
  unfolding BLOCKED_OCC_FRAC_def by (rule round64_le) (use pw_less_ovf64 [of 0] in simp_all)

lemma degraded_blocks_at_once_witness:
  "hl_state (observe degraded_health full_obs) = ADAPT_HEALTH_BLOCKED"
  by (rule degraded_blocks_at_once)
     (simp_all add: degraded_health_def full_obs_def full_frac blocked_frac_le_1)


lemma drained_ring_recovers_witness:
  "hl_state (foldl observe (adapt_health_init 2) ([full_obs, full_obs, full_obs] @ replicate 4 drained_obs))
    = ADAPT_HEALTH_HEALTHY"
  by (rule drained_ring_recovers) (simp_all add: empty_obs_def drained_obs_def list_all_iff)

end
