(* ===== verification/Policy.thy ===== *)
theory Policy
  imports CostModel DecisionLog TransportHealth
begin

text \<open>
  The routing decision, \<open>adapt_policy_decide\<close> of \<open>src/cost_model.c\<close>, one definition per branch
  of the function. It returns the route, the decision record it fills in and the calibration
  state, whose crossover it may update. The clock that the queue-wait estimate reads is the
  last argument. Null pointers for the context, the calibration and the health are \<open>None\<close>.
\<close>

subsection \<open>The size rules\<close>

definition size_only_route :: "double \<Rightarrow> adapt_route_t" where
  "size_only_route ewma = (if ADAPT_TAU_HIGH \<le> ewma then ADAPT_ROUTE_SHM else ADAPT_ROUTE_UDS)"

definition hysteresis_route :: "double \<Rightarrow> adapt_route_t \<Rightarrow> adapt_route_t" where
  "hysteresis_route ewma current =
    (if ADAPT_TAU_HIGH \<le> ewma then ADAPT_ROUTE_SHM
     else if ewma \<le> ADAPT_TAU_LOW then ADAPT_ROUTE_UDS
     else if current = ADAPT_ROUTE_SHM then ADAPT_ROUTE_SHM else ADAPT_ROUTE_UDS)"

definition fits_uds :: "csize \<Rightarrow> bool" where
  "fits_uds payload \<longleftrightarrow> payload + 1 \<le> of_nat UDS_MAX_DGRAM"

text \<open>\<open>snprintf\<close> into the 24 bytes of the field.\<close>

definition snprintf_reason :: "adapt_decision \<Rightarrow> string \<Rightarrow> adapt_decision" where
  "snprintf_reason d r = d\<lparr>dc_reason := take 23 r\<rparr>"

definition with_costs :: "adapt_decision \<Rightarrow> double \<Rightarrow> double \<Rightarrow> adapt_decision" where
  "with_costs d u s = d\<lparr>dc_cost_uds := u, dc_score_uds := u, dc_cost_shm := s, dc_score_shm := s\<rparr>"

definition decide_size_only ::
  "adapt_cost_cfg \<Rightarrow> bool \<Rightarrow> double \<Rightarrow> csize \<Rightarrow> adapt_decision \<Rightarrow> adapt_route_t \<times> adapt_decision" where
  "decide_size_only cfg mapped ewma payload d =
    (let r = size_only_route ewma in
     (r, with_costs (snprintf_reason (d\<lparr>dc_selected := r\<rparr>) ''SIZE_THRESHOLD'')
        (adapt_cost_uds cfg payload) (adapt_cost_shm cfg payload 0 0 mapped)))"

subsection \<open>Hysteresis, and the cold start of the full policy\<close>

definition cold_start :: "adapt_policy_mode_t \<Rightarrow> adapt_cost_cfg \<Rightarrow> adapt_learn option \<Rightarrow> bool" where
  "cold_start policy cfg learn \<longleftrightarrow> policy = ADAPT_POLICY_FULL_ADAPTIVE \<and>
    (case learn of None \<Rightarrow> False
     | Some l \<Rightarrow> ln_n l 0 < ucast (learn_min_samples cfg) \<or> ln_n l 2 < ucast (learn_min_samples cfg))"

text \<open>The predicted wait, with the penalty, beats a UDS send and the switch, and UDS can carry it.\<close>

definition pressure_escape :: "adapt_cost_cfg \<Rightarrow> csize \<Rightarrow> double \<Rightarrow> bool" where
  "pressure_escape cfg payload pressure \<longleftrightarrow>
     adapt_cost_uds cfg payload + switch_cost_us cfg < pressure \<and> fits_uds payload"

definition decide_hysteresis ::
  "adapt_policy_mode_t \<Rightarrow> adapt_cost_cfg \<Rightarrow> adapt_rtctx option \<Rightarrow> adapt_health option \<Rightarrow> bool \<Rightarrow>
   double \<Rightarrow> adapt_route_t \<Rightarrow> csize \<Rightarrow> u64 \<Rightarrow> adapt_decision \<Rightarrow> adapt_route_t \<times> adapt_decision" where
  "decide_hysteresis policy cfg rt health mapped ewma current payload clk d =
    (let r = hysteresis_route ewma current;
         d = snprintf_reason (d\<lparr>dc_selected := r\<rparr>)
               (if policy = ADAPT_POLICY_SIZE_HYSTERESIS then ''SIZE_HYSTERESIS'' else ''COLD_START'');
         (r, d) =
           (case rt of
              Some rc \<Rightarrow>
                if policy = ADAPT_POLICY_FULL_ADAPTIVE \<and> r = ADAPT_ROUTE_SHM \<and> ADAPT_TAU_HIGH \<le> ewma then
                  let q = adapt_rtctx_queue_wait_us rt payload (u64_of_d (ewma_occ_bytes rc)) clk;
                      hp = (case health of Some h \<Rightarrow> if mapped then health_penalty_us cfg (hl_state h) else 0
                            | None \<Rightarrow> 0);
                      (r, d) = (if pressure_escape cfg payload (q + hp)
                        then (ADAPT_ROUTE_UDS, snprintf_reason (d\<lparr>dc_selected := ADAPT_ROUTE_UDS\<rparr>)
                                (if 0 < hp then ''HEALTH_ESCAPE'' else ''QUEUE_PRESSURE''))
                        else (r, d)) in
                  (r, d\<lparr>dc_queue_wait_shm_us := q, dc_health_penalty_us := hp\<rparr>)
                else (r, d)
            | None \<Rightarrow> (r, d)) in
     (r, with_costs d (adapt_cost_uds cfg payload)
           (adapt_cost_shm cfg payload (dc_queue_wait_shm_us d) 0 mapped)))"

subsection \<open>Queue-aware\<close>

definition decide_queue_aware ::
  "adapt_cost_cfg \<Rightarrow> bool \<Rightarrow> double \<Rightarrow> adapt_route_t \<Rightarrow> csize \<Rightarrow> double \<Rightarrow> adapt_decision \<Rightarrow>
   adapt_route_t \<times> adapt_decision" where
  "decide_queue_aware cfg mapped ewma current payload q d =
    (let r = (if ADAPT_TAU_HIGH \<le> ewma then
                if pressure_escape cfg payload q then ADAPT_ROUTE_UDS else ADAPT_ROUTE_SHM
              else hysteresis_route ewma current);
         d = snprintf_reason (d\<lparr>dc_selected := r\<rparr>)
               (if r = ADAPT_ROUTE_UDS \<and> ADAPT_TAU_HIGH \<le> ewma then ''QUEUE_PRESSURE''
                else ''SIZE_HYSTERESIS'') in
     (r, with_costs d (adapt_cost_uds cfg payload) (adapt_cost_shm cfg payload q 0 mapped)))"

subsection \<open>Cost comparison\<close>

text \<open>The linear models: the fitted ones of index 0 and 2 if there is a calibration state.\<close>

definition lin_uds :: "adapt_cost_cfg \<Rightarrow> adapt_learn option \<Rightarrow> csize \<Rightarrow> double" where
  "lin_uds cfg learn payload = (case learn of
     None \<Rightarrow> uds_fixed_us cfg + uds_slope_us_per_b cfg * d_of_u64 payload
   | Some l \<Rightarrow> fixed_us l 0 + slope_us_per_b l 0 * d_of_u64 payload)"

definition lin_shm :: "adapt_cost_cfg \<Rightarrow> adapt_learn option \<Rightarrow> csize \<Rightarrow> double" where
  "lin_shm cfg learn payload = (case learn of
     None \<Rightarrow> shm_fixed_us cfg + shm_slope_us_per_b cfg * d_of_u64 payload
   | Some l \<Rightarrow> fixed_us l 2 + slope_us_per_b l 2 * d_of_u64 payload)"

text \<open>The latency the code predicts adds the fixed and the variable part to the wait in turn.\<close>

definition lat_shm :: "adapt_cost_cfg \<Rightarrow> adapt_learn option \<Rightarrow> csize \<Rightarrow> double \<Rightarrow> double \<Rightarrow> double" where
  "lat_shm cfg learn payload q notify = (case learn of
     None \<Rightarrow> q + notify + shm_fixed_us cfg + shm_slope_us_per_b cfg * d_of_u64 payload
   | Some l \<Rightarrow> q + notify + fixed_us l 2 + slope_us_per_b l 2 * d_of_u64 payload)"

definition consumer_active :: "adapt_rtctx option \<Rightarrow> u64 \<Rightarrow> bool" where
  "consumer_active rt now = (case rt of None \<Rightarrow> False
     | Some r \<Rightarrow> last_drain_ns r \<noteq> 0 \<and> last_drain_ns r \<le> now \<and> now - last_drain_ns r < ADAPT_ACTIVE_WINDOW_NS)"

definition overshoot :: "double \<Rightarrow> double \<Rightarrow> double" where
  "overshoot lat budget = (if budget < lat then lat - budget else 0)"

definition latency_penalty :: "adapt_cost_cfg \<Rightarrow> double \<Rightarrow> double \<Rightarrow> double" where
  "latency_penalty cfg lu ls =
    (if cfg_qos cfg \<noteq> ADAPT_QOS_THROUGHPUT \<and> 0 < latency_budget_us cfg then
       let over_uds = overshoot lu (latency_budget_us cfg);
           over_shm = overshoot ls (latency_budget_us cfg) in
       latency_weight cfg * (if over_shm < over_uds then over_uds else over_shm)
     else 0)"

text \<open>The costs, penalties and scores of both transports.\<close>

definition score_both ::
  "adapt_policy_mode_t \<Rightarrow> adapt_cost_cfg \<Rightarrow> adapt_rtctx option \<Rightarrow> adapt_learn option \<Rightarrow> adapt_health option \<Rightarrow>
   bool \<Rightarrow> adapt_route_t \<Rightarrow> csize \<Rightarrow> u64 \<Rightarrow> double \<Rightarrow> adapt_decision \<Rightarrow> adapt_decision" where
  "score_both policy cfg rt learn health mapped current payload now q d =
    (let cost_uds = lin_uds cfg learn payload;
         cost_shm = lin_shm cfg learn payload + q;
         hp = (case health of
                 Some h \<Rightarrow> if policy = ADAPT_POLICY_FULL_ADAPTIVE \<and> mapped
                   then health_penalty_us cfg (hl_state h) else 0
               | None \<Rightarrow> 0);
         cost_shm = cost_shm + hp;
         setup = (if mapped then 0 else setup_cost_us cfg);
         cost_shm = (if mapped then cost_shm else cost_shm + setup);
         notify = (if mapped then if consumer_active rt now then shm_active_notify_us cfg
                     else shm_notify_floor_us cfg else 0);
         ls = lat_shm cfg learn payload q notify;
         lp = latency_penalty cfg cost_uds ls;
         score_uds = cost_uds + (if current = ADAPT_ROUTE_UDS then 0 else switch_cost_us cfg);
         score_shm = cost_shm + (if current = ADAPT_ROUTE_SHM then 0 else switch_cost_us cfg);
         score_shm = (if 0 < lp \<and> cost_uds < ls then score_shm + lp else score_shm);
         score_uds = (if 0 < lp \<and> \<not> cost_uds < ls then score_uds + lp else score_uds) in
     d\<lparr>dc_cost_uds := cost_uds, dc_cost_shm := cost_shm, dc_health_penalty_us := hp,
       dc_setup_cost_us := setup, dc_latency_penalty_us := lp, dc_switch_cost_us := switch_cost_us cfg,
       dc_score_uds := score_uds, dc_score_shm := score_shm\<rparr>)"

definition score_of :: "adapt_decision \<Rightarrow> adapt_route_t \<Rightarrow> double" where
  "score_of d r = (if r = ADAPT_ROUTE_SHM then dc_score_shm d else dc_score_uds d)"

definition candidate :: "adapt_decision \<Rightarrow> adapt_route_t" where
  "candidate d = (if dc_score_shm d \<le> dc_score_uds d then ADAPT_ROUTE_SHM else ADAPT_ROUTE_UDS)"

text \<open>The stability rule. The flag says whether the function goes on to the crossover update:
  the very first decision returns before it.\<close>

definition pick_route :: "adapt_cost_cfg \<Rightarrow> bool \<Rightarrow> adapt_route_t \<Rightarrow> double \<Rightarrow> adapt_decision \<Rightarrow>
   adapt_route_t \<times> adapt_decision \<times> bool" where
  "pick_route cfg mapped current q d =
    (let cand = candidate d in
     if current = ADAPT_ROUTE_NONE then
       (cand, snprintf_reason (d\<lparr>dc_selected := cand\<rparr>) ''INITIAL_ROUTE'', False)
     else if cand \<noteq> current then
       if score_of d cand + margin_us cfg < score_of d current then
         (cand, snprintf_reason (d\<lparr>dc_selected := cand\<rparr>)
            (if \<not> mapped \<and> cand = ADAPT_ROUTE_SHM then ''SETUP_WORTHWHILE''
             else if switch_cost_us cfg < q then ''QUEUE_PRESSURE'' else ''COST_WIN''), True)
       else (current, snprintf_reason (d\<lparr>dc_selected := current\<rparr>) ''STICKY_MARGIN'', True)
     else (current, snprintf_reason (d\<lparr>dc_selected := current\<rparr>) ''COST_STABLE'', True))"

subsection \<open>The decision function\<close>

definition adapt_policy_decide ::
  "adapt_policy_mode_t \<Rightarrow> adapt_cost_cfg \<Rightarrow> adapt_rtctx option \<Rightarrow> adapt_learn option \<Rightarrow> adapt_health option \<Rightarrow>
   bool \<Rightarrow> double \<Rightarrow> adapt_route_t \<Rightarrow> csize \<Rightarrow> u64 \<Rightarrow> u64 \<Rightarrow>
   adapt_route_t \<times> adapt_decision \<times> adapt_learn option" where
  "adapt_policy_decide policy cfg rt learn health mapped ewma current payload now clk =
    (let d = decision_zero\<lparr>dc_ts_ns := now, dc_payload := payload, dc_current := current\<rparr> in
     if policy = ADAPT_POLICY_SIZE_ONLY then
       let (r, d) = decide_size_only cfg mapped ewma payload d in (r, d, learn)
     else if policy = ADAPT_POLICY_SIZE_HYSTERESIS \<or> cold_start policy cfg learn then
       let (r, d) = decide_hysteresis policy cfg rt health mapped ewma current payload clk d in (r, d, learn)
     else
       let occ = (case rt of None \<Rightarrow> 0 | Some rc \<Rightarrow> u64_of_d (ewma_occ_bytes rc));
           q = (if ADAPT_POLICY_QUEUE_AWARE \<le> policy then adapt_rtctx_queue_wait_us rt payload occ clk else 0);
           d = d\<lparr>dc_occ_bytes := d_of_u64 occ, dc_queue_wait_shm_us := q\<rparr> in
       if policy = ADAPT_POLICY_QUEUE_AWARE then
         let (r, d) = decide_queue_aware cfg mapped ewma current payload q d in (r, d, learn)
       else
         let d = score_both policy cfg rt learn health mapped current payload now q d;
             (r, d, goes_on) = pick_route cfg mapped current q d;
             learn = (case learn of None \<Rightarrow> None
               | Some l \<Rightarrow> Some (if policy = ADAPT_POLICY_FULL_ADAPTIVE \<and> goes_on
                   then snd (adapt_learn_crossover l cfg) else l)) in
         (r, d, learn))"

subsection \<open>Basic facts\<close>

lemma hysteresis_route_not_none: "hysteresis_route e c \<noteq> ADAPT_ROUTE_NONE"
  by (simp add: hysteresis_route_def)

lemma snprintf_reason_simps [simp]:
  "dc_selected (snprintf_reason d r) = dc_selected d"
  "dc_score_uds (snprintf_reason d r) = dc_score_uds d"
  "dc_score_shm (snprintf_reason d r) = dc_score_shm d"
  "dc_selected (with_costs d u s) = dc_selected d"
  "dc_queue_wait_shm_us (snprintf_reason d r) = dc_queue_wait_shm_us d"
  by (simp_all add: snprintf_reason_def with_costs_def)

lemma decide_hysteresis_result:
  assumes "decide_hysteresis policy cfg rt health mapped ewma current payload clk d = (r, d')"
  shows "dc_selected d' = r" "r \<noteq> ADAPT_ROUTE_NONE"
    "policy \<noteq> ADAPT_POLICY_FULL_ADAPTIVE \<Longrightarrow> r = hysteresis_route ewma current"
    "r \<noteq> hysteresis_route ewma current \<Longrightarrow> r = ADAPT_ROUTE_UDS \<and> fits_uds payload \<and> ADAPT_TAU_HIGH \<le> ewma"
  using assms hysteresis_route_not_none [of ewma current]
  by (auto simp: decide_hysteresis_def Let_def pressure_escape_def split: option.splits if_split_asm)

lemma pick_route_result:
  assumes "pick_route cfg mapped current q d = (r, d', b)"
  shows "dc_selected d' = r" "r \<noteq> ADAPT_ROUTE_NONE"
    "dc_score_uds d' = dc_score_uds d" "dc_score_shm d' = dc_score_shm d"
    "r \<noteq> current \<Longrightarrow> current \<noteq> ADAPT_ROUTE_NONE \<Longrightarrow> score_of d r + margin_us cfg < score_of d current"
  using assms by (auto simp: pick_route_def Let_def candidate_def split: if_split_asm)


lemma decide_selected:
  assumes "adapt_policy_decide policy cfg rt learn health mapped ewma current payload now clk = (r, d, l)"
  shows "dc_selected d = r" "r \<noteq> ADAPT_ROUTE_NONE"
  using assms
  by (auto simp: adapt_policy_decide_def Let_def decide_size_only_def size_only_route_def
      decide_queue_aware_def hysteresis_route_def
      dest: decide_hysteresis_result(1,2) pick_route_result(1,2) split: if_split_asm prod.split_asm)

text \<open>The case of the cost comparison.\<close>

definition compares_costs :: "adapt_policy_mode_t \<Rightarrow> adapt_cost_cfg \<Rightarrow> adapt_learn option \<Rightarrow> bool" where
  "compares_costs policy cfg learn \<longleftrightarrow> \<not> cold_start policy cfg learn \<and>
     policy \<in> {ADAPT_POLICY_DEFAULT, ADAPT_POLICY_COST_AWARE, ADAPT_POLICY_FULL_ADAPTIVE}"

lemma decide_costs:
  assumes "compares_costs policy cfg learn"
    and "adapt_policy_decide policy cfg rt learn health mapped ewma current payload now clk = (r, d, l)"
  obtains q d0 b where "pick_route cfg mapped current q (score_both policy cfg rt learn health mapped current payload now q d0) = (r, d, b)"
  using assms by (auto simp: adapt_policy_decide_def compares_costs_def Let_def split: prod.split_asm)

subsection \<open>How fast the average can fall\<close>

text \<open>With a weight of at most 0.2, one message keeps at least 0.7998 of the average: the
  constants bound the first six averages after one at the high threshold.\<close>

definition fall_bound :: "nat \<Rightarrow> rat" where
  "fall_bound n = [4096, 3276, 2620, 2095, 1675, 1339, 1070] ! n"

lemma ewma_q_fall:
  assumes a: "weight a" "a \<le> 205 / 1024" and x: "0 \<le> x" and e: "b \<le> e" "0 \<le> b"
    and b': "b' \<le> 819 / 1024 * b" "repr64 b'"
  shows "b' \<le> ewma_q a x e"
proof -
  have "repr64 (819 / 1024)"
    unfolding repr64_def by (intro exI [of _ 819] exI [of _ "-10"]) (simp add: power_int_minus)
  then have w: "819 / 1024 \<le> fl (1 - a)" using a(2) by (intro fl_ge) auto
  have "819 / 1024 * b \<le> fl (1 - a) * e" using w e by (intro mult_mono) auto
  then have "b' \<le> fl (fl (1 - a) * e)" using b' by (intro fl_ge) auto
  moreover have "0 \<le> fl (a * x)" using a x by (intro fl_nonneg) (simp add: weight_def)
  ultimately show ?thesis unfolding ewma_q_def using b' by (intro fl_ge) auto
qed

lemma ewma_update_fall:
  assumes a: "weight a" "a \<le> 205 / 1024" and e: "inrange 64 e" "Fin (fall_bound n) \<le> e" and n: "n < 6"
  shows "Fin (fall_bound (Suc n)) \<le> ewma_update e (Fin a) sz \<and> inrange 64 (ewma_update e (Fin a) sz)"
proof
  obtain x where x: "d_of_u64 sz = Fin x" "0 \<le> x" "x \<le> pw 64" using d_of_u64_Fin by blast
  obtain y where y: "e = Fin y" "0 \<le> y" "y \<le> pw 64" using e(1) by (auto elim: inrangeE)
  have b: "fall_bound n \<le> y" "0 \<le> fall_bound n" "fall_bound (Suc n) \<le> 819 / 1024 * fall_bound n"
    "repr64 (fall_bound (Suc n))"
    using e(2) y(1) n by (auto simp: fall_bound_def less_Suc_eq numeral_eq_Suc)
  have "ewma_update e (Fin a) sz = Fin (ewma_q a x y)"
    unfolding ewma_update_def x(1) y(1) using a x y by (intro ewma_step_Fin [where k = 64]) auto
  moreover have "fall_bound (Suc n) \<le> ewma_q a x y" using a x(2) b by (intro ewma_q_fall) auto
  ultimately show "Fin (fall_bound (Suc n)) \<le> ewma_update e (Fin a) sz" by simp
  show "inrange 64 (ewma_update e (Fin a) sz)"
    unfolding ewma_update_def using a e inrange_d_of_u64 by (intro inrange_ewma_step) auto
qed

subsection \<open>Runs of the size classifier\<close>

text \<open>What \<open>adapt_send\<close> does with the average and the last route, for a run of messages under the
  size hysteresis: the routes decided.\<close>

fun size_run :: "adapt_cost_cfg \<Rightarrow> double \<Rightarrow> csize list \<Rightarrow> double \<times> adapt_route_t \<Rightarrow> adapt_route_t list" where
  "size_run cfg alpha [] st = []"
| "size_run cfg alpha (sz # szs) (e, cur) =
    (let e' = ewma_update e alpha sz;
         r = fst (adapt_policy_decide ADAPT_POLICY_SIZE_HYSTERESIS cfg None None None True e' cur sz 0 0) in
     r # size_run cfg alpha szs (e', r))"

lemma decide_size_hysteresis:
  "fst (adapt_policy_decide ADAPT_POLICY_SIZE_HYSTERESIS cfg rt learn health mapped ewma current payload now clk)
    = hysteresis_route ewma current"
  using decide_hysteresis_result(3) [of ADAPT_POLICY_SIZE_HYSTERESIS]
  by (auto simp: adapt_policy_decide_def Let_def split: prod.split)

lemma size_run_simps [simp]:
  "size_run cfg alpha (sz # szs) (e, cur) =
    hysteresis_route (ewma_update e alpha sz) cur #
    size_run cfg alpha szs (ewma_update e alpha sz, hysteresis_route (ewma_update e alpha sz) cur)"
  by (simp add: Let_def decide_size_hysteresis)

declare size_run.simps(2) [simp del]

lemma size_run_sticky:
  assumes "weight a" "a \<le> 205 / 1024" "inrange 64 e" "Fin (fall_bound n) \<le> e" "n + length szs \<le> 6"
  shows "set (size_run cfg (Fin a) szs (e, ADAPT_ROUTE_SHM)) \<subseteq> {ADAPT_ROUTE_SHM}"
  using assms(3-)
proof (induction szs arbitrary: e n)
  case (Cons sz szs)
  then have n: "n < 6" by simp
  note f = ewma_update_fall [OF assms(1,2) Cons.prems(1,2) n, of sz]
  have "1024 < fall_bound (Suc n)" using n by (auto simp: fall_bound_def less_Suc_eq numeral_eq_Suc)
  then have "ADAPT_TAU_LOW < ewma_update e (Fin a) sz"
    using f double_less_le_trans [of ADAPT_TAU_LOW "Fin (fall_bound (Suc n))"] by (simp add: ADAPT_TAU_LOW_def)
  then have "hysteresis_route (ewma_update e (Fin a) sz) ADAPT_ROUTE_SHM = ADAPT_ROUTE_SHM"
    by (simp add: hysteresis_route_def double_less_not_le)
  then show ?case using Cons.IH [of "ewma_update e (Fin a) sz" "Suc n"] f Cons.prems(3) by simp
qed simp


lemma ewma_update_le:
  assumes "weight a" "0 \<le> k" "k \<le> 1000" "inrange k e" "inrange k (d_of_u64 sz)"
  shows "inrange k (ewma_update e (Fin a) sz)"
  unfolding ewma_update_def using assms by (intro inrange_ewma_step)

lemma tau_pw: "ADAPT_TAU_LOW = Fin (pw 10)" "ADAPT_TAU_HIGH = Fin (pw 12)"
  by (simp_all add: ADAPT_TAU_LOW_def ADAPT_TAU_HIGH_def)

subsection \<open>Properties\<close>

text \<open>The decision always selects one of the two transports, and the record it fills in names
  the route it returns.\<close>

lemma adapt_policy_decide_selects:
  "case adapt_policy_decide policy cfg rt learn health mapped ewma current payload now clk of
    (r, d, l) \<Rightarrow> r \<in> {ADAPT_ROUTE_SHM, ADAPT_ROUTE_UDS} \<and> dc_selected d = r"
proof -
  obtain r d l where e: "adapt_policy_decide policy cfg rt learn health mapped ewma current payload now clk = (r, d, l)"
    by (cases "adapt_policy_decide policy cfg rt learn health mapped ewma current payload now clk")
  show ?thesis using decide_selected [OF e] e by (cases r) auto
qed

text \<open>The size hysteresis: SHM at or above the high threshold, UDS at or below the low one, and
  in between the route stays; it starts on UDS.\<close>

lemma size_hysteresis_decides:
  "fst (adapt_policy_decide ADAPT_POLICY_SIZE_HYSTERESIS cfg rt learn health mapped ewma current payload now clk)
    = (if ADAPT_TAU_HIGH \<le> ewma then ADAPT_ROUTE_SHM
       else if ewma \<le> ADAPT_TAU_LOW then ADAPT_ROUTE_UDS
       else if current = ADAPT_ROUTE_SHM then ADAPT_ROUTE_SHM else ADAPT_ROUTE_UDS)"
  by (simp add: decide_size_hysteresis hysteresis_route_def)


text \<open>A stream of small messages never leaves UDS and a stream of large ones never leaves SHM:
  with all sizes at most 1024 (at least 4096) the rounded average stays on that side of the
  threshold, with no drift across it.\<close>

lemma uniform_streams_stay:
  assumes "weight a" "inrange 64 e"
  shows "(e \<le> ADAPT_TAU_LOW \<and> list_all (\<lambda>sz. sz \<le> 1024) szs \<longrightarrow>
      set (size_run cfg (Fin a) szs (e, cur)) \<subseteq> {ADAPT_ROUTE_UDS}) \<and>
    (ADAPT_TAU_HIGH \<le> e \<and> list_all (\<lambda>sz. 4096 \<le> sz) szs \<longrightarrow>
      set (size_run cfg (Fin a) szs (e, cur)) \<subseteq> {ADAPT_ROUTE_SHM})"
proof -
  have small: "set (size_run cfg (Fin a) szs (e, cur)) \<subseteq> {ADAPT_ROUTE_UDS}"
    if "inrange 10 e" "list_all (\<lambda>sz. sz \<le> 1024) szs" for e cur
    using that
  proof (induction szs arbitrary: e cur)
    case (Cons sz szs)
    have "inrange (int 10) (d_of_u64 sz)"
      using Cons.prems(2) by (intro u64_word_le) (simp add: word_le_nat_alt)
    then have i: "inrange 10 (ewma_update e (Fin a) sz)"
      using assms(1) Cons.prems(1) by (intro ewma_update_le) auto
    then have "ewma_update e (Fin a) sz \<le> ADAPT_TAU_LOW" unfolding tau_pw by (simp add: inrange_def)
    moreover have "ADAPT_TAU_LOW < ADAPT_TAU_HIGH" by (simp add: ADAPT_TAU_LOW_def ADAPT_TAU_HIGH_def)
    ultimately have "hysteresis_route (ewma_update e (Fin a) sz) cur = ADAPT_ROUTE_UDS"
      using double_less_not_le double_le_less_trans by (auto simp: hysteresis_route_def)
    then show ?case using Cons.IH [OF i] Cons.prems(2) by simp
  qed simp
  have large: "set (size_run cfg (Fin a) szs (e, cur)) \<subseteq> {ADAPT_ROUTE_SHM}"
    if "inrange 64 e" "Fin (pw 12) \<le> e" "list_all (\<lambda>sz. 4096 \<le> sz) szs" for e cur
    using that
  proof (induction szs arbitrary: e cur)
    case (Cons sz szs)
    have "d_of_u64 4096 = Fin (pw 12)" by (simp add: d_of_u64_exact)
    then have d: "Fin (pw 12) \<le> d_of_u64 sz" using Cons.prems(3) d_of_u64_mono [of 4096 sz] by simp
    have i: "inrange 64 (ewma_update e (Fin a) sz)" "Fin (pw 12) \<le> ewma_update e (Fin a) sz"
      unfolding ewma_update_def using assms(1) Cons.prems d inrange_d_of_u64
      by (auto intro!: inrange_ewma_step ewma_step_ge [of a 12 64] simp del: power_int_numeral)
    then have "hysteresis_route (ewma_update e (Fin a) sz) cur = ADAPT_ROUTE_SHM"
      unfolding hysteresis_route_def tau_pw by simp
    then show ?case using Cons.IH [OF i] Cons.prems(3) by simp
  qed simp
  have "e \<le> ADAPT_TAU_LOW \<Longrightarrow> inrange 10 e" using assms(2) by (simp add: tau_pw inrange_def)
  then show ?thesis using small large [OF assms(2)] unfolding tau_pw by blast
qed

text \<open>Under queue pressure the size rules are overridden in one direction only: the queue-aware
  policy and the cold start leave the hysteresis route only from SHM to UDS, only for an
  average at the high threshold, and only for a message a datagram can carry.\<close>

lemma escape_only_to_uds:
  assumes "policy = ADAPT_POLICY_QUEUE_AWARE \<or> cold_start policy cfg learn"
    and "fst (adapt_policy_decide policy cfg rt learn health mapped ewma current payload now clk)
      \<noteq> hysteresis_route ewma current"
  shows "fst (adapt_policy_decide policy cfg rt learn health mapped ewma current payload now clk) = ADAPT_ROUTE_UDS \<and>
    ADAPT_TAU_HIGH \<le> ewma \<and> fits_uds payload"
  using assms(1)
proof
  assume "policy = ADAPT_POLICY_QUEUE_AWARE"
  then show ?thesis using assms(2)
    by (auto simp: adapt_policy_decide_def Let_def cold_start_def decide_queue_aware_def hysteresis_route_def
        pressure_escape_def split: if_split_asm)
next
  assume c: "cold_start policy cfg learn"
  then have p: "policy = ADAPT_POLICY_FULL_ADAPTIVE" by (simp add: cold_start_def)
  let ?d = "decision_zero\<lparr>dc_ts_ns := now, dc_payload := payload, dc_current := current\<rparr>"
  obtain r d where h: "decide_hysteresis policy cfg rt health mapped ewma current payload clk ?d = (r, d)" by fastforce
  then have "fst (adapt_policy_decide policy cfg rt learn health mapped ewma current payload now clk) = r"
    using c p by (simp add: adapt_policy_decide_def Let_def)
  then show ?thesis using decide_hysteresis_result(4) [OF h] assms(2) by simp
qed

text \<open>C32: The stability rule: where the scores are compared, a decision that leaves the current
  transport improves the score by more than the margin. So an estimate of both scores that is
  off by at most \<open>eps\<close> each, with \<open>2 * eps \<le> margin\<close>, never moves to a truly worse transport.\<close>

lemma switch_beats_margin:
  assumes "compares_costs policy cfg learn" "current \<noteq> ADAPT_ROUTE_NONE"
    and dec: "adapt_policy_decide policy cfg rt learn health mapped ewma current payload now clk = (r, d, l)"
    and "r \<noteq> current"
    and fin: "score_of d r = Fin new" "score_of d current = Fin old" "valid64 (Fin old)" "margin_us cfg = Fin m"
    and err: "\<bar>new - true_new\<bar> \<le> eps" "\<bar>old - true_old\<bar> \<le> eps" "2 * eps \<le> m"
  shows "new + m < old \<and> true_new < true_old"
proof -
  obtain q d0 b where c: "pick_route cfg mapped current q
      (score_both policy cfg rt learn health mapped current payload now q d0) = (r, d, b)"
    using decide_costs [OF assms(1) dec] .
  have "score_of d = score_of (score_both policy cfg rt learn health mapped current payload now q d0)"
    unfolding score_of_def pick_route_result(3,4) [OF c] ..
  then have "score_of d r + margin_us cfg < score_of d current"
    using pick_route_result(5) [OF c] assms(2,4) by simp
  then have "round64 (new + m) < Fin old" by (simp add: fin)
  then have "new + m < old" using fin(3) by (rule round64_less_imp)
  then show ?thesis using err by linarith
qed

text \<open>C33: Without a latency budget, which is the default, the notification floor of SHM has no
  influence on any decision: no policy reads it outside the latency penalty.\<close>

lemma notify_floor_unused:
  assumes "\<not> 0 < latency_budget_us cfg"
  shows "adapt_policy_decide policy (cfg\<lparr>shm_notify_floor_us := x\<rparr>) rt learn health mapped ewma current payload now clk
    = adapt_policy_decide policy cfg rt learn health mapped ewma current payload now clk"
proof -
  let ?c = "cfg\<lparr>shm_notify_floor_us := x\<rparr>"
  have prims: "adapt_cost_uds ?c = adapt_cost_uds cfg" "adapt_cost_shm ?c = adapt_cost_shm cfg"
    "lin_uds ?c = lin_uds cfg" "lin_shm ?c = lin_shm cfg" "cold_start policy ?c learn = cold_start policy cfg learn"
    "pressure_escape ?c = pressure_escape cfg" "lat_shm ?c = lat_shm cfg"
    "\<And>l. adapt_learn_crossover l ?c = adapt_learn_crossover l cfg"
    by (auto simp: fun_eq_iff adapt_cost_uds_def adapt_cost_shm_def lin_uds_def lin_shm_def cold_start_def
        pressure_escape_def lat_shm_def adapt_learn_crossover_def Let_def split: option.split)
  have pen: "latency_penalty ?c u s = 0" "latency_penalty cfg u s = 0" for u s
    using assms by (simp_all add: latency_penalty_def)
  have "decide_size_only ?c = decide_size_only cfg" "decide_queue_aware ?c = decide_queue_aware cfg"
    "decide_hysteresis policy ?c = decide_hysteresis policy cfg" "pick_route ?c = pick_route cfg"
    "score_both policy ?c = score_both policy cfg"
    by (auto simp: fun_eq_iff decide_size_only_def decide_queue_aware_def decide_hysteresis_def pick_route_def
        score_both_def Let_def prims pen split: option.split)
  then show ?thesis unfolding adapt_policy_decide_def prims by (simp only:)
qed


subsection \<open>The properties at concrete inputs\<close>

text \<open>A configuration without per-byte costs.\<close>

definition flat_cfg :: adapt_cost_cfg where
  "flat_cfg = adapt_cost_cfg_defaults\<lparr>uds_fixed_us := Fin 100, uds_slope_us_per_b := Fin 0,
     shm_fixed_us := Fin 1, shm_slope_us_per_b := Fin 0\<rparr>"

lemma flat_cfg_simps [cfg_simps]:
  "uds_fixed_us flat_cfg = Fin 100" "uds_slope_us_per_b flat_cfg = Fin 0"
  "shm_fixed_us flat_cfg = Fin 1" "shm_slope_us_per_b flat_cfg = Fin 0"
  "switch_cost_us flat_cfg = Fin 20" "margin_us flat_cfg = Fin 5"
  "latency_budget_us flat_cfg = Fin 0"
  by (simp_all add: flat_cfg_def adapt_cost_cfg_defaults_def)

lemma weight_eighth: "weight (1 / 8)"
proof -
  have "repr64 (pw (-3))" by (rule repr64_pw) simp
  then show ?thesis by (simp add: weight_def power_int_minus field_simps)
qed


lemma uniform_streams_stay_witness:
  "set (size_run flat_cfg (Fin (1 / 8)) [1024, 3, 1000] (Fin 0, ADAPT_ROUTE_NONE)) \<subseteq> {ADAPT_ROUTE_UDS}"
  using uniform_streams_stay [OF weight_eighth inrange_0, of "[1024, 3, 1000]" flat_cfg ADAPT_ROUTE_NONE]
  by (simp add: ADAPT_TAU_LOW_def del: size_run_simps)

lemma escape_only_to_uds_witness:
  "fst (adapt_policy_decide ADAPT_POLICY_QUEUE_AWARE flat_cfg
     (Some (adapt_rtctx_init 8\<lparr>ewma_occ_bytes := Fin 2000000\<rparr>)) None None True (Fin 8192)
     ADAPT_ROUTE_SHM 100 7 9) = ADAPT_ROUTE_UDS \<and> fits_uds 100"
proof -
  let ?rt = "Some (adapt_rtctx_init 8\<lparr>ewma_occ_bytes := Fin 2000000\<rparr>)"
  have r: "drain_rate ?rt 9 = Fin 50000000"
    by (simp add: drain_rate_def drain_reliable_def adapt_rtctx_init_def ADAPT_DRAIN_FLOOR_BPS_def zero_double_def)
  have o: "u64_of_d (Fin 2000000) = 2000000" by (simp add: u64_of_d_def)
  have "pw (-5) \<le> fl (2000000 / 50000000)" by (intro fl_ge repr64_pw) (simp_all add: power_int_minus)
  then have "31250 \<le> fl (2000000 / 50000000) * (1000000::rat)" by (simp add: power_int_minus)
  then have "31250 \<le> wait_q 2000000 50000000" unfolding wait_q_def by (intro fl_ge) simp_all
  then have q: "Fin 31250 \<le> adapt_rtctx_queue_wait_us ?rt 100 2000000 9"
    using queue_wait_eq [OF r order_refl, of 100 2000000] by (simp add: fl_repr)
  have c: "adapt_cost_uds flat_cfg 100 + switch_cost_us flat_cfg = Fin 120"
    by (simp add: adapt_cost_uds_def cfg_simps d_of_u64_exact)
  have "Fin 120 < adapt_rtctx_queue_wait_us ?rt 100 2000000 9"
    using q double_less_le_trans [of "Fin 120" "Fin 31250"] by simp
  then have "pressure_escape flat_cfg 100 (adapt_rtctx_queue_wait_us ?rt 100 2000000 9)"
    by (simp add: pressure_escape_def c fits_uds_def UDS_MAX_DGRAM_def)
  then have d: "fst (adapt_policy_decide ADAPT_POLICY_QUEUE_AWARE flat_cfg ?rt None None True (Fin 8192)
     ADAPT_ROUTE_SHM 100 7 9) = ADAPT_ROUTE_UDS"
    by (simp add: adapt_policy_decide_def decide_queue_aware_def cold_start_def Let_def policy_order
        ADAPT_TAU_HIGH_def o)
  then show ?thesis
    using escape_only_to_uds [of ADAPT_POLICY_QUEUE_AWARE flat_cfg None ?rt None True "Fin 8192" ADAPT_ROUTE_SHM 100 7 9]
    by (simp add: hysteresis_route_def ADAPT_TAU_HIGH_def)
qed

lemma switch_beats_margin_witness:
  "\<exists>d l. adapt_policy_decide ADAPT_POLICY_COST_AWARE flat_cfg None None None True (Fin 0)
     ADAPT_ROUTE_UDS 0 7 9 = (ADAPT_ROUTE_SHM, d, l) \<and> score_of d ADAPT_ROUTE_SHM = Fin 21 \<and>
     score_of d ADAPT_ROUTE_UDS = Fin 100 \<and> (21 :: rat) + 5 < 100"
proof -
  obtain r d l where e: "adapt_policy_decide ADAPT_POLICY_COST_AWARE flat_cfg None None None True (Fin 0)
      ADAPT_ROUTE_UDS 0 7 9 = (r, d, l)"
    by (cases "adapt_policy_decide ADAPT_POLICY_COST_AWARE flat_cfg None None None True (Fin 0) ADAPT_ROUTE_UDS 0 7 9")
  then have s: "r = ADAPT_ROUTE_SHM" "score_of d ADAPT_ROUTE_SHM = Fin 21" "score_of d ADAPT_ROUTE_UDS = Fin 100"
    by (auto simp: adapt_policy_decide_def cold_start_def Let_def policy_order adapt_rtctx_queue_wait_us_def
        score_both_def pick_route_def candidate_def score_of_def lin_uds_def lin_shm_def latency_penalty_def
        cfg_simps zero_double_def snprintf_reason_def)
  have "compares_costs ADAPT_POLICY_COST_AWARE flat_cfg None" by (simp add: compares_costs_def cold_start_def)
  from switch_beats_margin [OF this _ e, of 21 100 5 21 "5 / 2" 100] s show ?thesis
    using e pw_less_ovf64 [of 7] by (auto simp: cfg_simps)
qed

lemma notify_floor_unused_witness:
  "adapt_policy_decide ADAPT_POLICY_COST_AWARE (flat_cfg\<lparr>shm_notify_floor_us := Fin 9000\<rparr>) None None None True
     (Fin 0) ADAPT_ROUTE_UDS 0 7 9
   = adapt_policy_decide ADAPT_POLICY_COST_AWARE flat_cfg None None None True (Fin 0) ADAPT_ROUTE_UDS 0 7 9"
  by (rule notify_floor_unused) (simp add: cfg_simps zero_double_def)

end
