(* ===== verification/DecisionCsv.thy ===== *)
theory DecisionCsv
  imports Policy
begin

text \<open>
  The file that \<open>adapt_declog_dump\<close> of \<open>src/cost_model.c\<close> writes: a header line and one line of
  sixteen fields per decision. \<open>fprintf\<close> prints a double exactly rounded to the requested
  digits, ties to even; the sign of a zero or of a NaN is not kept by the doubles of the model.
\<close>

subsection \<open>Number formats\<close>

definition zero_pad :: "nat \<Rightarrow> string \<Rightarrow> string" where
  "zero_pad n s = replicate (n - length s) CHR ''0'' @ s"

definition fmt_fixed :: "nat \<Rightarrow> rat \<Rightarrow> string" where
  "fmt_fixed n q =
    (let m = nat (rne (\<bar>q\<bar> * 10 ^ n)) in
     (if q < 0 then ''-'' else []) @ string_of_nat (m div 10 ^ n) @
     (if n = 0 then [] else ''.'' @ zero_pad n (string_of_nat (m mod 10 ^ n))))"

fun fmt_double :: "nat \<Rightarrow> double \<Rightarrow> string" where
  "fmt_double n (Fin q) = fmt_fixed n q"
| "fmt_double n PInf = ''inf''"
| "fmt_double n MInf = ''-inf''"
| "fmt_double n NaN = ''nan''"

subsection \<open>The file\<close>

definition csv_columns :: "string list" where
  "csv_columns = [''seq'', ''ts_ns'', ''payload'', ''occ_bytes'', ''current'',
     ''cost_uds_us'', ''cost_shm_us'', ''queue_wait_shm_us'', ''switch_cost_us'', ''setup_cost_us'',
     ''health_penalty_us'', ''latency_penalty_us'', ''score_uds_us'', ''score_shm_us'', ''selected'',
     ''reason'']"

definition csv_fields :: "adapt_decision \<Rightarrow> string list" where
  "csv_fields d = [string_of_nat (unat (dc_seq d)), string_of_nat (unat (dc_ts_ns d)),
     string_of_nat (unat (dc_payload d)), fmt_double 0 (dc_occ_bytes d), adapt_route_name (dc_current d),
     fmt_double 2 (dc_cost_uds d), fmt_double 2 (dc_cost_shm d), fmt_double 2 (dc_queue_wait_shm_us d),
     fmt_double 2 (dc_switch_cost_us d), fmt_double 2 (dc_setup_cost_us d),
     fmt_double 2 (dc_health_penalty_us d), fmt_double 2 (dc_latency_penalty_us d),
     fmt_double 2 (dc_score_uds d), fmt_double 2 (dc_score_shm d), adapt_route_name (dc_selected d),
     dc_reason d]"

definition csv_line :: "string list \<Rightarrow> string" where
  "csv_line fs = join_with CHR '','' fs @ [CHR 0x0A]"

text \<open>The contents of the file; \<open>None\<close> when none is written. \<open>opens\<close>: a path is given and
  \<open>fopen\<close> succeeds on it.\<close>

definition adapt_declog_csv :: "bool \<Rightarrow> adapt_declog \<Rightarrow> string option" where
  "adapt_declog_csv opens dl =
    (if \<not> opens then None
     else map_option (\<lambda>ds. csv_line csv_columns @ concat (map (\<lambda>d. csv_line (csv_fields d)) ds))
            (adapt_declog_dump dl))"

subsection \<open>The fields hold no separator\<close>

definition plain_field :: "string \<Rightarrow> bool" where
  "plain_field s \<longleftrightarrow> CHR '','' \<notin> set s \<and> CHR 0x0A \<notin> set s"

lemma plain_field_append [simp]: "plain_field (s @ t) \<longleftrightarrow> plain_field s \<and> plain_field t"
  by (auto simp: plain_field_def)

lemma plain_Nil [simp]: "plain_field []"
  by (simp add: plain_field_def)

lemma plain_replicate [simp]: "plain_field (replicate n CHR ''0'')"
  by (auto simp: plain_field_def)

lemma plain_string_of_nat [simp]: "plain_field (string_of_nat n)"
proof -
  have "c \<noteq> CHR '',''" "c \<noteq> CHR 0x0A" if "c \<in> set (string_of_nat n)" for c
    using string_of_nat_digits [OF that] by (auto simp: of_char_def)
  then show ?thesis by (auto simp: plain_field_def)
qed

lemma plain_sign: "plain_field ''-''" "plain_field (CHR ''.'' # s) \<longleftrightarrow> plain_field s"
  by (simp_all add: plain_field_def)

lemma plain_fmt_double [simp]: "plain_field (fmt_double n x)"
proof (cases x)
  case (Fin q)
  then show ?thesis by (simp add: fmt_fixed_def Let_def zero_pad_def plain_sign)
qed (simp_all add: plain_field_def)

lemma plain_route_name [simp]: "plain_field (adapt_route_name r)"
  by (cases r) (simp_all add: plain_field_def)

lemma plain_csv_fields: "plain_field (dc_reason d) \<Longrightarrow> \<forall>s\<in>set (csv_fields d). plain_field s"
  by (simp add: csv_fields_def)

lemma plain_csv_columns: "\<forall>s\<in>set csv_columns. plain_field s"
  by (simp add: csv_columns_def plain_field_def)

lemma split_line:
  assumes "\<forall>s\<in>set fs. plain_field s" "fs \<noteq> []"
  shows "split_at CHR '','' (join_with CHR '','' fs) = fs" "CHR 0x0A \<notin> set (join_with CHR '','' fs)"
  using assms set_join_with [of "CHR '',''" fs]
  by (auto simp: plain_field_def intro: split_at_join)

subsection \<open>The reasons\<close>

text \<open>A record as the endpoint logs it: the one the decision function filled in, numbered.\<close>

definition decided :: "adapt_decision \<Rightarrow> bool" where
  "decided d \<longleftrightarrow> (\<exists>policy cfg rt learn health mapped ewma current payload now clk seq.
     d = (fst (snd (adapt_policy_decide policy cfg rt learn health mapped ewma current payload now clk)))\<lparr>dc_seq := seq\<rparr>)"

definition reasons :: "string list" where
  "reasons = [''SIZE_THRESHOLD'', ''SIZE_HYSTERESIS'', ''COLD_START'', ''HEALTH_ESCAPE'', ''QUEUE_PRESSURE'',
     ''INITIAL_ROUTE'', ''SETUP_WORTHWHILE'', ''COST_WIN'', ''STICKY_MARGIN'', ''COST_STABLE'']"

lemma reason_simps [simp]:
  "dc_reason (snprintf_reason d r) = take 23 r"
  "dc_reason (with_costs d u s) = dc_reason d"
  by (simp_all add: snprintf_reason_def with_costs_def)

lemma decide_size_only_reason:
  "decide_size_only cfg mapped ewma payload d = (r, d') \<Longrightarrow> dc_reason d' \<in> set reasons"
  by (auto simp: decide_size_only_def reasons_def Let_def)

lemma decide_hysteresis_reason:
  "decide_hysteresis policy cfg rt health mapped ewma current payload clk d = (r, d') \<Longrightarrow>
    dc_reason d' \<in> set reasons"
  by (auto simp: decide_hysteresis_def reasons_def Let_def split: option.splits if_split_asm)

lemma decide_queue_aware_reason:
  "decide_queue_aware cfg mapped ewma current payload q d = (r, d') \<Longrightarrow> dc_reason d' \<in> set reasons"
  by (clarsimp simp: decide_queue_aware_def Let_def) (simp add: reasons_def)

lemma pick_route_reason: "pick_route cfg mapped current q d = (r, d', b) \<Longrightarrow> dc_reason d' \<in> set reasons"
  by (auto simp: pick_route_def reasons_def Let_def split: if_split_asm)

lemma surjective_triple: "x = (fst x, fst (snd x), snd (snd x))"
  by simp

lemma adapt_policy_decide_reason:
  assumes "adapt_policy_decide policy cfg rt learn health mapped ewma current payload now clk = (r, d, l)"
  shows "dc_reason d \<in> set reasons"
  using assms by (auto simp: adapt_policy_decide_def Let_def dest: decide_size_only_reason
      decide_hysteresis_reason decide_queue_aware_reason pick_route_reason split: if_split_asm prod.split_asm)

lemma decided_plain: "decided d \<Longrightarrow> plain_field (dc_reason d)"
proof -
  assume "decided d"
  then have "dc_reason d \<in> set reasons"
    using adapt_policy_decide_reason [OF surjective_triple] by (auto simp: decided_def)
  then show ?thesis by (auto simp: reasons_def plain_field_def)
qed

subsection \<open>Properties\<close>

text \<open>What a reader takes from a line: number, time, size, the routes and the reason.\<close>

definition route_of_name :: "string \<Rightarrow> adapt_route_t" where
  "route_of_name s = (if s = ''SHM'' then ADAPT_ROUTE_SHM else if s = ''UDS'' then ADAPT_ROUTE_UDS
     else ADAPT_ROUTE_NONE)"

definition csv_read :: "string \<Rightarrow> nat \<times> nat \<times> nat \<times> adapt_route_t \<times> adapt_route_t \<times> string" where
  "csv_read line = (let f = split_at CHR '','' line in
     (nat_of_string (f ! 0), nat_of_string (f ! 1), nat_of_string (f ! 2),
      route_of_name (f ! 4), route_of_name (f ! 14), f ! 15))"

definition csv_key :: "adapt_decision \<Rightarrow> nat \<times> nat \<times> nat \<times> adapt_route_t \<times> adapt_route_t \<times> string" where
  "csv_key d = (unat (dc_seq d), unat (dc_ts_ns d), unat (dc_payload d), dc_current d, dc_selected d, dc_reason d)"

lemma route_of_name_inverse [simp]: "route_of_name (adapt_route_name r) = r"
  by (cases r) (simp_all add: route_of_name_def)

lemma csv_read_line:
  assumes "plain_field (dc_reason d)"
  shows "csv_read (join_with CHR '','' (csv_fields d)) = csv_key d"
  using split_line(1) [OF plain_csv_fields [OF assms]]
  by (simp add: csv_read_def csv_key_def csv_fields_def Let_def)


text \<open>A decision of the size rule.\<close>

definition small_decision :: adapt_decision where
  "small_decision = fst (snd (adapt_policy_decide ADAPT_POLICY_SIZE_ONLY adapt_cost_cfg_defaults None None None
     False 0 ADAPT_ROUTE_NONE 100 7 7))"

lemma small_decision_decided: "decided (small_decision\<lparr>dc_seq := 1\<rparr>)"
  unfolding decided_def small_decision_def by blast


end
