(* ===== verification/UdsFallback.thy ===== *)
theory UdsFallback
  imports AdaptTypes
begin

text \<open>
  The datagram transport of \<open>src/uds_fallback.c\<close>. The kernel is a script: what the successive
  \<open>sendto\<close>, \<open>poll\<close> and \<open>recvfrom\<close> calls answer. A loop that retries to the end of its script has
  not returned, \<open>None\<close>. The sleeps between retries have no effect on the results.
\<close>

record uds_endpoint =
  ue_fd :: int
  ue_path :: string

text \<open>An answer of a call that sends: the bytes taken, or an errno.\<close>

datatype sys_ret = SysOk nat | SysErr int

text \<open>An answer of \<open>recvfrom\<close>: the datagram at the head of the queue, or an errno.\<close>

datatype recv_ret = RecvMsg "u8 list" | RecvErr int

datatype poll_ret = PollReady | PollTimeout | PollErr int

record uds_script =
  us_send :: "sys_ret list"
  us_poll :: "poll_ret list"
  us_recv :: "recv_ret list"

subsection \<open>Opening and closing\<close>

text \<open>The answers of \<open>calloc\<close>, \<open>socket\<close> (a descriptor or a negated errno) and \<open>bind\<close> (an errno).\<close>

record open_env =
  oe_calloc :: bool
  oe_socket :: int
  oe_bind :: int

definition uds_open :: "string option \<Rightarrow> open_env \<Rightarrow> int \<times> uds_endpoint option" where
  "uds_open local_path env =
    (case local_path of
       None \<Rightarrow> (- EINVAL, None)
     | Some p \<Rightarrow>
       if 108 \<le> length p then (- ENAMETOOLONG, None) else
       if \<not> oe_calloc env then (- ENOMEM, None) else
       if oe_socket env < 0 then (oe_socket env, None) else
       if oe_bind env \<noteq> 0 then (- oe_bind env, None) else
       (0, Some \<lparr>ue_fd = oe_socket env, ue_path = p\<rparr>))"

text \<open>What \<open>uds_close\<close> asks of the system: the descriptor closed and the path unlinked.\<close>

definition uds_close :: "uds_endpoint option \<Rightarrow> int option \<times> string option" where
  "uds_close ep =
    (case ep of None \<Rightarrow> (None, None)
     | Some e \<Rightarrow> (if 0 \<le> ue_fd e then Some (ue_fd e) else None,
                  if ue_path e \<noteq> [] then Some (ue_path e) else None))"

subsection \<open>Sending\<close>

definition send_retry :: "int \<Rightarrow> bool" where
  "send_retry e \<longleftrightarrow> e = EINTR \<or> e = ENOBUFS \<or> e = ETIMEDOUT"

fun sendto_loop :: "sys_ret list \<Rightarrow> (sys_ret \<times> sys_ret list) option" where
  "sendto_loop [] = None"
| "sendto_loop (SysOk n # rs) = Some (SysOk n, rs)"
| "sendto_loop (SysErr e # rs) = (if send_retry e then sendto_loop rs else Some (SysErr e, rs))"

text \<open>The result: the code, what was put on the wire, the rest of the script.\<close>

definition uds_send ::
  "uds_endpoint option \<Rightarrow> string option \<Rightarrow> u8 list option \<Rightarrow> uds_script \<Rightarrow>
   (int \<times> u8 list list \<times> uds_script) option" where
  "uds_send ep peer data sc =
    (case (ep, peer, data) of
       (Some e, Some p, Some bs) \<Rightarrow>
         if bs = [] then Some (- EINVAL, [], sc) else
         if UDS_MAX_DGRAM < length bs then Some (- EMSGSIZE, [], sc) else
         (case sendto_loop (us_send sc) of
            None \<Rightarrow> None
          | Some (SysErr e, rs) \<Rightarrow> Some (- e, [], sc\<lparr>us_send := rs\<rparr>)
          | Some (SysOk n, rs) \<Rightarrow>
              Some (if n \<noteq> length bs then - EIO else 0, [take n bs], sc\<lparr>us_send := rs\<rparr>))
     | _ \<Rightarrow> Some (- EINVAL, [], sc))"

subsection \<open>Receiving\<close>

fun recvfrom_loop :: "recv_ret list \<Rightarrow> (recv_ret \<times> recv_ret list) option" where
  "recvfrom_loop [] = None"
| "recvfrom_loop (RecvMsg m # rs) = Some (RecvMsg m, rs)"
| "recvfrom_loop (RecvErr e # rs) = (if e = EINTR then recvfrom_loop rs else Some (RecvErr e, rs))"

fun poll_loop :: "poll_ret list \<Rightarrow> (poll_ret \<times> poll_ret list) option" where
  "poll_loop [] = None"
| "poll_loop (PollErr e # ps) = (if e = EINTR then poll_loop ps else Some (PollErr e, ps))"
| "poll_loop (p # ps) = Some (p, ps)"

text \<open>A datagram longer than the buffer is cut by the kernel; the call returns the cut length.\<close>

definition recv_datagram :: "csize \<Rightarrow> uds_script \<Rightarrow> (int \<times> u8 list \<times> uds_script) option" where
  "recv_datagram max_size sc =
    (case recvfrom_loop (us_recv sc) of
       None \<Rightarrow> None
     | Some (RecvErr e, rs) \<Rightarrow> Some (- e, [], sc\<lparr>us_recv := rs\<rparr>)
     | Some (RecvMsg m, rs) \<Rightarrow>
         let bs = take (unat max_size) m in
         Some (if bs = [] then - ECONNRESET else int (length bs), bs, sc\<lparr>us_recv := rs\<rparr>))"

definition uds_recv ::
  "uds_endpoint option \<Rightarrow> csize \<Rightarrow> uds_script \<Rightarrow> (int \<times> u8 list \<times> uds_script) option" where
  "uds_recv ep max_size sc =
    (if ep = None \<or> max_size = 0 then Some (- EINVAL, [], sc) else recv_datagram max_size sc)"

definition uds_recv_timeout ::
  "uds_endpoint option \<Rightarrow> csize \<Rightarrow> int \<Rightarrow> uds_script \<Rightarrow> (int \<times> u8 list \<times> uds_script) option" where
  "uds_recv_timeout ep max_size timeout_ms sc =
    (if ep = None \<or> max_size = 0 then Some (- EINVAL, [], sc) else
     if 0 < timeout_ms then
       (case poll_loop (us_poll sc) of
          None \<Rightarrow> None
        | Some (PollErr e, ps) \<Rightarrow> Some (- e, [], sc\<lparr>us_poll := ps\<rparr>)
        | Some (PollTimeout, ps) \<Rightarrow> Some (- EAGAIN, [], sc\<lparr>us_poll := ps\<rparr>)
        | Some (PollReady, ps) \<Rightarrow> recv_datagram max_size (sc\<lparr>us_poll := ps\<rparr>))
     else recv_datagram max_size sc)"

subsection \<open>Messages\<close>

text \<open>\<open>strerror\<close> is an argument.\<close>

definition uds_strerror :: "(int \<Rightarrow> string) \<Rightarrow> int \<Rightarrow> string" where
  "uds_strerror strerror rc =
    (if rc = 0 then ''ok''
     else if rc = - EMSGSIZE then ''datagram exceeds UDS_MAX_DGRAM''
     else if rc = - ECONNREFUSED then ''peer socket not bound''
     else strerror (- rc))"

subsection \<open>Facts\<close>

lemma sendto_loop_result:
  "sendto_loop rs = Some (r, rest) \<Longrightarrow> r \<in> set rs \<and> (\<forall>e. r = SysErr e \<longrightarrow> \<not> send_retry e)"
  by (induction rs rule: sendto_loop.induct) (auto split: if_splits)

lemma sendto_loop_stuck:
  "list_all (\<lambda>r. \<exists>e. r = SysErr e \<and> send_retry e) rs \<Longrightarrow> sendto_loop rs = None"
  by (induction rs rule: sendto_loop.induct) auto

lemma sendto_loop_skip:
  "list_all (\<lambda>r. \<exists>e. r = SysErr e \<and> send_retry e) rs \<Longrightarrow> sendto_loop (rs @ SysOk n # rest) = Some (SysOk n, rest)"
  by (induction rs rule: sendto_loop.induct) auto

lemma poll_loop_shorter: "poll_loop ps = Some (p, ps') \<Longrightarrow> length ps' < length ps"
  by (induction ps rule: poll_loop.induct) (auto split: if_splits)

text \<open>What \<open>sendto\<close> documents: an errno is positive.\<close>

fun sys_ret_ok :: "sys_ret \<Rightarrow> bool" where
  "sys_ret_ok (SysOk n) = True"
| "sys_ret_ok (SysErr e) = (0 < e)"

lemma sendto_loop_suffix: "sendto_loop rs = Some (r, rest) \<Longrightarrow> set rest \<subseteq> set rs"
  by (induction rs rule: sendto_loop.induct) (auto split: if_splits)

lemma uds_send_cases:
  assumes "uds_send ep peer (Some bs) sc = Some (rc, sent, sc')" "list_all sys_ret_ok (us_send sc)"
  shows "if rc = 0 then sent = [bs] \<and> bs \<noteq> [] \<and> length bs \<le> UDS_MAX_DGRAM
    else sent = [] \<or> (\<exists>n. sent = [take n bs] \<and> n \<noteq> length bs \<and> rc = - EIO)"
    and "list_all sys_ret_ok (us_send sc')"
proof -
  have "\<And>e rest. sendto_loop (us_send sc) = Some (SysErr e, rest) \<Longrightarrow> 0 < e"
    using sendto_loop_result assms(2) by (fastforce simp: list_all_iff)
  then show "if rc = 0 then sent = [bs] \<and> bs \<noteq> [] \<and> length bs \<le> UDS_MAX_DGRAM
    else sent = [] \<or> (\<exists>n. sent = [take n bs] \<and> n \<noteq> length bs \<and> rc = - EIO)"
    using assms(1)
    by (auto simp: uds_send_def errno_defs split: if_splits option.splits sys_ret.splits)
  show "list_all sys_ret_ok (us_send sc')"
    using assms sendto_loop_suffix [of "us_send sc"]
    by (auto simp: uds_send_def list_all_iff subset_iff split: if_splits option.splits sys_ret.splits)
qed

subsection \<open>Properties\<close>

text \<open>A successful send puts exactly the given datagram on the wire, once, and its size was
  within the limit; an interrupted call, a full peer queue or a kernel timeout is never
  reported to the caller.\<close>

lemma uds_send_once:
  assumes "uds_send (Some ep) (Some peer) (Some bs) sc = Some (rc, sent, sc')"
    and "\<forall>n. SysOk n \<in> set (us_send sc) \<longrightarrow> n = length bs" "\<forall>e. SysErr e \<in> set (us_send sc) \<longrightarrow> 0 < e"
  shows "(if rc = 0 then sent = [bs] \<and> bs \<noteq> [] \<and> length bs \<le> UDS_MAX_DGRAM else sent = [] \<and> rc < 0) \<and>
    rc \<notin> {- EINTR, - ENOBUFS, - ETIMEDOUT}"
  using assms sendto_loop_result [of "us_send sc"]
  by (auto simp: uds_send_def errno_defs send_retry_def split: if_splits option.splits sys_ret.splits)

text \<open>The retry is not bounded: as long as the kernel answers \<open>EINTR\<close>, \<open>ENOBUFS\<close> or \<open>ETIMEDOUT\<close>
  the send does not return.\<close>

lemma uds_send_unbounded:
  assumes "bs \<noteq> []" "length bs \<le> UDS_MAX_DGRAM"
    and "list_all (\<lambda>r. \<exists>e. r = SysErr e \<and> e \<in> {EINTR, ENOBUFS, ETIMEDOUT}) (us_send sc)"
  shows "uds_send (Some ep) (Some peer) (Some bs) sc = None"
proof -
  have "sendto_loop (us_send sc) = None"
    using assms(3) by (intro sendto_loop_stuck) (auto simp: list_all_iff send_retry_def)
  then show ?thesis using assms(1,2) by (simp add: uds_send_def)
qed

subsection \<open>The properties at concrete inputs\<close>

definition example_ep :: uds_endpoint where
  "example_ep = \<lparr>ue_fd = 4, ue_path = ''/tmp/a''\<rparr>"

lemma uds_send_once_witness:
  "\<exists>sc'. uds_send (Some example_ep) (Some ''/tmp/b'') (Some [1, 2])
     \<lparr>us_send = [SysErr EINTR, SysErr ENOBUFS, SysOk 2], us_poll = [], us_recv = []\<rparr> = Some (0, [[1, 2]], sc')"
proof -
  let ?sc = "\<lparr>us_send = [SysErr EINTR, SysErr ENOBUFS, SysOk 2], us_poll = [], us_recv = []\<rparr>"
  obtain rc sent sc' where u: "uds_send (Some example_ep) (Some ''/tmp/b'') (Some [1, 2]) ?sc = Some (rc, sent, sc')"
    and r: "rc = 0" by (auto simp: uds_send_def UDS_MAX_DGRAM_def send_retry_def)
  show ?thesis using uds_send_once [OF u] u r by (auto simp: errno_defs)
qed

lemma uds_send_unbounded_witness:
  "uds_send (Some example_ep) (Some ''/tmp/b'') (Some [1, 2])
     \<lparr>us_send = replicate 100 (SysErr ENOBUFS), us_poll = [], us_recv = []\<rparr> = None"
  by (rule uds_send_unbounded) (simp_all add: UDS_MAX_DGRAM_def list_all_iff)

end
