(* ===== verification/AdaptIpc.thy ===== *)
theory AdaptIpc
  imports RingFlow Policy UdsFallback
begin

text \<open>
  The endpoint of \<open>src/adapt_ipc.c\<close>: the context, the control channel that negotiates the ring,
  \<open>adapt_init\<close>, \<open>adapt_send\<close> cut into its stages, and \<open>adapt_recv\<close>. What surrounds a call is a
  \<open>world\<close>: the clock readings, the shared object, the datagram socket and the peer's activity,
  each a script. A call that does not return on its script is \<open>None\<close>.
\<close>

subsection \<open>Statistics, context, world\<close>

record adapt_stats =
  st_sends :: u64
  st_sends_shm :: u64
  st_sends_uds :: u64
  st_send_escalations :: u64
  st_router_ns :: u64
  st_send_alloc_ns :: u64
  st_send_copy_ns :: u64
  st_send_copy_bytes :: u64
  st_recv_msgs :: u64
  st_rx_shm_first :: u64
  st_rx_shm_later :: u64
  st_rx_uds_prompt :: u64
  st_rx_uds_later :: u64
  st_poll_calls :: u64
  st_poll_timeouts :: u64
  st_poll_wait_ns :: u64
  st_recv_loop_iters :: u64
  st_shm_setup_reqs :: u64
  st_shm_setup_acks :: u64
  st_negot_wait_ns :: u64
  st_route_switches :: u64
  st_backpressure_parks :: u64
  st_health_transitions :: u64
  st_decisions :: u64

definition stats_zero :: adapt_stats where
  "stats_zero = \<lparr>st_sends = 0, st_sends_shm = 0, st_sends_uds = 0, st_send_escalations = 0,
     st_router_ns = 0, st_send_alloc_ns = 0, st_send_copy_ns = 0, st_send_copy_bytes = 0,
     st_recv_msgs = 0, st_rx_shm_first = 0, st_rx_shm_later = 0, st_rx_uds_prompt = 0,
     st_rx_uds_later = 0, st_poll_calls = 0, st_poll_timeouts = 0, st_poll_wait_ns = 0,
     st_recv_loop_iters = 0, st_shm_setup_reqs = 0, st_shm_setup_acks = 0, st_negot_wait_ns = 0,
     st_route_switches = 0, st_backpressure_parks = 0, st_health_transitions = 0, st_decisions = 0\<rparr>"

record adapt_config =
  cf_shm_name :: "string option"
  cf_local_sock :: "string option"
  cf_peer_sock :: "string option"
  cf_shm_capacity :: csize
  cf_nonblocking_send :: bool
  cf_policy :: adapt_policy_mode_t
  cf_qos :: adapt_qos_t
  cf_latency_budget_us :: double

record adapt_ctx =
  cx_role :: adapt_role_t
  cx_shm_name :: string
  cx_local_sock :: string
  cx_peer_sock :: string
  cx_shm_capacity :: csize
  cx_nonblocking_send :: bool
  cx_ewma_size :: double
  cx_last_route :: adapt_route_t
  cx_ring :: "shm_ring option"
  cx_uds :: "uds_endpoint option"
  cx_rxbuf_cap :: csize
  cx_stats_on :: bool
  cx_st :: adapt_stats
  cx_retry_pending :: bool
  cx_pending_size :: csize
  cx_pending_route :: adapt_route_t
  cx_alpha :: double
  cx_negot_done :: bool
  cx_neg_name :: string
  cx_last_req_ns :: u64
  cx_eager_shm :: bool
  cx_policy :: adapt_policy_mode_t
  cx_cmcfg :: adapt_cost_cfg
  cx_rt :: adapt_rtctx
  cx_learn :: adapt_learn
  cx_health :: adapt_health
  cx_declog :: adapt_declog
  cx_declog_path :: "string option"
  cx_decision_seq :: u64

text \<open>
  The world of a call: the readings of the monotonic clock and how many were taken, the shared
  object the ring handle maps and what the calls of \<open>ring_map\<close> answer, whether \<open>realloc\<close>
  succeeds, the socket script, the datagrams sent so far, the interference of the flow-control
  rounds, the batches the peer pushes before each poll of the ring, the process id and the
  process-wide counter of ring names.
\<close>

record world =
  w_clock :: "nat \<Rightarrow> u64"
  w_tick :: nat
  w_obj :: shm_obj
  w_map :: map_env
  w_realloc :: bool
  w_uds :: uds_script
  w_wire :: "u8 list list"
  w_rounds :: "wait_round list"
  w_peer :: "u8 list list list"
  w_pid :: nat
  w_names :: u32

definition stats_now_ns :: "world \<Rightarrow> u64 \<times> world" where
  "stats_now_ns w = (w_clock w (w_tick w), w\<lparr>w_tick := w_tick w + 1\<rparr>)"

text \<open>\<open>STATS_T0\<close>: a reading only when the accounting is on.\<close>

definition tick_if :: "bool \<Rightarrow> world \<Rightarrow> u64 \<times> world" where
  "tick_if on w = (if on then stats_now_ns w else (0, w))"

definition upd_stats :: "(adapt_stats \<Rightarrow> adapt_stats) \<Rightarrow> adapt_ctx \<Rightarrow> adapt_ctx" where
  "upd_stats f ctx = (if cx_stats_on ctx then ctx\<lparr>cx_st := f (cx_st ctx)\<rparr> else ctx)"

definition grow_rxbuf :: "adapt_ctx \<Rightarrow> csize \<Rightarrow> world \<Rightarrow> int \<times> adapt_ctx" where
  "grow_rxbuf ctx cap w =
    (if cap \<le> cx_rxbuf_cap ctx then (0, ctx)
     else if \<not> w_realloc w then (- ENOMEM, ctx) else (0, ctx\<lparr>cx_rxbuf_cap := cap\<rparr>))"

subsection \<open>The control channel\<close>

definition ADAPT_WIRE_TAG_CTRL :: u8 where "ADAPT_WIRE_TAG_CTRL = 0"
definition ADAPT_CTRL_SHM_SETUP_REQ :: u8 where "ADAPT_CTRL_SHM_SETUP_REQ = 1"
definition ADAPT_CTRL_SHM_SETUP_ACK :: u8 where "ADAPT_CTRL_SHM_SETUP_ACK = 2"
definition TAG_SHM :: u8 where "TAG_SHM = 1"
definition TAG_UDS :: u8 where "TAG_UDS = 2"
definition ADAPT_NEGOT_DEADLINE_MS :: u64 where "ADAPT_NEGOT_DEADLINE_MS = 250"
definition ADAPT_NEGOT_POLL_MS :: int where "ADAPT_NEGOT_POLL_MS = 5"
definition ADAPT_NEGOT_RESEND_MS :: u64 where "ADAPT_NEGOT_RESEND_MS = 100"

definition generate_shm_name :: "world \<Rightarrow> string \<times> world" where
  "generate_shm_name w =
    (take 63 (''/adaptipc_shm_'' @ string_of_nat (w_pid w) @ ''_'' @ string_of_nat (unat (w_names w + 1))),
     w\<lparr>w_names := w_names w + 1\<rparr>)"

definition bytes_of :: "string \<Rightarrow> u8 list" where
  "bytes_of s = map of_char s"

definition string_of_bytes :: "u8 list \<Rightarrow> string" where
  "string_of_bytes bs = map (\<lambda>b. char_of (unat b)) bs"

text \<open>The \<open>SHM_SETUP_REQ\<close> frame, and its reading by the receiver: the capacity and the name, if the
  frame is long enough, the capacity acceptable and the name terminated.\<close>

definition setup_req :: "csize \<Rightarrow> string \<Rightarrow> u8 list" where
  "setup_req cap name = [ADAPT_WIRE_TAG_CTRL, ADAPT_CTRL_SHM_SETUP_REQ] @ le32 (ucast cap) @ bytes_of name @ [0]"

definition parse_setup_req :: "u8 list \<Rightarrow> (u32 \<times> string) option" where
  "parse_setup_req frame =
    (if length frame < 7 then None else
     let cap32 = un_le32 (take 4 (drop 2 frame)); name = drop 6 frame in
     if cap32 = 0 \<or> 2 ^ 30 < cap32 then None else
     if 0 \<notin> set name then None else
     Some (cap32, string_of_bytes (takeWhile (\<lambda>b. b \<noteq> 0) name)))"

definition setup_ack :: "u8 \<Rightarrow> u8 list" where
  "setup_ack status = [ADAPT_WIRE_TAG_CTRL, ADAPT_CTRL_SHM_SETUP_ACK, status]"

definition is_setup_ack :: "u8 list \<Rightarrow> bool" where
  "is_setup_ack frame \<longleftrightarrow> 3 \<le> length frame \<and> frame ! 0 = ADAPT_WIRE_TAG_CTRL \<and>
     frame ! 1 = ADAPT_CTRL_SHM_SETUP_ACK \<and> frame ! 2 = 0"

text \<open>\<open>uds_send\<close> of a frame in the world.\<close>

definition send_frame :: "adapt_ctx \<Rightarrow> u8 list \<Rightarrow> world \<Rightarrow> (int \<times> world) option" where
  "send_frame ctx frame w =
    (case uds_send (cx_uds ctx) (Some (cx_peer_sock ctx)) (Some frame) (w_uds w) of
       None \<Rightarrow> None
     | Some (rc, sent, sc) \<Rightarrow> Some (rc, w\<lparr>w_uds := sc, w_wire := w_wire w @ sent\<rparr>))"

definition recv_frame :: "adapt_ctx \<Rightarrow> csize \<Rightarrow> int \<Rightarrow> world \<Rightarrow> (int \<times> u8 list \<times> world) option" where
  "recv_frame ctx cap timeout w =
    (case uds_recv_timeout (cx_uds ctx) cap timeout (w_uds w) of
       None \<Rightarrow> None
     | Some (n, bs, sc) \<Rightarrow> Some (n, bs, w\<lparr>w_uds := sc\<rparr>))"

text \<open>\<open>shm_ring_attach\<close> to the object of the world.\<close>

definition attach_ring ::
  "string \<Rightarrow> csize \<Rightarrow> shm_ring_role \<Rightarrow> world \<Rightarrow> (int \<times> shm_ring option \<times> world) option" where
  "attach_ring name cap role w =
    map_option (\<lambda>(rc, rb, obj). (rc, rb, w\<lparr>w_obj := obj\<rparr>))
      (shm_ring_attach (Some name) cap role ((w_map w)\<lparr>me_object := w_obj w\<rparr>))"

definition producer_map_ring :: "adapt_ctx \<Rightarrow> world \<Rightarrow> (int \<times> adapt_ctx \<times> world) option" where
  "producer_map_ring ctx w =
    (case attach_ring (cx_neg_name ctx) (cx_shm_capacity ctx) SHM_RING_ROLE_PRODUCER w of
       None \<Rightarrow> None
     | Some (rc, rb, w) \<Rightarrow>
       if rc \<noteq> 0 then Some (rc, ctx, w) else
       let (rc, ctx) = grow_rxbuf (ctx\<lparr>cx_ring := rb\<rparr>) (cx_shm_capacity ctx) w in
       Some (rc, if rc \<noteq> 0 then ctx\<lparr>cx_ring := None\<rparr> else ctx, w))"

text \<open>The wait for the acknowledgement. Frames that are not one are ignored.\<close>

partial_function (option) await_ack ::
  "adapt_ctx \<Rightarrow> u64 \<Rightarrow> world \<Rightarrow> (int \<times> adapt_ctx \<times> world) option" where
  "await_ack ctx deadline w =
    (let (t0, w) = tick_if (cx_stats_on ctx) w in
     case recv_frame ctx (cx_rxbuf_cap ctx) ADAPT_NEGOT_POLL_MS w of
       None \<Rightarrow> None
     | Some (n, bs, w) \<Rightarrow>
       let (t1, w) = tick_if (cx_stats_on ctx) w;
           ctx = upd_stats (\<lambda>s. s\<lparr>st_negot_wait_ns := st_negot_wait_ns s + (t1 - t0)\<rparr>) ctx in
       if n = - EAGAIN then
         let (t, w) = stats_now_ns w in
         if deadline < t then Some (- ETIMEDOUT, ctx, w) else await_ack ctx deadline w
       else if n < 0 then Some (n, ctx, w)
       else if is_setup_ack bs then
         let ctx = upd_stats (\<lambda>s. s\<lparr>st_shm_setup_acks := st_shm_setup_acks s + 1\<rparr>) ctx in
         (case producer_map_ring ctx w of
            None \<Rightarrow> None
          | Some (rc, ctx, w) \<Rightarrow>
              if rc \<noteq> 0 then Some (rc, ctx, w) else Some (0, ctx\<lparr>cx_negot_done := True\<rparr>, w))
       else await_ack ctx deadline w)"

text \<open>Naming the ring and sending the request, at most every \<open>ADAPT_NEGOT_RESEND_MS\<close>.\<close>

definition name_ring :: "adapt_ctx \<Rightarrow> world \<Rightarrow> adapt_ctx \<times> world" where
  "name_ring ctx w =
    (if cx_neg_name ctx = [] then let (nm, w) = generate_shm_name w in (ctx\<lparr>cx_neg_name := nm\<rparr>, w)
     else (ctx, w))"

definition request_ring :: "adapt_ctx \<Rightarrow> u64 \<Rightarrow> world \<Rightarrow> (int \<times> adapt_ctx \<times> world) option" where
  "request_ring ctx now w =
    (if ADAPT_NEGOT_RESEND_MS * 1000000 < now - cx_last_req_ns ctx then
       (case send_frame ctx (setup_req (cx_shm_capacity ctx) (cx_neg_name ctx)) w of
          None \<Rightarrow> None
        | Some (rc, w) \<Rightarrow>
          if rc \<noteq> 0 then Some (rc, ctx, w) else
          Some (0, (upd_stats (\<lambda>s. s\<lparr>st_shm_setup_reqs := st_shm_setup_reqs s + 1\<rparr>) ctx)\<lparr>cx_last_req_ns := now\<rparr>, w))
     else Some (0, ctx, w))"

definition producer_ensure_shm :: "adapt_ctx \<Rightarrow> u64 \<Rightarrow> world \<Rightarrow> (int \<times> adapt_ctx \<times> world) option" where
  "producer_ensure_shm ctx now w =
    (if cx_negot_done ctx then Some (0, ctx, w) else
     let (ctx, w) = name_ring ctx w in
     case request_ring ctx now w of
       None \<Rightarrow> None
     | Some (rc, ctx, w) \<Rightarrow>
       if rc \<noteq> 0 then Some (rc, ctx, w)
       else await_ack ctx (now + ADAPT_NEGOT_DEADLINE_MS * 1000000) w)"

definition status_byte :: "int \<Rightarrow> u8" where
  "status_byte rc = word_of_int (- rc)"

text \<open>The consumer's attach; the status is 0 when there is a ring already.\<close>

definition consumer_attach :: "adapt_ctx \<Rightarrow> u32 \<Rightarrow> string \<Rightarrow> world \<Rightarrow> (u8 \<times> adapt_ctx \<times> world) option" where
  "consumer_attach ctx cap32 name w =
    (if cx_ring ctx \<noteq> None then Some (0, ctx, w) else
     case attach_ring name (ucast cap32) SHM_RING_ROLE_CONSUMER w of
       None \<Rightarrow> None
     | Some (rc, rb, w) \<Rightarrow>
       if rc \<noteq> 0 then Some (status_byte rc, ctx, w) else
       let (grc, ctx') = grow_rxbuf (ctx\<lparr>cx_ring := rb\<rparr>) (ucast cap32) w in
       if grc \<noteq> 0 then Some (word_of_int (- ENOMEM), ctx'\<lparr>cx_ring := None\<rparr>, w) else Some (0, ctx', w))"

definition handle_control :: "adapt_ctx \<Rightarrow> u8 list \<Rightarrow> world \<Rightarrow> (adapt_ctx \<times> world) option" where
  "handle_control ctx frame w =
    (if length frame < 2 then Some (ctx, w) else
     if frame ! 1 = ADAPT_CTRL_SHM_SETUP_REQ then
       (case parse_setup_req frame of
          None \<Rightarrow> Some (ctx, w)
        | Some (cap32, name) \<Rightarrow>
          (case consumer_attach ctx cap32 name w of
             None \<Rightarrow> None
           | Some (status, ctx, w) \<Rightarrow>
             (case send_frame ctx (setup_ack status) w of
                None \<Rightarrow> None
              | Some (_, w) \<Rightarrow>
                Some (if status = 0
                  then upd_stats (\<lambda>s. s\<lparr>st_shm_setup_acks := st_shm_setup_acks s + 1\<rparr>) ctx else ctx, w))))
     else Some (ctx, w))"


subsection \<open>Initialisation\<close>

text \<open>\<open>getenv\<close>, \<open>atof\<close> and the answers of the system are arguments.\<close>

record init_env =
  ie_getenv :: "string \<Rightarrow> string option"
  ie_atof :: "string \<Rightarrow> double"
  ie_calloc :: bool
  ie_open :: open_env

definition resolve_alpha :: "init_env \<Rightarrow> double" where
  "resolve_alpha e =
    (let a = (case ie_getenv e ''ADAPTIPC_ALPHA'' of None \<Rightarrow> 0 | Some s \<Rightarrow> ie_atof e s) in
     if 0 < a \<and> a \<le> 1 then a else ADAPT_EWMA_ALPHA)"

definition resolve_policy :: "init_env \<Rightarrow> adapt_policy_mode_t \<Rightarrow> adapt_policy_mode_t" where
  "resolve_policy e p =
    (if p = ADAPT_POLICY_DEFAULT then policy_of_env (ie_getenv e ''ADAPTIPC_POLICY'') else p)"

definition resolve_costs :: "init_env \<Rightarrow> adapt_config \<Rightarrow> adapt_cost_cfg" where
  "resolve_costs e cf =
    (let c = adapt_cost_cfg_from_env (ie_getenv e) (ie_atof e)
               (adapt_cost_cfg_defaults\<lparr>cfg_qos := cf_qos cf, latency_budget_us := cf_latency_budget_us cf\<rparr>) in
     if cfg_qos c = ADAPT_QOS_LATENCY \<and> ie_getenv e ''ADAPTIPC_LATENCY_WEIGHT'' = None
     then c\<lparr>latency_weight := Fin 2\<rparr> else c)"

text \<open>The context before any resource is acquired.\<close>

definition init_ctx :: "adapt_role_t \<Rightarrow> adapt_config \<Rightarrow> string \<Rightarrow> string \<Rightarrow> init_env \<Rightarrow> adapt_ctx" where
  "init_ctx role cf lsock psock e =
    (let cm = resolve_costs e cf;
         path = (if role = ADAPT_ROLE_PRODUCER then ie_getenv e ''ADAPTIPC_DECISION_LOG'' else None) in
     \<lparr>cx_role = role,
      cx_shm_name = (case cf_shm_name cf of None \<Rightarrow> ''/adaptipc_shm_0'' | Some n \<Rightarrow> n),
      cx_local_sock = lsock, cx_peer_sock = psock,
      cx_shm_capacity = (if cf_shm_capacity cf \<noteq> 0 then cf_shm_capacity cf else 65536),
      cx_nonblocking_send = cf_nonblocking_send cf, cx_ewma_size = 0, cx_last_route = ADAPT_ROUTE_NONE,
      cx_ring = None, cx_uds = None, cx_rxbuf_cap = 0,
      cx_stats_on = (ie_getenv e ''ADAPTIPC_STATS'' \<noteq> None), cx_st = stats_zero,
      cx_retry_pending = False, cx_pending_size = 0, cx_pending_route = ADAPT_ROUTE_NONE,
      cx_alpha = resolve_alpha e, cx_negot_done = False, cx_neg_name = [], cx_last_req_ns = 0,
      cx_eager_shm = (ie_getenv e ''ADAPTIPC_EAGER_SHM'' \<noteq> None),
      cx_policy = resolve_policy e (cf_policy cf), cx_cmcfg = cm,
      cx_rt = adapt_rtctx_init (if 8 < learn_min_samples cm then 8 else learn_min_samples cm),
      cx_learn = adapt_learn_init cm, cx_health = adapt_health_init 8,
      cx_declog = adapt_declog_init\<lparr>dl_enabled := (path \<noteq> None)\<rparr>, cx_declog_path = path,
      cx_decision_seq = 0\<rparr>)"

definition eager_ring :: "adapt_ctx \<Rightarrow> world \<Rightarrow> (int \<times> shm_ring option \<times> world) option" where
  "eager_ring ctx w =
    (if cx_role ctx = ADAPT_ROLE_PRODUCER then
       map_option (\<lambda>(rc, rb, obj). (rc, rb, w\<lparr>w_obj := obj\<rparr>))
         (shm_ring_create (Some (cx_shm_name ctx)) (cx_shm_capacity ctx) SHM_RING_ROLE_PRODUCER
            ((w_map w)\<lparr>me_object := w_obj w\<rparr>))
     else attach_ring (cx_shm_name ctx) (cx_shm_capacity ctx) SHM_RING_ROLE_CONSUMER w)"

definition open_socket :: "adapt_ctx \<Rightarrow> init_env \<Rightarrow> world \<Rightarrow> int \<times> adapt_ctx option \<times> world" where
  "open_socket ctx e w =
    (let (rc, ep) = uds_open (Some (cx_local_sock ctx)) (ie_open e) in
     if rc \<noteq> 0 then (rc, None, w) else
     let (rc, ctx) = grow_rxbuf (ctx\<lparr>cx_uds := ep\<rparr>) (of_nat UDS_MAX_DGRAM) w in
     if rc \<noteq> 0 then (rc, None, w) else (0, Some ctx, w))"

definition adapt_init ::
  "adapt_role_t \<Rightarrow> adapt_config option \<Rightarrow> init_env \<Rightarrow> world \<Rightarrow> (int \<times> adapt_ctx option \<times> world) option" where
  "adapt_init role cfg e w =
    (case cfg of
       Some cf \<Rightarrow>
         (case (cf_local_sock cf, cf_peer_sock cf) of
            (Some lsock, Some psock) \<Rightarrow>
              if \<not> ie_calloc e then Some (- ENOMEM, None, w) else
              let ctx = init_ctx role cf lsock psock e in
              if cx_eager_shm ctx then
                (case eager_ring ctx w of
                   None \<Rightarrow> None
                 | Some (rc, rb, w) \<Rightarrow>
                   if rc \<noteq> 0 then Some (rc, None, w) else
                   let (rc, ctx) = grow_rxbuf (ctx\<lparr>cx_ring := rb, cx_negot_done := True\<rparr>) (cx_shm_capacity ctx) w in
                   if rc \<noteq> 0 then Some (rc, None, w) else Some (open_socket ctx e w))
              else Some (open_socket ctx e w)
          | _ \<Rightarrow> Some (- EINVAL, None, w))
     | None \<Rightarrow> Some (- EINVAL, None, w))"

subsection \<open>Sending\<close>

text \<open>Stage 1, on every attempt: sample the runtime context and the health of the ring.\<close>

definition send_observe :: "adapt_ctx \<Rightarrow> csize \<Rightarrow> world \<Rightarrow> u64 \<times> adapt_ctx \<times> world" where
  "send_observe ctx sz w =
    (let (now, w) = stats_now_ns w;
         occ = shm_ring_used_bytes (cx_ring ctx) (w_obj w);
         ctx = ctx\<lparr>cx_rt := adapt_rtctx_sample (cx_rt ctx) sz occ now (cx_alpha ctx)\<rparr>;
         ctx = (if cx_ring ctx \<noteq> None then
                  let cap = occ + shm_ring_free_bytes (cx_ring ctx) (w_obj w);
                      h = snd (adapt_health_update_shm (cx_health ctx) occ cap (drain_valid (cx_rt ctx))
                                 (ewma_arrival_bps (cx_rt ctx)) (ewma_drain_bps (cx_rt ctx))) in
                  upd_stats (\<lambda>s. s\<lparr>st_health_transitions := ucast (hl_transitions h)\<rparr>) (ctx\<lparr>cx_health := h\<rparr>)
                else ctx) in
     (now, ctx, w))"

text \<open>Stage 2: the pending route of a retried message, or a new decision. The reading \<open>clk\<close> is the
  one the queue-wait estimate takes; it is taken here also where the estimate needs none.\<close>

definition resumes :: "adapt_ctx \<Rightarrow> csize \<Rightarrow> bool" where
  "resumes ctx sz \<longleftrightarrow> cx_retry_pending ctx \<and> cx_pending_size ctx = sz \<and> cx_pending_route ctx \<noteq> ADAPT_ROUTE_NONE"

text \<open>What a decision leaves in the context: the learned cost, the log row, the sticky route.\<close>

definition note_decision ::
  "adapt_ctx \<Rightarrow> adapt_route_t \<Rightarrow> adapt_decision \<Rightarrow> adapt_learn option \<Rightarrow> adapt_ctx" where
  "note_decision ctx r d l =
    (let ctx = (case l of None \<Rightarrow> ctx | Some l \<Rightarrow> ctx\<lparr>cx_learn := l\<rparr>);
         ctx = (if dl_enabled (cx_declog ctx) then
                  ctx\<lparr>cx_decision_seq := cx_decision_seq ctx + 1,
                      cx_declog := adapt_declog_record (cx_declog ctx) (Some (d\<lparr>dc_seq := cx_decision_seq ctx + 1\<rparr>))\<rparr>
                else ctx);
         ctx = upd_stats (\<lambda>s. s\<lparr>st_decisions := st_decisions s + 1\<rparr>) ctx;
         ctx = (if cx_last_route ctx \<noteq> ADAPT_ROUTE_NONE \<and> r \<noteq> cx_last_route ctx
                then upd_stats (\<lambda>s. s\<lparr>st_route_switches := st_route_switches s + 1\<rparr>) ctx else ctx) in
     ctx\<lparr>cx_last_route := r, cx_retry_pending := False, cx_pending_route := ADAPT_ROUTE_NONE\<rparr>)"

definition send_classify :: "adapt_ctx \<Rightarrow> csize \<Rightarrow> u64 \<Rightarrow> world \<Rightarrow> adapt_route_t \<times> adapt_ctx \<times> world" where
  "send_classify ctx sz now w =
    (if resumes ctx sz then (cx_pending_route ctx, ctx, w) else
     let (t0, w) = tick_if (cx_stats_on ctx) w;
         ctx = ctx\<lparr>cx_ewma_size := ewma_update (cx_ewma_size ctx) (cx_alpha ctx) sz\<rparr>;
         (t1, w) = tick_if (cx_stats_on ctx) w;
         ctx = upd_stats (\<lambda>s. s\<lparr>st_router_ns := st_router_ns s + (t1 - t0)\<rparr>) ctx;
         (clk, w) = stats_now_ns w;
         (r, d, l) = adapt_policy_decide (cx_policy ctx) (cx_cmcfg ctx) (Some (cx_rt ctx))
            (if ADAPT_POLICY_COST_AWARE \<le> cx_policy ctx then Some (cx_learn ctx) else None)
            (if cx_policy ctx = ADAPT_POLICY_FULL_ADAPTIVE then Some (cx_health ctx) else None)
            (cx_ring ctx \<noteq> None) (cx_ewma_size ctx) (cx_last_route ctx) sz now clk in
     (r, note_decision ctx r d l, w))"

definition escalated :: "adapt_ctx \<Rightarrow> adapt_ctx" where
  "escalated = upd_stats (\<lambda>s. s\<lparr>st_send_escalations := st_send_escalations s + 1\<rparr>)"

text \<open>Stage 3: a message that fits no datagram goes to the ring; \<open>None\<close> is the \<open>-EMSGSIZE\<close> return.\<close>

definition send_guard :: "adapt_ctx \<Rightarrow> csize \<Rightarrow> adapt_route_t \<Rightarrow> (adapt_route_t option \<times> adapt_ctx)" where
  "send_guard ctx sz route =
    (let (route, ctx) = (if route \<noteq> ADAPT_ROUTE_SHM \<and> of_nat UDS_MAX_DGRAM < sz + 1
                         then (ADAPT_ROUTE_SHM, escalated ctx) else (route, ctx)) in
     if route = ADAPT_ROUTE_SHM \<and> cx_shm_capacity ctx < sz + 1 then (None, ctx)
     else (Some route, ctx\<lparr>cx_pending_size := sz, cx_pending_route := route\<rparr>))"

text \<open>Stage 4: negotiate the ring if the route needs it; the code of an early return, or the route.\<close>

definition send_negotiate ::
  "adapt_ctx \<Rightarrow> csize \<Rightarrow> adapt_route_t \<Rightarrow> world \<Rightarrow> ((int + adapt_route_t) \<times> adapt_ctx \<times> world) option" where
  "send_negotiate ctx sz route w =
    (if route = ADAPT_ROUTE_SHM \<and> cx_ring ctx = None then
       let (t, w) = stats_now_ns w in
       (case producer_ensure_shm ctx t w of
          None \<Rightarrow> None
        | Some (hrc, ctx, w) \<Rightarrow>
          if hrc = 0 then Some (Inr route, ctx, w)
          else if sz + 1 \<le> of_nat UDS_MAX_DGRAM then
            Some (Inr ADAPT_ROUTE_UDS, (escalated ctx)\<lparr>cx_pending_route := ADAPT_ROUTE_UDS\<rparr>, w)
          else Some (Inl (if hrc = - ETIMEDOUT then - EAGAIN else hrc), ctx\<lparr>cx_retry_pending := True\<rparr>, w))
     else Some (Inr route, ctx, w))"

text \<open>The calibration of a measured send.\<close>

definition calibrate :: "adapt_ctx \<Rightarrow> adapt_route_t \<Rightarrow> csize \<Rightarrow> u64 \<Rightarrow> world \<Rightarrow> adapt_ctx \<times> world" where
  "calibrate ctx route sz t_meas w =
    (let (t, w) = stats_now_ns w;
         us = d_of_u64 (t - t_meas) / Fin 1000;
         ctx = ctx\<lparr>cx_learn := adapt_learn_observe (cx_learn ctx) (cx_cmcfg ctx) route sz us\<rparr>;
         rt = cx_rt ctx in
     (ctx\<lparr>cx_rt := rt\<lparr>ewma_latency_us := ewma_step (cx_alpha ctx) us (ewma_latency_us rt)\<rparr>\<rparr>, w))"

definition count_copy :: "csize \<Rightarrow> u64 \<Rightarrow> adapt_ctx \<Rightarrow> world \<Rightarrow> adapt_ctx \<times> world" where
  "count_copy sz t0 ctx w =
    (let (t, w) = tick_if (cx_stats_on ctx) w in
     (upd_stats (\<lambda>s. s\<lparr>st_send_copy_ns := st_send_copy_ns s + (t - t0),
                       st_send_copy_bytes := st_send_copy_bytes s + (sz + 1)\<rparr>) ctx, w))"

definition shm_segs :: "u8 list \<Rightarrow> shm_segment list" where
  "shm_segs bs = [\<lparr>seg_base = Some [TAG_SHM], seg_len = 1\<rparr>,
     \<lparr>seg_base = Some bs, seg_len = of_nat (length bs)\<rparr>]"

definition ring_push :: "adapt_ctx \<Rightarrow> bool \<Rightarrow> u8 list \<Rightarrow> world \<Rightarrow> (int \<times> world) option" where
  "ring_push ctx timed bs w =
    (let once = shm_ring_push_scatter (cx_ring ctx) (Some (shm_segs bs));
         blocking = shm_ring_push_scatter_blocking (cx_ring ctx) (Some (shm_segs bs)) (w_rounds w) in
     map_option (\<lambda>(rc, obj). (rc, w\<lparr>w_obj := obj\<rparr>))
       (if cx_nonblocking_send ctx then once (w_obj w)
        else if timed then
          (case once (w_obj w) of None \<Rightarrow> None
           | Some (rc, obj) \<Rightarrow> if rc = - EAGAIN then blocking obj else Some (rc, obj))
        else blocking (w_obj w)))"

definition send_shm :: "adapt_ctx \<Rightarrow> u8 list \<Rightarrow> world \<Rightarrow> (int \<times> adapt_ctx \<times> world) option" where
  "send_shm ctx bs w =
    (let sz = of_nat (length bs);
         ctx = upd_stats (\<lambda>s. s\<lparr>st_sends_shm := st_sends_shm s + 1\<rparr>) ctx;
         timed = (ADAPT_POLICY_COST_AWARE \<le> cx_policy ctx);
         (t0, w) = tick_if (cx_stats_on ctx) w;
         (t_meas, w) = tick_if timed w in
     case ring_push ctx timed bs w of
       None \<Rightarrow> None
     | Some (rc, w) \<Rightarrow>
       let (ctx, w) = (if t_meas \<noteq> 0 then calibrate ctx ADAPT_ROUTE_SHM sz t_meas w else (ctx, w));
           (ctx, w) = count_copy sz t0 ctx w;
           ctx = upd_stats (\<lambda>s. s\<lparr>st_backpressure_parks := shm_ring_park_count (cx_ring ctx) (w_obj w)\<rparr>) ctx in
       Some (rc, ctx\<lparr>cx_retry_pending := (rc = - EAGAIN)\<rparr>, w))"

definition send_uds :: "adapt_ctx \<Rightarrow> u8 list \<Rightarrow> world \<Rightarrow> (int \<times> adapt_ctx \<times> world) option" where
  "send_uds ctx bs w =
    (let sz = of_nat (length bs);
         ctx = upd_stats (\<lambda>s. s\<lparr>st_sends_uds := st_sends_uds s + 1\<rparr>) ctx;
         timed = (ADAPT_POLICY_COST_AWARE \<le> cx_policy ctx);
         (t0, w) = tick_if (cx_stats_on ctx) w;
         (t_meas, w) = tick_if timed w;
         (ctx, w) = count_copy sz t0 ctx w in
     case send_frame ctx (TAG_UDS # bs) w of
       None \<Rightarrow> None
     | Some (rc, w) \<Rightarrow>
       let (ctx, w) = (if t_meas \<noteq> 0 \<and> rc = 0 then calibrate ctx ADAPT_ROUTE_UDS sz t_meas w else (ctx, w)) in
       Some (rc, if rc = - ECONNREFUSED then ctx else ctx\<lparr>cx_retry_pending := False\<rparr>, w))"

definition adapt_send ::
  "adapt_ctx \<Rightarrow> u8 list option \<Rightarrow> world \<Rightarrow> (int \<times> adapt_ctx \<times> world) option" where
  "adapt_send ctx data w =
    (case data of
       None \<Rightarrow> Some (- EINVAL, ctx, w)
     | Some bs \<Rightarrow>
       let sz = of_nat (length bs) in
       if sz = 0 then Some (- EINVAL, ctx, w) else
       if cx_role ctx \<noteq> ADAPT_ROLE_PRODUCER then Some (- EPERM, ctx, w) else
       let (now, ctx, w) = send_observe ctx sz w;
           (route, ctx, w) = send_classify ctx sz now w;
           ctx = upd_stats (\<lambda>s. s\<lparr>st_sends := st_sends s + 1\<rparr>) ctx in
       case send_guard ctx sz route of
         (None, ctx) \<Rightarrow> Some (- EMSGSIZE, ctx, w)
       | (Some route, ctx) \<Rightarrow>
         (case send_negotiate ctx sz route w of
            None \<Rightarrow> None
          | Some (Inl rc, ctx, w) \<Rightarrow> Some (rc, ctx, w)
          | Some (Inr route, ctx, w) \<Rightarrow>
              if route = ADAPT_ROUTE_SHM then send_shm ctx bs w else send_uds ctx bs w))"


subsection \<open>Receiving\<close>

text \<open>What the peer pushes before a poll of the ring.\<close>

fun peer_pushes :: "shm_ring option \<Rightarrow> u8 list list \<Rightarrow> shm_obj \<Rightarrow> shm_obj" where
  "peer_pushes rb [] s = s"
| "peer_pushes rb (bs # bss) s = peer_pushes rb bss (snd (shm_ring_push rb (Some bs) s))"

definition peer_turn :: "adapt_ctx \<Rightarrow> world \<Rightarrow> world" where
  "peer_turn ctx w = (case w_peer w of [] \<Rightarrow> w
     | bss # rest \<Rightarrow> w\<lparr>w_obj := peer_pushes (cx_ring ctx) bss (w_obj w), w_peer := rest\<rparr>)"

text \<open>A received frame: the payload behind the tag, if it fits the caller's buffer.\<close>

definition deliver :: "csize \<Rightarrow> u8 list \<Rightarrow> int \<times> u8 list" where
  "deliver max_size frame =
    (if max_size < of_nat (length frame) - 1 then (- EMSGSIZE, [])
     else (int (length frame) - 1, drop 1 frame))"

text \<open>The multiplexing loop: the ring first, then a bounded wait on the socket. The counter is the
  poll timeouts waited for this message.\<close>

partial_function (option) recv_loop ::
  "adapt_ctx \<Rightarrow> csize \<Rightarrow> nat \<Rightarrow> world \<Rightarrow> ((int \<times> u8 list) \<times> adapt_ctx \<times> world) option" where
  "recv_loop ctx max_size tmo w =
    (let ctx = upd_stats (\<lambda>s. s\<lparr>st_recv_loop_iters := st_recv_loop_iters s + 1\<rparr>) ctx;
         w = peer_turn ctx w in
     case (case cx_ring ctx of None \<Rightarrow> Some (pop_fails (- EAGAIN), w_obj w)
           | Some rb \<Rightarrow> shm_ring_pop rb (cx_rxbuf_cap ctx) (w_obj w)) of
       None \<Rightarrow> None
     | Some (r, obj) \<Rightarrow>
       let w = w\<lparr>w_obj := obj\<rparr> in
       if 0 < pr_rc r then
         let (rc, bs) = deliver max_size (pr_buf r);
             ctx = (if rc = - EMSGSIZE then ctx else upd_stats (\<lambda>s. if 0 < tmo
               then s\<lparr>st_recv_msgs := st_recv_msgs s + 1, st_rx_shm_later := st_rx_shm_later s + 1\<rparr>
               else s\<lparr>st_recv_msgs := st_recv_msgs s + 1, st_rx_shm_first := st_rx_shm_first s + 1\<rparr>) ctx) in
         Some ((rc, bs), ctx, w)
       else if pr_rc r \<noteq> - EAGAIN then Some ((pr_rc r, []), ctx, w)
       else
         let (tp, w) = tick_if (cx_stats_on ctx) w in
         case recv_frame ctx (cx_rxbuf_cap ctx) ADAPT_UDS_POLL_MS w of
           None \<Rightarrow> None
         | Some (n, frame, w) \<Rightarrow>
           let (tq, w) = tick_if (cx_stats_on ctx) w;
               ctx = upd_stats (\<lambda>s. s\<lparr>st_poll_calls := st_poll_calls s + 1,
                       st_poll_wait_ns := st_poll_wait_ns s + (tq - tp)\<rparr>) ctx in
           if 1 < n then
             if frame ! 0 = ADAPT_WIRE_TAG_CTRL then
               (case handle_control ctx frame w of None \<Rightarrow> None
                | Some (ctx, w) \<Rightarrow> recv_loop ctx max_size 0 w)
             else
               let (rc, bs) = deliver max_size frame;
                   ctx = (if rc = - EMSGSIZE then ctx else upd_stats (\<lambda>s. if 0 < tmo
                     then s\<lparr>st_recv_msgs := st_recv_msgs s + 1, st_rx_uds_later := st_rx_uds_later s + 1\<rparr>
                     else s\<lparr>st_recv_msgs := st_recv_msgs s + 1, st_rx_uds_prompt := st_rx_uds_prompt s + 1\<rparr>) ctx) in
               Some ((rc, bs), ctx, w)
           else if n \<le> 0 \<and> n \<noteq> - EAGAIN then Some ((n, []), ctx, w)
           else recv_loop (upd_stats (\<lambda>s. s\<lparr>st_poll_timeouts := st_poll_timeouts s + 1\<rparr>) ctx) max_size
                  (if cx_stats_on ctx then tmo + 1 else tmo) w)"

text \<open>\<open>adapt_recv\<close>; the first argument says whether the caller's buffer is not null.\<close>

definition adapt_recv ::
  "bool \<Rightarrow> adapt_ctx \<Rightarrow> csize \<Rightarrow> world \<Rightarrow> ((int \<times> u8 list) \<times> adapt_ctx \<times> world) option" where
  "adapt_recv buf ctx max_size w =
    (if \<not> buf \<or> max_size = 0 then Some ((- EINVAL, []), ctx, w) else
     if cx_role ctx \<noteq> ADAPT_ROLE_CONSUMER then Some ((- EPERM, []), ctx, w) else
     if max_size < 2 then Some ((- EMSGSIZE, []), ctx, w) else
     recv_loop ctx max_size 0 w)"

text \<open>The socket only. The datagram is read into the caller's buffer, so the kernel cuts it at
  \<open>max_size\<close> before the size test.\<close>

partial_function (option) recv_uds_loop ::
  "adapt_ctx \<Rightarrow> csize \<Rightarrow> int \<Rightarrow> world \<Rightarrow> ((int \<times> u8 list) \<times> adapt_ctx \<times> world) option" where
  "recv_uds_loop ctx max_size timeout_ms w =
    (case recv_frame ctx max_size timeout_ms w of
       None \<Rightarrow> None
     | Some (n, frame, w) \<Rightarrow>
       if n \<le> 0 then Some ((n, []), ctx, w)
       else if frame ! 0 = ADAPT_WIRE_TAG_CTRL then
         (case handle_control ctx frame w of None \<Rightarrow> None
          | Some (ctx, w) \<Rightarrow> recv_uds_loop ctx max_size timeout_ms w)
       else Some (deliver max_size frame, ctx, w))"

definition adapt_recv_uds_timeout ::
  "bool \<Rightarrow> adapt_ctx \<Rightarrow> csize \<Rightarrow> int \<Rightarrow> world \<Rightarrow> ((int \<times> u8 list) \<times> adapt_ctx \<times> world) option" where
  "adapt_recv_uds_timeout buf ctx max_size timeout_ms w =
    (if \<not> buf \<or> max_size = 0 then Some ((- EINVAL, []), ctx, w)
     else recv_uds_loop ctx max_size timeout_ms w)"

subsection \<open>Introspection and shutdown\<close>

definition adapt_get_stats :: "adapt_ctx option \<Rightarrow> adapt_stats" where
  "adapt_get_stats ctx = (case ctx of None \<Rightarrow> stats_zero | Some c \<Rightarrow> cx_st c)"

definition adapt_last_route :: "adapt_ctx option \<Rightarrow> adapt_route_t" where
  "adapt_last_route ctx = (case ctx of None \<Rightarrow> ADAPT_ROUTE_NONE | Some c \<Rightarrow> cx_last_route c)"

definition adapt_ewma :: "adapt_ctx option \<Rightarrow> double" where
  "adapt_ewma ctx = (case ctx of None \<Rightarrow> Fin (- 1) | Some c \<Rightarrow> cx_ewma_size c)"

definition adapt_shm_used_bytes :: "adapt_ctx option \<Rightarrow> shm_obj \<Rightarrow> csize" where
  "adapt_shm_used_bytes ctx obj = (case ctx of None \<Rightarrow> 0 | Some c \<Rightarrow> shm_ring_used_bytes (cx_ring c) obj)"

definition adapt_shm_capacity :: "adapt_ctx option \<Rightarrow> shm_obj \<Rightarrow> csize" where
  "adapt_shm_capacity ctx obj = (case ctx of None \<Rightarrow> 0
     | Some c \<Rightarrow> if cx_ring c = None then 0
         else shm_ring_used_bytes (cx_ring c) obj + shm_ring_free_bytes (cx_ring c) obj)"

definition adapt_debug_predicted_wait_us :: "adapt_ctx option \<Rightarrow> csize \<Rightarrow> shm_obj \<Rightarrow> u64 \<Rightarrow> double" where
  "adapt_debug_predicted_wait_us ctx incoming obj clk = (case ctx of None \<Rightarrow> 0
     | Some c \<Rightarrow> if cx_ring c = None then 0
         else adapt_rtctx_queue_wait_us (Some (cx_rt c)) incoming (shm_ring_used_bytes (cx_ring c) obj) clk)"

definition adapt_policy :: "adapt_ctx option \<Rightarrow> adapt_policy_mode_t" where
  "adapt_policy ctx = (case ctx of None \<Rightarrow> ADAPT_POLICY_DEFAULT | Some c \<Rightarrow> cx_policy c)"

definition adapt_crossover :: "adapt_ctx option \<Rightarrow> double" where
  "adapt_crossover ctx = (case ctx of None \<Rightarrow> Fin (- 1) | Some c \<Rightarrow> crossover_b (cx_learn c))"

definition adapt_shm_health :: "adapt_ctx option \<Rightarrow> adapt_health_state_t" where
  "adapt_shm_health ctx = (case ctx of None \<Rightarrow> ADAPT_HEALTH_UNAVAILABLE | Some c \<Rightarrow> hl_state (cx_health c))"

text \<open>What \<open>adapt_shutdown\<close> releases: the rows of the decision log it writes, the mapping of the
  ring, whose object the producer unlinks, the descriptor and the path of the socket.\<close>

definition adapt_shutdown ::
  "adapt_ctx \<Rightarrow> adapt_decision list option \<times> (csize \<times> int \<times> string option) option \<times> int option \<times> string option" where
  "adapt_shutdown ctx =
    (if dl_enabled (cx_declog ctx) \<and> cx_declog_path ctx \<noteq> None then adapt_declog_dump (cx_declog ctx) else None,
     shm_ring_close (cx_ring ctx) (cx_role ctx = ADAPT_ROLE_PRODUCER),
     uds_close (cx_uds ctx))"

definition adapt_strerror :: "(int \<Rightarrow> string) \<Rightarrow> int \<Rightarrow> string" where
  "adapt_strerror strerror rc =
    (if rc = 0 then ''ok''
     else if rc = - EAGAIN then ''resource temporarily unavailable''
     else if rc = - EPERM then ''wrong role for this operation''
     else if rc = - EMSGSIZE then ''message exceeds transport limit''
     else strerror (- rc))"

end
