(* ===== verification/Endpoint.thy ===== *)
theory Endpoint
  imports AdaptIpc
begin

text \<open>
  The stages of \<open>adapt_send\<close> and what they leave alone: the invariant that says which messages an
  endpoint has in its ring and on the wire, kept through classification, negotiation and both
  transports, and the state of the classifier across a refused attempt and its retry.
\<close>

subsection \<open>What the bookkeeping does not touch\<close>

lemma upd_stats_simps [simp]:
  "cx_ring (upd_stats f c) = cx_ring c" "cx_uds (upd_stats f c) = cx_uds c"
  "cx_peer_sock (upd_stats f c) = cx_peer_sock c" "cx_shm_capacity (upd_stats f c) = cx_shm_capacity c"
  "cx_nonblocking_send (upd_stats f c) = cx_nonblocking_send c" "cx_policy (upd_stats f c) = cx_policy c"
  "cx_ewma_size (upd_stats f c) = cx_ewma_size c" "cx_last_route (upd_stats f c) = cx_last_route c"
  "cx_retry_pending (upd_stats f c) = cx_retry_pending c" "cx_pending_size (upd_stats f c) = cx_pending_size c"
  "cx_pending_route (upd_stats f c) = cx_pending_route c" "cx_rxbuf_cap (upd_stats f c) = cx_rxbuf_cap c"
  "cx_role (upd_stats f c) = cx_role c" "cx_stats_on (upd_stats f c) = cx_stats_on c"
  "cx_negot_done (upd_stats f c) = cx_negot_done c" "cx_neg_name (upd_stats f c) = cx_neg_name c"
  "cx_last_req_ns (upd_stats f c) = cx_last_req_ns c"
  by (simp_all add: upd_stats_def)

text \<open>A reading of the clock changes the count of readings only.\<close>

lemma tick_if_world: "tick_if on w = (t, w') \<Longrightarrow> \<exists>n. w' = w\<lparr>w_tick := n\<rparr>"
  by (auto simp: tick_if_def stats_now_ns_def intro: exI [of _ "w_tick w"] split: if_splits)

lemma stats_now_world: "stats_now_ns w = (t, w') \<Longrightarrow> \<exists>n. w' = w\<lparr>w_tick := n\<rparr>"
  by (auto simp: stats_now_ns_def)

text \<open>Two states of a call with the same transports: same handles and limits, same object, socket
  and wire.\<close>

definition same_io :: "adapt_ctx \<Rightarrow> world \<Rightarrow> adapt_ctx \<Rightarrow> world \<Rightarrow> bool" where
  "same_io c w c' w' \<longleftrightarrow> cx_ring c' = cx_ring c \<and> cx_uds c' = cx_uds c \<and> cx_peer_sock c' = cx_peer_sock c \<and>
     cx_shm_capacity c' = cx_shm_capacity c \<and> cx_nonblocking_send c' = cx_nonblocking_send c \<and>
     w_obj w' = w_obj w \<and> w_uds w' = w_uds w \<and> w_wire w' = w_wire w"

lemma same_io_refl [simp]: "same_io c w c w"
  by (simp add: same_io_def)

lemma same_io_trans: "same_io a u b v \<Longrightarrow> same_io b v c w \<Longrightarrow> same_io a u c w"
  by (simp add: same_io_def)

lemma same_io_tick [simp]: "same_io c w c' (v\<lparr>w_tick := n\<rparr>) = same_io c w c' v"
  "same_io c (w\<lparr>w_tick := n\<rparr>) c' v = same_io c w c' v"
  by (simp_all add: same_io_def)

lemma same_io_stats [simp]: "same_io c w (upd_stats f d) v = same_io c w d v"
  by (simp add: same_io_def)

lemma observe_io: "send_observe c sz w = (now, c', w') \<Longrightarrow> same_io c w c' w'"
  by (auto simp: send_observe_def Let_def stats_now_ns_def same_io_def split: if_splits)

lemma note_decision_simps [simp]:
  "cx_ring (note_decision c r d l) = cx_ring c" "cx_uds (note_decision c r d l) = cx_uds c"
  "cx_peer_sock (note_decision c r d l) = cx_peer_sock c"
  "cx_shm_capacity (note_decision c r d l) = cx_shm_capacity c"
  "cx_nonblocking_send (note_decision c r d l) = cx_nonblocking_send c"
  "cx_last_route (note_decision c r d l) = r" "cx_ewma_size (note_decision c r d l) = cx_ewma_size c"
  "cx_retry_pending (note_decision c r d l) = False"
  by (simp_all add: note_decision_def Let_def split: option.split)

lemma classify_io:
  assumes "send_classify c sz now w = (r, c', w')" shows "same_io c w c' w'"
proof (cases "resumes c sz")
  case True
  then show ?thesis using assms by (simp add: send_classify_def)
next
  case False
  obtain t0 w0 where t0: "tick_if (cx_stats_on c) w = (t0, w0)" by fastforce
  obtain t1 w1 where t1: "tick_if (cx_stats_on c) w0 = (t1, w1)" by fastforce
  obtain n0 n1 where n: "w0 = w\<lparr>w_tick := n0\<rparr>" "w1 = w0\<lparr>w_tick := n1\<rparr>"
    using tick_if_world t0 t1 by blast
  show ?thesis
    using assms False t0 t1 n
    by (auto simp: send_classify_def Let_def stats_now_ns_def same_io_def split: prod.split_asm)
qed

lemma guard_io:
  assumes "send_guard c sz r = (r', c')" shows "same_io c w c' w"
    and "r' = Some ADAPT_ROUTE_UDS \<or> r' = Some ADAPT_ROUTE_NONE \<Longrightarrow> sz + 1 \<le> of_nat UDS_MAX_DGRAM"
    and "r' = Some x \<Longrightarrow> cx_pending_size c' = sz \<and> cx_pending_route c' = x"
  using assms by (auto simp: send_guard_def Let_def escalated_def same_io_def split: if_splits)

subsection \<open>The queue of an endpoint\<close>

definition queue_at :: "adapt_ctx \<Rightarrow> world \<Rightarrow> u8 list list \<Rightarrow> bool" where
  "queue_at c w ms \<longleftrightarrow> (case cx_ring c of None \<Rightarrow> ms = [] | Some rb \<Rightarrow> ring_holds rb (w_obj w) ms)"

text \<open>The data frames on the wire: those not empty and not marked as control frames.\<close>

definition data_frames :: "u8 list list \<Rightarrow> u8 list list" where
  "data_frames fs = filter (\<lambda>f. f \<noteq> [] \<and> hd f \<noteq> ADAPT_WIRE_TAG_CTRL) fs"

lemma data_frames_append [simp]: "data_frames (xs @ ys) = data_frames xs @ data_frames ys"
  "data_frames [] = []"
  by (simp_all add: data_frames_def)

lemma setup_req_control: "data_frames [setup_req cap name] = []" "data_frames [take n (setup_req cap name)] = []"
  by (auto simp: data_frames_def setup_req_def take_Cons' split: nat.split)

lemma same_io_queue: "same_io c w c' w' \<Longrightarrow> queue_at c' w' ms = queue_at c w ms"
  by (auto simp: same_io_def queue_at_def split: option.split)

lemma queue_at_cap:
  assumes "map_option rb_capacity (cx_ring q) = map_option rb_capacity (cx_ring p)" "w_obj u = w_obj v"
  shows "queue_at q u ms = queue_at p v ms"
proof (cases "cx_ring p")
  case (Some rb)
  then obtain rb' where "cx_ring q = Some rb'" "rb_capacity rb' = rb_capacity rb" using assms(1) by auto
  then show ?thesis using Some assms(2) ring_holds_cap [of rb' rb] by (simp add: queue_at_def)
qed (use assms(1) in \<open>simp add: queue_at_def\<close>)

text \<open>The capacities that the ring theorems cover.\<close>

definition capacity_ok :: "csize \<Rightarrow> bool" where
  "capacity_ok cap \<longleftrightarrow> cap \<le> 2 ^ 31"

lemma round_pow2_geom:
  assumes "capacity_ok cap" "round_pow2 (if cap \<noteq> 0 then cap else 65536) = Some c"
  shows "\<exists>k. ring_geom \<lparr>rb_capacity = c, rb_name = nm, rb_fd = fd\<rparr> k"
proof -
  let ?v = "if cap \<noteq> 0 then cap else 65536 :: csize"
  have v: "?v \<le> 2 ^ 31" using assms(1) by (auto simp: capacity_ok_def)
  show ?thesis
  proof (cases rule: round_pow2_cases [of ?v])
    case (fits k)
    have "k \<le> 31"
    proof (rule ccontr)
      assume "\<not> k \<le> 31"
      then have b: "k - 1 \<le> 62" "31 \<le> k - 1" and lt: "2 ^ (k - 1) < ?v" using fits by auto
      have le: "(2::nat) ^ 31 \<le> 2 ^ (k - 1)" "(2::nat) ^ (k - 1) \<le> 2 ^ 62"
        using power_increasing [OF b(2), of "2::nat"] power_increasing [OF b(1), of "2::nat"] by simp_all
      have "unat (of_nat (2 ^ (k - 1)) :: u64) = 2 ^ (k - 1)"
        by (rule unat_of_nat_u64, rule le_less_trans [OF le(2)]) simp
      then have "unat (2 ^ (k - 1) :: u64) = 2 ^ (k - 1)" by simp
      moreover have "unat ?v \<le> 2 ^ 31" using v by (simp add: word_le_nat_alt)
      ultimately show False using lt le(1) by (simp add: word_less_nat_alt)
    qed
    then show ?thesis using fits assms(2) by (intro exI [of _ k]) (simp add: ring_geom_def)
  next
    case spins
    then show ?thesis using assms(2) by simp
  qed
qed

lemma attach_producer:
  assumes "attach_ring name cap SHM_RING_ROLE_PRODUCER w = Some (rc, rb, w')" "capacity_ok cap"
  shows "w_wire w' = w_wire w \<and> w_uds w' = w_uds w \<and> obj_taken (w_obj w') = obj_taken (w_obj w)"
    "rc = 0 \<Longrightarrow> \<exists>r. rb = Some r \<and> ring_holds r (w_obj w') []"
proof -
  show "w_wire w' = w_wire w \<and> w_uds w' = w_uds w \<and> obj_taken (w_obj w') = obj_taken (w_obj w)"
    using assms(1) by (auto simp: attach_ring_def shm_ring_attach_def ring_map_def init_header_def Let_def
        split: option.splits if_split_asm)
  assume "rc = 0"
  then obtain c where c: "round_pow2 (if cap \<noteq> 0 then cap else 65536) = Some c"
    and r: "rb = Some \<lparr>rb_capacity = c, rb_name = take 63 name, rb_fd = me_shm_open (w_map w)\<rparr>"
    and o: "w_obj w' = init_header c (w_obj w) \<or>
      w_obj w' = init_header c ((w_obj w)\<lparr>obj_size := sizeof_shm_ring_header + SHM_HDR_PAD + c\<rparr>)"
    using assms(1)
    by (auto simp: attach_ring_def shm_ring_attach_def ring_map_def Let_def errno_defs
        split: option.splits if_split_asm)
  from round_pow2_geom [OF assms(2) c] obtain k where
    "ring_geom \<lparr>rb_capacity = c, rb_name = take 63 name, rb_fd = me_shm_open (w_map w)\<rparr> k" by blast
  then show "\<exists>r. rb = Some r \<and> ring_holds r (w_obj w') []" using r o by (auto intro: init_holds)
qed

text \<open>An endpoint between two stages of a call: the queue of its ring, the data frames it has sent, what
  the consumer has taken from the ring meanwhile, and a capacity and a socket script that the theorems cover.\<close>

definition endpoint_at :: "adapt_ctx \<Rightarrow> world \<Rightarrow> u8 list list \<Rightarrow> u8 list list \<Rightarrow> u8 list list \<Rightarrow> bool" where
  "endpoint_at c w ms fs gs \<longleftrightarrow> capacity_ok (cx_shm_capacity c) \<and> list_all sys_ret_ok (us_send (w_uds w)) \<and>
     queue_at c w ms \<and> data_frames (w_wire w) = fs \<and> obj_taken (w_obj w) = gs"

lemma endpoint_same_io: "endpoint_at c w ms fs gs \<Longrightarrow> same_io c w c' w' \<Longrightarrow> endpoint_at c' w' ms fs gs"
  using same_io_queue [of c w c' w' ms] by (simp add: endpoint_at_def same_io_def)

lemma endpoint_simps [simp]:
  "endpoint_at (upd_stats f c) w ms fs gs = endpoint_at c w ms fs gs"
  "endpoint_at c (w\<lparr>w_tick := n\<rparr>) ms fs gs = endpoint_at c w ms fs gs"
  "endpoint_at (c\<lparr>cx_retry_pending := b\<rparr>) w ms fs gs = endpoint_at c w ms fs gs"
  "endpoint_at (c\<lparr>cx_pending_route := r\<rparr>) w ms fs gs = endpoint_at c w ms fs gs"
  "endpoint_at (c\<lparr>cx_negot_done := b\<rparr>) w ms fs gs = endpoint_at c w ms fs gs"
  "endpoint_at (c\<lparr>cx_learn := l\<rparr>) w ms fs gs = endpoint_at c w ms fs gs"
  "endpoint_at (c\<lparr>cx_rt := rt\<rparr>) w ms fs gs = endpoint_at c w ms fs gs"
  "endpoint_at (c\<lparr>cx_last_req_ns := t\<rparr>) w ms fs gs = endpoint_at c w ms fs gs"
  "endpoint_at (c\<lparr>cx_neg_name := nm\<rparr>) w ms fs gs = endpoint_at c w ms fs gs"
  "endpoint_at c (w\<lparr>w_names := k\<rparr>) ms fs gs = endpoint_at c w ms fs gs"
  by (simp_all add: endpoint_at_def queue_at_def cong: option.case_cong)

lemma endpoint_tick_if: "tick_if b w = (t, w') \<Longrightarrow> endpoint_at c w' ms fs gs = endpoint_at c w ms fs gs"
  using tick_if_world by fastforce

subsection \<open>The negotiation\<close>

lemma recv_frame_send:
  assumes "recv_frame c cap tmo w = Some (n, bs, w')"
  shows "w_wire w' = w_wire w \<and> w_obj w' = w_obj w \<and> us_send (w_uds w') = us_send (w_uds w)"
  using assms by (auto simp: recv_frame_def uds_recv_timeout_def recv_datagram_def Let_def
      split: option.splits if_splits poll_ret.splits recv_ret.splits)

lemma endpoint_recv_frame:
  "recv_frame c cap tmo w = Some (n, bs, w') \<Longrightarrow> endpoint_at d w' ms fs gs = endpoint_at d w ms fs gs"
  using recv_frame_send [of c cap tmo w] by (simp add: endpoint_at_def queue_at_def cong: option.case_cong)

lemma send_frame_data:
  assumes "send_frame c f w = Some (rc, w')" "endpoint_at d w ms fs gs"
  shows "if rc = 0 then endpoint_at d w' ms (fs @ data_frames [f]) gs
    else endpoint_at d w' ms fs gs \<or> (\<exists>n. rc = - EIO \<and> endpoint_at d w' ms (fs @ data_frames [take n f]) gs)"
proof -
  obtain sent sc where u: "uds_send (cx_uds c) (Some (cx_peer_sock c)) (Some f) (w_uds w) = Some (rc, sent, sc)"
    and w': "w' = w\<lparr>w_uds := sc, w_wire := w_wire w @ sent\<rparr>"
    using assms(1) by (auto simp: send_frame_def split: option.splits)
  have "list_all sys_ret_ok (us_send (w_uds w))" using assms(2) by (simp add: endpoint_at_def)
  from uds_send_cases [OF u this] show ?thesis
    using assms(2) unfolding w' by (auto simp: endpoint_at_def queue_at_def split: option.splits if_splits)
qed

lemma request_frame_data:
  assumes "send_frame c (setup_req cap nm) w = Some (rc, w')" "endpoint_at d w ms fs gs"
  shows "endpoint_at d w' ms fs gs"
  using send_frame_data [OF assms] by (auto simp: setup_req_control split: if_splits)

lemma map_ring_endpoint:
  assumes "producer_map_ring c w = Some (rc, c', w')" "endpoint_at c w [] fs gs" "cx_ring c = None"
  shows "endpoint_at c' w' [] fs gs"
proof -
  obtain arc rb v where a: "attach_ring (cx_neg_name c) (cx_shm_capacity c) SHM_RING_ROLE_PRODUCER w
      = Some (arc, rb, v)"
    using assms(1) by (auto simp: producer_map_ring_def split: option.splits)
  have cap: "capacity_ok (cx_shm_capacity c)" using assms(2) by (simp add: endpoint_at_def)
  note v = attach_producer [OF a cap]
  show ?thesis
    using assms a v by (auto simp: producer_map_ring_def grow_rxbuf_def endpoint_at_def queue_at_def
        split: if_splits option.splits)
qed

text \<open>An invariant of the wait: kept by each reading of the clock, each frame and the accounting, it
  gives \<open>J\<close> when the wait ends, with or without a ring.\<close>

lemma await_ack_invariant:
  assumes "await_ack c deadline w = Some y" "I c w"
    and tick: "\<And>c w n. I c w \<Longrightarrow> I c (w\<lparr>w_tick := n\<rparr>)"
    and frame: "\<And>c w cap t n bs w'. I c w \<Longrightarrow> recv_frame c cap t w = Some (n, bs, w') \<Longrightarrow> I c w'"
    and stats: "\<And>c w f. I c w \<Longrightarrow> I (upd_stats f c) w"
    and ring: "\<And>c w rc c' w'. I c w \<Longrightarrow> producer_map_ring c w = Some (rc, c', w') \<Longrightarrow> J c' w'"
    and fin: "\<And>c w. J c w \<Longrightarrow> J (c\<lparr>cx_negot_done := True\<rparr>) w" and weak: "\<And>c w. I c w \<Longrightarrow> J c w"
  shows "J (fst (snd y)) (snd (snd y))"
proof -
  let ?P = "\<lambda>c (d::u64) w y. I c w \<longrightarrow> J (fst (snd y)) (snd (snd y))"
  have "?P c deadline w y"
  proof (rule await_ack.raw_induct [where P = ?P, OF _ assms(1)], intro impI)
    fix f :: "adapt_ctx \<Rightarrow> u64 \<Rightarrow> world \<Rightarrow> (int \<times> adapt_ctx \<times> world) option"
    fix c d w y
    assume IH: "\<And>c d w y. f c d w = Some y \<Longrightarrow> ?P c d w y" and e: "I c w"
      and body: "(let (t0, w) = tick_if (cx_stats_on c) w in
       case recv_frame c (cx_rxbuf_cap c) ADAPT_NEGOT_POLL_MS w of
         None \<Rightarrow> None
       | Some (n, bs, w) \<Rightarrow>
         let (t1, w) = tick_if (cx_stats_on c) w;
             c = upd_stats (\<lambda>s. s\<lparr>st_negot_wait_ns := st_negot_wait_ns s + (t1 - t0)\<rparr>) c in
         if n = - EAGAIN then
           let (t, w) = stats_now_ns w in
           if d < t then Some (- ETIMEDOUT, c, w) else f c d w
         else if n < 0 then Some (n, c, w)
         else if is_setup_ack bs then
           let c = upd_stats (\<lambda>s. s\<lparr>st_shm_setup_acks := st_shm_setup_acks s + 1\<rparr>) c in
           (case producer_map_ring c w of
              None \<Rightarrow> None
            | Some (rc, c, w) \<Rightarrow>
                if rc \<noteq> 0 then Some (rc, c, w) else Some (0, c\<lparr>cx_negot_done := True\<rparr>, w))
         else f c d w) = Some y"
    obtain t0 w0 where w0: "tick_if (cx_stats_on c) w = (t0, w0)" by fastforce
    obtain n bs w1 where w1: "recv_frame c (cx_rxbuf_cap c) ADAPT_NEGOT_POLL_MS w0 = Some (n, bs, w1)"
      using body w0 by (auto split: option.splits)
    obtain t1 w2 where w2: "tick_if (cx_stats_on c) w1 = (t1, w2)" by fastforce
    let ?c = "upd_stats (\<lambda>s. s\<lparr>st_negot_wait_ns := st_negot_wait_ns s + (t1 - t0)\<rparr>) c"
    let ?d = "upd_stats (\<lambda>s. s\<lparr>st_shm_setup_acks := st_shm_setup_acks s + 1\<rparr>) ?c"
    have "I c w2" using e tick frame [OF _ w1] tick_if_world [OF w0] tick_if_world [OF w2] by blast
    then have ec: "I ?c w2" "I ?d w2" using stats by blast+
    consider "n = - EAGAIN" | "n \<noteq> - EAGAIN" "n < 0"
      | "n \<noteq> - EAGAIN" "\<not> n < 0" "is_setup_ack bs" | "n \<noteq> - EAGAIN" "\<not> n < 0" "\<not> is_setup_ack bs" by blast
    then show "J (fst (snd y)) (snd (snd y))"
    proof cases
      case 1
      then show ?thesis using body w0 w1 w2 tick [OF ec(1)] weak IH
        by (auto simp: stats_now_ns_def Let_def split: if_splits)
    next
      case 2
      then show ?thesis using body w0 w1 w2 weak [OF ec(1)] by auto
    next
      case 3
      then obtain rc c' w' where m: "producer_map_ring ?d w2 = Some (rc, c', w')"
        using body w0 w1 w2 by (auto simp: Let_def split: option.splits)
      from ring [OF ec(2) m] show ?thesis
        using body w0 w1 w2 3 m fin by (auto simp: Let_def split: if_splits)
    next
      case 4
      then show ?thesis using body w0 w1 w2 ec(1) IH by auto
    qed
  qed
  then show ?thesis using assms(2) by blast
qed

lemma await_ack_endpoint:
  assumes "await_ack c deadline w = Some y" "endpoint_at c w [] fs gs" "cx_ring c = None"
  shows "endpoint_at (fst (snd y)) (snd (snd y)) [] fs gs"
proof (rule await_ack_invariant [where I = "\<lambda>c w. endpoint_at c w [] fs gs \<and> cx_ring c = None"
      and J = "\<lambda>c w. endpoint_at c w [] fs gs", OF assms(1)])
qed (auto simp: assms endpoint_recv_frame intro: map_ring_endpoint)

lemma negotiate_endpoint:
  assumes "send_negotiate c sz r w = Some (x, c', w')" "endpoint_at c w ms fs gs"
  shows "endpoint_at c' w' ms fs gs"
proof (cases "r = ADAPT_ROUTE_SHM \<and> cx_ring c = None")
  case False
  then show ?thesis using assms by (auto simp: send_negotiate_def)
next
  case True
  obtain t v where t: "stats_now_ns w = (t, v)" "v = w\<lparr>w_tick := w_tick w + 1\<rparr>" by (simp add: stats_now_ns_def)
  have ms: "ms = []" and v: "endpoint_at c v [] fs gs"
    using True assms(2) t(2) by (auto simp: endpoint_at_def queue_at_def)
  obtain hrc d u where h: "producer_ensure_shm c t v = Some (hrc, d, u)"
    using assms(1) True t by (auto simp: send_negotiate_def split: option.splits)
  have "endpoint_at d u [] fs gs"
  proof (cases "cx_negot_done c")
    case True
    then show ?thesis using h v by (simp add: producer_ensure_shm_def)
  next
    case False
    obtain c1 w1 where n: "name_ring c v = (c1, w1)" by fastforce
    have c1: "endpoint_at c1 w1 [] fs gs" "cx_ring c1 = None"
      using n v True by (auto simp: name_ring_def generate_shm_name_def split: if_splits)
    obtain rc c2 w2 where q: "request_ring c1 t w1 = Some (rc, c2, w2)"
      using h False n by (auto simp: producer_ensure_shm_def split: option.splits)
    have c2: "endpoint_at c2 w2 [] fs gs" "cx_ring c2 = None"
      using q c1 request_frame_data
      by (auto simp: request_ring_def split: option.splits if_splits)
    show ?thesis
      using h False n q c2 await_ack_endpoint [OF _ c2(1) c2(2)]
      by (fastforce simp: producer_ensure_shm_def split: if_splits)
  qed
  then show ?thesis using assms(1) True t h ms
    by (auto simp: send_negotiate_def escalated_def split: if_splits)
qed

subsection \<open>The two transports\<close>

lemma shm_segs_gather [simp]: "gather (shm_segs bs) = TAG_SHM # bs"
  by (simp add: shm_segs_def gather_def seg_bytes_def)

lemma shm_segs_not_empty [simp]: "shm_segs bs \<noteq> []"
  by (simp add: shm_segs_def)

lemma shm_segs_ok: "length bs < 2 ^ 62 \<Longrightarrow> sendv_ok (shm_segs bs)"
  by (simp add: sendv_ok_def) (simp add: shm_segs_def seg_ok_def)

lemma world_obj_inject [simp]: "(w\<lparr>w_obj := a\<rparr> = w\<lparr>w_obj := b\<rparr>) = (a = b)" for w :: world
  by (cases w) simp

lemma push_scatter_none:
  "shm_ring_push_scatter None sgs s = Some (- EINVAL, s)"
  "shm_ring_push_scatter_blocking None sgs rs s = Some (- EINVAL, s)"
  by (simp_all add: shm_ring_push_scatter_def shm_ring_push_scatter_blocking_def push_retry_simps errno_defs)

lemma ring_push_queue:
  assumes "ring_push c timed bs w = Some (rc, w')" "queue_at c w ms" "length bs < 2 ^ 62"
  shows "\<exists>j. obj_taken (w_obj w') = obj_taken (w_obj w) @ take j ms \<and>
      queue_at c w' (drop j ms @ (if rc = 0 then [TAG_SHM # bs] else []))"
    and "w_wire w' = w_wire w" "w_uds w' = w_uds w"
proof -
  let ?new = "if rc = 0 then [TAG_SHM # bs] else []"
  obtain s' where s': "w' = w\<lparr>w_obj := s'\<rparr>"
    using assms(1) by (auto simp: ring_push_def Let_def)
  then show "w_wire w' = w_wire w" "w_uds w' = w_uds w" by simp_all
  show "\<exists>j. obj_taken (w_obj w') = obj_taken (w_obj w) @ take j ms \<and> queue_at c w' (drop j ms @ ?new)"
  proof (cases "cx_ring c")
    case None
    then show ?thesis using assms(1,2) s'
      by (auto simp: ring_push_def push_scatter_none queue_at_def Let_def errno_defs split: if_splits)
  next
    case (Some rb)
    then have q: "ring_holds rb (w_obj w) ms" using assms(2) by (simp add: queue_at_def)
    note ok = shm_segs_ok [OF assms(3)]
    obtain rc1 s1 where once: "shm_ring_push_scatter (Some rb) (Some (shm_segs bs)) (w_obj w) = Some (rc1, s1)"
      "rc1 = 0 \<Longrightarrow> ring_holds rb s1 (ms @ [TAG_SHM # bs])" "rc1 \<noteq> 0 \<Longrightarrow> s1 = w_obj w"
      using push_scatter_queue [OF q ok] by (metis shm_segs_gather)
    have "shm_ring_push_scatter (Some rb) (Some (shm_segs bs)) (w_obj w) = Some (rc, s') \<or>
      shm_ring_push_scatter_blocking (Some rb) (Some (shm_segs bs)) (w_rounds w) (w_obj w) = Some (rc, s')"
      using assms(1) Some once(1,3) s' by (auto simp: ring_push_def Let_def errno_defs split: if_splits)
    then have "\<exists>j. obj_taken s' = obj_taken (w_obj w) @ take j ms \<and> ring_holds rb s' (drop j ms @ ?new)"
    proof
      assume "shm_ring_push_scatter (Some rb) (Some (shm_segs bs)) (w_obj w) = Some (rc, s')"
      then show ?thesis using once q push_scatter_taken [OF once(1)]
        by (intro exI [of _ 0]) (cases "rc = 0"; simp)
    next
      assume "shm_ring_push_scatter_blocking (Some rb) (Some (shm_segs bs)) (w_rounds w) (w_obj w) = Some (rc, s')"
      from push_blocking_result [OF q ok this] show ?thesis by (elim exE) (intro exI, auto split: if_splits)
    qed
    then show ?thesis using Some by (simp add: queue_at_def s')
  qed
qed

lemma calibrate_endpoint:
  "calibrate c r sz t w = (c', w') \<Longrightarrow> endpoint_at c' w' ms fs gs = endpoint_at c w ms fs gs"
  by (auto simp: calibrate_def stats_now_ns_def Let_def)

lemma count_copy_endpoint:
  "count_copy sz t c w = (c', w') \<Longrightarrow> endpoint_at c' w' ms fs gs = endpoint_at c w ms fs gs"
  by (auto simp: count_copy_def endpoint_tick_if split: prod.splits)

text \<open>The outcome of a send: the message on one transport, or on none. Messages at the head of the
  queue may have been consumed meanwhile. A short write of the kernel (\<open>-EIO\<close>) leaves a cut datagram.\<close>

definition sent_once :: "int \<Rightarrow> u8 list \<Rightarrow> adapt_ctx \<Rightarrow> world \<Rightarrow> u8 list list \<Rightarrow> u8 list list \<Rightarrow> u8 list list \<Rightarrow> bool" where
  "sent_once rc bs c w ms fs gs \<longleftrightarrow> (\<exists>j.
     if rc = 0 then endpoint_at c w (drop j ms @ [TAG_SHM # bs]) fs (gs @ take j ms) \<or>
                    endpoint_at c w (drop j ms) (fs @ [TAG_UDS # bs]) (gs @ take j ms)
     else endpoint_at c w (drop j ms) fs (gs @ take j ms) \<or>
          rc = - EIO \<and> (\<exists>n. endpoint_at c w (drop j ms) (fs @ data_frames [take n (TAG_UDS # bs)]) (gs @ take j ms)))"

lemma send_shm_once:
  assumes "send_shm c bs w = Some (rc, c', w')" "endpoint_at c w ms fs gs" "length bs < 2 ^ 62"
  shows "sent_once rc bs c' w' ms fs gs"
proof -
  let ?c = "upd_stats (\<lambda>s. s\<lparr>st_sends_shm := st_sends_shm s + 1\<rparr>) c"
  let ?timed = "ADAPT_POLICY_COST_AWARE \<le> cx_policy c"
  obtain t0 w0 where w0: "tick_if (cx_stats_on c) w = (t0, w0)" by fastforce
  obtain tm w1 where w1: "tick_if ?timed w0 = (tm, w1)" by fastforce
  obtain rc2 w2 where p: "ring_push ?c ?timed bs w1 = Some (rc2, w2)"
    using assms(1) w0 w1 by (auto simp: send_shm_def Let_def split: option.splits prod.splits)
  obtain c3 w3 where k: "(if tm \<noteq> 0 then calibrate ?c ADAPT_ROUTE_SHM (of_nat (length bs)) tm w2 else (?c, w2)) = (c3, w3)"
    by fastforce
  obtain c4 w4 where cc: "count_copy (of_nat (length bs)) t0 c3 w3 = (c4, w4)" by fastforce
  have res: "rc = rc2" "w' = w4" "endpoint_at c' w4 m f g = endpoint_at c4 w4 m f g" for m f g
    using assms(1) w0 w1 p k cc by (auto simp: send_shm_def Let_def)
  have "endpoint_at ?c w1 ms fs gs"
    using assms(2) endpoint_tick_if [OF w0] endpoint_tick_if [OF w1] by simp
  then have e: "capacity_ok (cx_shm_capacity ?c)" "list_all sys_ret_ok (us_send (w_uds w1))" "queue_at ?c w1 ms"
    "data_frames (w_wire w1) = fs" "obj_taken (w_obj w1) = gs" by (simp_all add: endpoint_at_def)
  from ring_push_queue [OF p e(3) assms(3)] e(1,2,4,5)
  obtain j where "endpoint_at ?c w2 (drop j ms @ (if rc2 = 0 then [TAG_SHM # bs] else [])) fs (gs @ take j ms)"
    by (auto simp: endpoint_at_def)
  moreover have "endpoint_at c' w' m f g = endpoint_at ?c w2 m f g" for m f g
    unfolding res(2,3) using k calibrate_endpoint count_copy_endpoint [OF cc] by (auto split: if_splits)
  ultimately show ?thesis unfolding sent_once_def res(1) by (intro exI [of _ j]) (auto split: if_splits)
qed

lemma send_uds_once_at:
  assumes "send_uds c bs w = Some (rc, c', w')" "endpoint_at c w ms fs gs"
  shows "sent_once rc bs c' w' ms fs gs"
proof -
  let ?c = "upd_stats (\<lambda>s. s\<lparr>st_sends_uds := st_sends_uds s + 1\<rparr>) c"
  let ?timed = "ADAPT_POLICY_COST_AWARE \<le> cx_policy c"
  obtain t0 w0 where w0: "tick_if (cx_stats_on c) w = (t0, w0)" by fastforce
  obtain tm w1 where w1: "tick_if ?timed w0 = (tm, w1)" by fastforce
  obtain c2 w2 where cc: "count_copy (of_nat (length bs)) t0 ?c w1 = (c2, w2)" by fastforce
  obtain rc3 w3 where p: "send_frame c2 (TAG_UDS # bs) w2 = Some (rc3, w3)"
    using assms(1) w0 w1 cc by (auto simp: send_uds_def Let_def split: option.splits prod.splits)
  obtain c4 w4 where k: "(if tm \<noteq> 0 \<and> rc3 = 0 then calibrate c2 ADAPT_ROUTE_UDS (of_nat (length bs)) tm w3 else (c2, w3))
      = (c4, w4)" by fastforce
  have res: "rc = rc3" "w' = w4" "endpoint_at c' w4 m f g = endpoint_at c4 w4 m f g" for m f g
    using assms(1) w0 w1 p k cc by (auto simp: send_uds_def Let_def split: if_splits)
  have "endpoint_at c2 w2 ms fs gs"
    using assms(2) endpoint_tick_if [OF w0] endpoint_tick_if [OF w1] count_copy_endpoint [OF cc] by simp
  note f = send_frame_data [OF p this]
  have same: "endpoint_at c' w' m f g = endpoint_at c2 w3 m f g" for m f g
    unfolding res(2,3) using k calibrate_endpoint by (auto split: if_splits)
  have "data_frames [TAG_UDS # bs] = [TAG_UDS # bs]"
    by (simp add: data_frames_def TAG_UDS_def ADAPT_WIRE_TAG_CTRL_def)
  then show ?thesis using f unfolding sent_once_def same res(1)
    by (intro exI [of _ 0]) (auto split: if_splits)
qed

lemma adapt_send_result:
  assumes "adapt_send c (Some bs) w = Some (rc, c', w')" "endpoint_at c w ms fs gs" "length bs < 2 ^ 62"
  shows "sent_once rc bs c' w' ms fs gs"
proof -
  let ?sz = "of_nat (length bs) :: csize"
  have early: "sent_once r bs d v ms fs gs" if "r \<noteq> 0" "endpoint_at d v ms fs gs" for r d v
    using that by (auto simp: sent_once_def intro: exI [of _ 0])
  obtain now c1 w1 where o: "send_observe c ?sz w = (now, c1, w1)" by (metis prod_cases3)
  obtain r c2 w2 where k: "send_classify c1 ?sz now w1 = (r, c2, w2)" by (metis prod_cases3)
  let ?c2 = "upd_stats (\<lambda>s. s\<lparr>st_sends := st_sends s + 1\<rparr>) c2"
  obtain x c3 where g: "send_guard ?c2 ?sz r = (x, c3)" by fastforce
  have e3: "endpoint_at c3 w2 ms fs gs"
    using endpoint_same_io [OF endpoint_same_io [OF assms(2) observe_io [OF o]] classify_io [OF k]]
      endpoint_same_io [OF _ guard_io(1) [OF g]] by simp
  show ?thesis
  proof (cases "?sz = 0 \<or> cx_role c \<noteq> ADAPT_ROLE_PRODUCER \<or> x = None")
    case True
    then show ?thesis using assms(1,2) o k g e3 early
      by (auto simp: adapt_send_def errno_defs Let_def split: if_splits)
  next
    case False
    then obtain y where x: "x = Some y" by blast
    obtain z c4 w4 where n: "send_negotiate c3 ?sz y w2 = Some (z, c4, w4)"
      using assms(1) False o k g x by (auto simp: adapt_send_def Let_def split: option.splits)
    note e4 = negotiate_endpoint [OF n e3]
    show ?thesis
    proof (cases z)
      case (Inl a)
      then have "rc \<noteq> 0" "c' = c4" "w' = w4"
        using assms(1) False o k g x n
        by (auto simp: adapt_send_def Let_def send_negotiate_def errno_defs split: option.splits if_splits prod.splits)
      then show ?thesis using early e4 by blast
    next
      case (Inr route)
      then show ?thesis
        using assms(1) False o k g x n send_shm_once [OF _ e4 assms(3)] send_uds_once_at [OF _ e4]
        by (auto simp: adapt_send_def Let_def split: if_splits)
    qed
  qed
qed

subsection \<open>The classifier state of an endpoint\<close>

definition classified :: "adapt_ctx \<Rightarrow> double \<times> adapt_route_t \<times> u64 \<times> adapt_declog" where
  "classified c = (cx_ewma_size c, cx_last_route c, cx_decision_seq c, cx_declog c)"

lemma classified_simps [simp]:
  "classified (upd_stats f c) = classified c" "classified (c\<lparr>cx_retry_pending := b\<rparr>) = classified c"
  "classified (c\<lparr>cx_pending_size := n\<rparr>) = classified c" "classified (c\<lparr>cx_pending_route := r\<rparr>) = classified c"
  "classified (c\<lparr>cx_rt := rt\<rparr>) = classified c" "classified (c\<lparr>cx_health := h\<rparr>) = classified c"
  "classified (c\<lparr>cx_learn := l\<rparr>) = classified c"
  by (simp_all add: classified_def upd_stats_def)

definition pending :: "adapt_ctx \<Rightarrow> bool \<times> csize \<times> adapt_route_t" where
  "pending c = (cx_retry_pending c, cx_pending_size c, cx_pending_route c)"

lemma pending_simps [simp]:
  "pending (upd_stats f c) = pending c" "pending (c\<lparr>cx_rt := rt\<rparr>) = pending c"
  "pending (c\<lparr>cx_health := h\<rparr>) = pending c" "pending (c\<lparr>cx_learn := l\<rparr>) = pending c"
  by (simp_all add: pending_def)

lemma observe_classified:
  "send_observe c sz w = (now, c', w') \<Longrightarrow> classified c' = classified c \<and> pending c' = pending c"
  by (auto simp: send_observe_def Let_def stats_now_ns_def split: if_splits)

lemma guard_classified: "send_guard c sz r = (x, c') \<Longrightarrow> classified c' = classified c"
  by (auto simp: send_guard_def escalated_def Let_def split: if_splits)

lemma pending_retry [simp]: "pending (c\<lparr>cx_retry_pending := b\<rparr>) = (b, snd (pending c))"
  by (simp add: pending_def)

lemma calibrate_classified: "calibrate c r sz t w = (c', w') \<Longrightarrow>
    classified c' = classified c \<and> pending c' = pending c \<and> w_wire w' = w_wire w \<and>
    cx_ring c' = cx_ring c \<and> cx_shm_capacity c' = cx_shm_capacity c \<and>
    cx_nonblocking_send c' = cx_nonblocking_send c"
  by (auto simp: calibrate_def stats_now_ns_def Let_def)

lemma count_copy_classified: "count_copy sz t c w = (c', w') \<Longrightarrow>
    classified c' = classified c \<and> pending c' = pending c \<and> w_wire w' = w_wire w \<and>
    cx_ring c' = cx_ring c \<and> cx_shm_capacity c' = cx_shm_capacity c \<and>
    cx_nonblocking_send c' = cx_nonblocking_send c"
  by (auto simp: count_copy_def tick_if_def stats_now_ns_def split: if_splits)

lemma send_shm_classified:
  assumes "send_shm c bs w = Some (rc, c', w')"
  shows "classified c' = classified c" "w_wire w' = w_wire w"
    "pending c' = (rc = - EAGAIN, snd (pending c))"
    "cx_ring c' = cx_ring c" "cx_shm_capacity c' = cx_shm_capacity c"
    "cx_nonblocking_send c' = cx_nonblocking_send c"
proof -
  have push: "w_wire v = w_wire u" if "ring_push c timed bs u = Some (r, v)" for c timed u r v
    using that by (auto simp: ring_push_def Let_def)
  have tick: "w_wire v = w_wire u" if "tick_if b u = (t, v)" for b t u v
    using tick_if_world [OF that] by auto
  show "classified c' = classified c" "w_wire w' = w_wire w"
    "pending c' = (rc = - EAGAIN, snd (pending c))"
    "cx_ring c' = cx_ring c" "cx_shm_capacity c' = cx_shm_capacity c"
    "cx_nonblocking_send c' = cx_nonblocking_send c"
    using assms
    by (auto simp: send_shm_def Let_def dest!: push tick calibrate_classified count_copy_classified
        split: option.splits prod.splits if_split_asm)
qed

subsection \<open>Sends over a mapped ring\<close>

text \<open>The stages of a send that does not return early, when no negotiation is needed.\<close>

lemma adapt_send_stages:
  assumes "cx_role c = ADAPT_ROLE_PRODUCER" "of_nat (length bs) \<noteq> (0 :: csize)"
    and "send_observe c (of_nat (length bs)) w = (now, c1, w1)"
    and "send_classify c1 (of_nat (length bs)) now w1 = (r, c2, w2)"
    and "send_guard (upd_stats (\<lambda>s. s\<lparr>st_sends := st_sends s + 1\<rparr>) c2) (of_nat (length bs)) r = (x, c3)"
    and "cx_ring c \<noteq> None"
  shows "adapt_send c (Some bs) w = (case x of None \<Rightarrow> Some (- EMSGSIZE, c3, w2)
    | Some y \<Rightarrow> if y = ADAPT_ROUTE_SHM then send_shm c3 bs w2 else send_uds c3 bs w2)"
    "cx_ring c3 = cx_ring c" "same_io c w c3 w2"
proof -
  have io: "same_io c w c3 w2"
    using observe_io [OF assms(3)] classify_io [OF assms(4)] guard_io(1) [OF assms(5), of w2]
    by (simp add: same_io_def)
  then show "same_io c w c3 w2" and ring: "cx_ring c3 = cx_ring c" by (simp_all add: same_io_def)
  then have n: "send_negotiate c3 sz y w2 = Some (Inr y, c3, w2)" for sz y
    using assms(6) by (auto simp: send_negotiate_def)
  show "adapt_send c (Some bs) w = (case x of None \<Rightarrow> Some (- EMSGSIZE, c3, w2)
    | Some y \<Rightarrow> if y = ADAPT_ROUTE_SHM then send_shm c3 bs w2 else send_uds c3 bs w2)"
    using assms(1-5) by (auto simp: adapt_send_def Let_def n split: option.split)
qed

lemma uds_send_eagain:
  "uds_send ep peer d sc = Some (- EAGAIN, sent, sc') \<Longrightarrow> SysErr EAGAIN \<in> set (us_send sc)"
  using sendto_loop_result [of "us_send sc"]
  by (auto simp: uds_send_def errno_defs split: if_splits option.splits sys_ret.splits)

lemma send_uds_eagain:
  assumes "send_uds c bs w = Some (- EAGAIN, c', w')" shows "SysErr EAGAIN \<in> set (us_send (w_uds w))"
proof -
  have tick: "w_uds v = w_uds u" if "tick_if b u = (t, v)" for b t u v
    using tick_if_world [OF that] by auto
  have cnt: "w_uds v = w_uds u" if "count_copy sz t c u = (d, v)" for sz t c u d v
    using that by (auto simp: count_copy_def tick_if_def stats_now_ns_def split: if_splits)
  show ?thesis using assms uds_send_eagain
    by (auto simp: send_uds_def send_frame_def Let_def dest!: tick cnt split: option.splits prod.splits if_split_asm)
qed

lemma refused_send:
  assumes "adapt_send c (Some bs) w = Some (- EAGAIN, c', w')" "cx_ring c \<noteq> None"
    and "SysErr EAGAIN \<notin> set (us_send (w_uds w))"
  shows "pending c' = (True, of_nat (length bs), ADAPT_ROUTE_SHM) \<and> cx_ring c' = cx_ring c \<and>
    of_nat (length bs) + 1 \<le> cx_shm_capacity c' \<and> cx_nonblocking_send c' = cx_nonblocking_send c"
proof -
  let ?sz = "of_nat (length bs) :: csize"
  have go: "cx_role c = ADAPT_ROLE_PRODUCER" "?sz \<noteq> 0"
    using assms(1) by (auto simp: adapt_send_def errno_defs Let_def split: if_splits)
  obtain now c1 w1 where o: "send_observe c ?sz w = (now, c1, w1)" by (metis prod_cases3)
  obtain r c2 w2 where k: "send_classify c1 ?sz now w1 = (r, c2, w2)" by (metis prod_cases3)
  obtain x c3 where g: "send_guard (upd_stats (\<lambda>s. s\<lparr>st_sends := st_sends s + 1\<rparr>) c2) ?sz r = (x, c3)" by fastforce
  note st = adapt_send_stages [OF go o k g assms(2)]
  have "SysErr EAGAIN \<notin> set (us_send (w_uds w2))" using assms(3) st(3) by (simp add: same_io_def)
  then have x: "x = Some ADAPT_ROUTE_SHM" and s: "send_shm c3 bs w2 = Some (- EAGAIN, c', w')"
    using assms(1) send_uds_eagain unfolding st(1) by (auto simp: errno_defs split: option.splits if_splits)
  have p: "pending c' = (True, ?sz, ADAPT_ROUTE_SHM)"
    using send_shm_classified(3) [OF s] guard_io(3) [OF g x] by (simp add: pending_def)
  have "?sz + 1 \<le> cx_shm_capacity c3"
    using g x by (auto simp: send_guard_def Let_def escalated_def split: if_splits)
  moreover have "cx_nonblocking_send c3 = cx_nonblocking_send c" using st(3) by (simp add: same_io_def)
  ultimately show ?thesis using p st(2) send_shm_classified(4-6) [OF s] by simp
qed

lemma resumed_send:
  assumes "adapt_send c (Some bs) w = Some (rc, c', w')" "cx_ring c \<noteq> None"
    and "pending c = (True, of_nat (length bs), ADAPT_ROUTE_SHM)"
    and "of_nat (length bs) + 1 \<le> cx_shm_capacity c"
  shows "classified c' = classified c \<and> w_wire w' = w_wire w"
proof (cases "cx_role c \<noteq> ADAPT_ROLE_PRODUCER \<or> of_nat (length bs) = (0 :: csize)")
  case True
  then show ?thesis using assms(1) by (auto simp: adapt_send_def Let_def split: if_splits)
next
  case False
  let ?sz = "of_nat (length bs) :: csize"
  obtain now c1 w1 where o: "send_observe c ?sz w = (now, c1, w1)" by (metis prod_cases3)
  have k: "send_classify c1 ?sz now w1 = (ADAPT_ROUTE_SHM, c1, w1)"
    using observe_classified [OF o] assms(3) by (simp add: send_classify_def resumes_def pending_def)
  obtain x c3 where g: "send_guard (upd_stats (\<lambda>s. s\<lparr>st_sends := st_sends s + 1\<rparr>) c1) ?sz ADAPT_ROUTE_SHM = (x, c3)"
    by fastforce
  have st: "adapt_send c (Some bs) w = (case x of None \<Rightarrow> Some (- EMSGSIZE, c3, w1)
      | Some y \<Rightarrow> if y = ADAPT_ROUTE_SHM then send_shm c3 bs w1 else send_uds c3 bs w1)"
    "same_io c w c3 w1"
    using adapt_send_stages [OF _ _ o k g assms(2)] False by auto
  have x: "x = Some ADAPT_ROUTE_SHM"
    using g assms(4) observe_io [OF o] by (auto simp: send_guard_def same_io_def Let_def split: if_splits)
  have c3: "classified c3 = classified c" using observe_classified [OF o] guard_classified [OF g] by simp
  show ?thesis
    using assms(1) st c3 send_shm_classified(1,2) [of c3 bs w1 rc c' w'] by (simp add: x same_io_def)
qed

end
