(* ===== verification/Delivery.thy ===== *)
theory Delivery
  imports Endpoint
begin

text \<open>
  The lemmas on delivery: when a send over a mapped ring returns and what exactly it then did,
  which message a receive takes from the ring or from the socket, and the reading of the
  control frames.
\<close>

subsection \<open>A send over a mapped ring returns\<close>

definition answers :: "sys_ret list \<Rightarrow> bool" where
  "answers rs \<longleftrightarrow> (\<exists>r\<in>set rs. case r of SysOk _ \<Rightarrow> True | SysErr e \<Rightarrow> \<not> send_retry e)"

lemma sendto_loop_answers: "answers rs \<Longrightarrow> \<exists>y. sendto_loop rs = Some y"
  by (induction rs rule: sendto_loop.induct) (auto simp: answers_def)

lemma send_frame_answers: "answers (us_send (w_uds w)) \<Longrightarrow> \<exists>y. send_frame c f w = Some y"
  using sendto_loop_answers [of "us_send (w_uds w)"]
  by (auto simp: send_frame_def uds_send_def split: option.splits sys_ret.splits)

lemma tick_if_io: "tick_if b w = (t, w') \<Longrightarrow> w_uds w' = w_uds w \<and> w_obj w' = w_obj w \<and> w_wire w' = w_wire w"
  using tick_if_world by fastforce

lemma count_copy_io: "count_copy sz t c w = (c', w') \<Longrightarrow>
    w_uds w' = w_uds w \<and> w_obj w' = w_obj w \<and> w_wire w' = w_wire w \<and> cx_uds c' = cx_uds c \<and>
    cx_peer_sock c' = cx_peer_sock c \<and> cx_ring c' = cx_ring c \<and>
    cx_nonblocking_send c' = cx_nonblocking_send c \<and> cx_shm_capacity c' = cx_shm_capacity c"
  by (auto simp: count_copy_def dest!: tick_if_io split: prod.splits)

lemma send_uds_returns:
  assumes "answers (us_send (w_uds w))" shows "\<exists>y. send_uds c bs w = Some y"
proof -
  obtain t0 w0 where w0: "tick_if (cx_stats_on c) w = (t0, w0)" by fastforce
  obtain tm w1 where w1: "tick_if (ADAPT_POLICY_COST_AWARE \<le> cx_policy c) w0 = (tm, w1)" by fastforce
  obtain c2 w2 where cc: "count_copy (of_nat (length bs)) t0
      (upd_stats (\<lambda>s. s\<lparr>st_sends_uds := st_sends_uds s + 1\<rparr>) c) w1 = (c2, w2)" by fastforce
  have "w_uds w2 = w_uds w" using tick_if_io [OF w0] tick_if_io [OF w1] count_copy_io [OF cc] by simp
  then obtain y where "send_frame c2 (TAG_UDS # bs) w2 = Some y" using send_frame_answers assms by metis
  then show ?thesis using w0 w1 cc by (simp add: send_uds_def Let_def split: prod.split)
qed

lemma send_shm_returns:
  assumes "cx_nonblocking_send c" "queue_at c w ms" "length bs < 2 ^ 62"
  shows "\<exists>y. send_shm c bs w = Some y"
proof -
  have "\<exists>y. shm_ring_push_scatter (cx_ring c) (Some (shm_segs bs)) (w_obj w) = Some y"
  proof (cases "cx_ring c")
    case (Some rb)
    then have "ring_holds rb (w_obj w) ms" using assms(2) by (simp add: queue_at_def)
    from push_scatter_queue [OF this shm_segs_ok [OF assms(3)]] show ?thesis using Some by metis
  qed (simp add: push_scatter_none)
  then have "\<exists>y. ring_push d t bs u = Some y" if "cx_ring d = cx_ring c" "cx_nonblocking_send d" "w_obj u = w_obj w"
    for d t u using that by (auto simp: ring_push_def Let_def)
  moreover obtain t0 w0 where w0: "tick_if (cx_stats_on c) w = (t0, w0)" by fastforce
  moreover obtain tm w1 where w1: "tick_if (ADAPT_POLICY_COST_AWARE \<le> cx_policy c) w0 = (tm, w1)" by fastforce
  ultimately obtain y where "ring_push (upd_stats (\<lambda>s. s\<lparr>st_sends_shm := st_sends_shm s + 1\<rparr>) c)
      (ADAPT_POLICY_COST_AWARE \<le> cx_policy c) bs w1 = Some y"
    using assms(1) tick_if_io [OF w0] tick_if_io [OF w1] by fastforce
  then show ?thesis using w0 w1 by (simp add: send_shm_def Let_def split: prod.split)
qed

lemma mapped_send_returns:
  assumes "cx_ring c = Some rb" "ring_holds rb (w_obj w) ms" "cx_nonblocking_send c" "length bs < 2 ^ 62"
    and "answers (us_send (w_uds w))"
  shows "\<exists>y. adapt_send c (Some bs) w = Some y"
proof (cases "cx_role c \<noteq> ADAPT_ROLE_PRODUCER \<or> of_nat (length bs) = (0 :: csize)")
  case True
  then show ?thesis by (auto simp: adapt_send_def Let_def)
next
  case False
  let ?sz = "of_nat (length bs) :: csize"
  obtain now c1 w1 where o: "send_observe c ?sz w = (now, c1, w1)" by (metis prod_cases3)
  obtain r c2 w2 where k: "send_classify c1 ?sz now w1 = (r, c2, w2)" by (metis prod_cases3)
  obtain x c3 where g: "send_guard (upd_stats (\<lambda>s. s\<lparr>st_sends := st_sends s + 1\<rparr>) c2) ?sz r = (x, c3)" by fastforce
  have st: "adapt_send c (Some bs) w = (case x of None \<Rightarrow> Some (- EMSGSIZE, c3, w2)
      | Some y \<Rightarrow> if y = ADAPT_ROUTE_SHM then send_shm c3 bs w2 else send_uds c3 bs w2)"
    "same_io c w c3 w2" using adapt_send_stages [OF _ _ o k g] False assms(1) by auto
  have "queue_at c3 w2 ms" "cx_nonblocking_send c3" "answers (us_send (w_uds w2))"
    using same_io_queue [OF st(2), of ms] st(2) assms by (auto simp: queue_at_def same_io_def)
  then show ?thesis using send_shm_returns [of c3 w2 ms bs] send_uds_returns [of w2 c3 bs] assms(4)
    unfolding st(1) by (auto split: option.split)
qed

text \<open>A resumed attempt goes straight to its transport.\<close>

lemma resumed_stages:
  assumes "cx_role c = ADAPT_ROLE_PRODUCER" "of_nat (length bs) \<noteq> (0 :: csize)" "cx_ring c \<noteq> None"
    and "pending c = (True, of_nat (length bs), r)" "r \<noteq> ADAPT_ROUTE_NONE"
    and "r = ADAPT_ROUTE_SHM \<Longrightarrow> of_nat (length bs) + 1 \<le> cx_shm_capacity c"
    and "r = ADAPT_ROUTE_UDS \<Longrightarrow> of_nat (length bs) + 1 \<le> (of_nat UDS_MAX_DGRAM :: csize)"
  shows "\<exists>c3 w3. adapt_send c (Some bs) w =
      (if r = ADAPT_ROUTE_SHM then send_shm c3 bs w3 else send_uds c3 bs w3) \<and> same_io c w c3 w3"
proof -
  let ?sz = "of_nat (length bs) :: csize"
  obtain now c1 w1 where o: "send_observe c ?sz w = (now, c1, w1)" by (metis prod_cases3)
  have k: "send_classify c1 ?sz now w1 = (r, c1, w1)"
    using observe_classified [OF o] assms(4,5) by (simp add: send_classify_def resumes_def pending_def)
  obtain x c3 where g: "send_guard (upd_stats (\<lambda>s. s\<lparr>st_sends := st_sends s + 1\<rparr>) c1) ?sz r = (x, c3)" by fastforce
  have "x = Some r"
    using g assms(5-7) observe_io [OF o]
    by (cases r) (auto simp: send_guard_def same_io_def Let_def not_less [symmetric] split: if_splits)
  then show ?thesis using adapt_send_stages [OF assms(1,2) o k g assms(3)] by auto
qed

text \<open>What the transports return is what the send returns.\<close>

lemma calibrate_io: "calibrate c r sz t w = (c', w') \<Longrightarrow>
    w_wire w' = w_wire w \<and> w_obj w' = w_obj w \<and> cx_ring c' = cx_ring c \<and>
    cx_nonblocking_send c' = cx_nonblocking_send c \<and> cx_shm_capacity c' = cx_shm_capacity c"
  by (auto simp: calibrate_def stats_now_ns_def Let_def)

lemma send_shm_nonblocking:
  assumes "send_shm c bs w = Some (rc, c', w')" "cx_nonblocking_send c"
  shows "shm_ring_push_scatter (cx_ring c) (Some (shm_segs bs)) (w_obj w) = Some (rc, w_obj w') \<and>
    w_wire w' = w_wire w"
  using assms by (auto simp: send_shm_def ring_push_def Let_def dest!: tick_if_io count_copy_io calibrate_io
      split: option.splits prod.splits if_split_asm)

lemma send_uds_wire:
  assumes "send_uds c bs w = Some (rc, c', w')"
  shows "\<exists>sent sc. uds_send (cx_uds c) (Some (cx_peer_sock c)) (Some (TAG_UDS # bs)) (w_uds w) = Some (rc, sent, sc) \<and>
    w_wire w' = w_wire w @ sent \<and> w_obj w' = w_obj w \<and> cx_ring c' = cx_ring c \<and>
    cx_nonblocking_send c' = cx_nonblocking_send c \<and> cx_shm_capacity c' = cx_shm_capacity c"
  using assms
  by (auto simp: send_uds_def send_frame_def Let_def dest!: tick_if_io count_copy_io calibrate_io
      split: option.splits prod.splits if_split_asm)

text \<open>On the ring, blocking or not: the message behind the queue, less what the consumer has taken.\<close>

lemma send_shm_queue:
  assumes "send_shm c bs w = Some (rc, c', w')" "cx_ring c = Some rb" "ring_holds rb (w_obj w) ms" "length bs < 2 ^ 62"
  shows "\<exists>j. obj_taken (w_obj w') = obj_taken (w_obj w) @ take j ms \<and>
    ring_holds rb (w_obj w') (drop j ms @ (if rc = 0 then [TAG_SHM # bs] else []))"
proof -
  obtain d t w1 w2 where p: "ring_push d t bs w1 = Some (rc, w2)" "cx_ring d = Some rb" "w_obj w1 = w_obj w" "w_obj w' = w_obj w2"
    using assms(1,2) by (auto simp: send_shm_def Let_def dest!: tick_if_io count_copy_io calibrate_io
      split: option.splits prod.splits if_split_asm)
  then have "queue_at d w1 ms" using assms(3) by (simp add: queue_at_def)
  from ring_push_queue(1) [OF p(1) this assms(4)] show ?thesis using p(2-4) by (simp add: queue_at_def)
qed

text \<open>A send over a mapped ring puts its message behind the queue of the ring or
  behind what was sent on the socket, whole, or changes neither; what is gone from the ring the
  consumer has taken.\<close>

definition whole_sends :: "nat \<Rightarrow> sys_ret list \<Rightarrow> bool" where
  "whole_sends n rs \<longleftrightarrow> (\<forall>r\<in>set rs. case r of SysOk k \<Rightarrow> k = n | SysErr e \<Rightarrow> 0 < e)"

lemma uds_send_whole:
  assumes "uds_send ep peer (Some bs) sc = Some (rc, sent, sc')" "whole_sends (length bs) (us_send sc)"
  shows "if rc = 0 then sent = [bs] \<and> length bs \<le> UDS_MAX_DGRAM else sent = []"
proof -
  have "\<And>r rest. sendto_loop (us_send sc) = Some (r, rest) \<Longrightarrow>
      case r of SysOk n \<Rightarrow> n = length bs | SysErr e \<Rightarrow> 0 < e"
    using sendto_loop_result assms(2) unfolding whole_sends_def by blast
  then show ?thesis using assms(1)
    by (fastforce simp: uds_send_def errno_defs split: if_splits option.splits sys_ret.splits)
qed

lemma unat_of_nat_plus: "n < 2 ^ 62 \<Longrightarrow> unat (of_nat n + 1 :: csize) = n + 1"
proof -
  assume "n < 2 ^ 62"
  then have "unat (of_nat (n + 1) :: csize) = n + 1" by (intro unat_of_nat_u64) simp
  then show ?thesis by (simp add: add.commute)
qed

lemma mapped_send_exact:
  assumes "adapt_send c (Some bs) w = Some (rc, c', w')" "cx_ring c = Some rb"
    and "ring_holds rb (w_obj w) ms" "length bs < 2 ^ 62" "whole_sends (length bs + 1) (us_send (w_uds w))"
  obtains j where "obj_taken (w_obj w') = obj_taken (w_obj w) @ take j ms"
    "cx_ring c' = Some rb" "cx_shm_capacity c' = cx_shm_capacity c"
    "if rc = 0
      then bs \<noteq> [] \<and> (ring_holds rb (w_obj w') (drop j ms @ [TAG_SHM # bs]) \<and> w_wire w' = w_wire w \<and>
          length bs + 1 \<le> unat (cx_shm_capacity c) \<or>
        ring_holds rb (w_obj w') (drop j ms) \<and> w_wire w' = w_wire w @ [TAG_UDS # bs] \<and> length bs + 1 \<le> UDS_MAX_DGRAM)
      else ring_holds rb (w_obj w') (drop j ms) \<and> w_wire w' = w_wire w"
proof (cases "cx_role c \<noteq> ADAPT_ROLE_PRODUCER \<or> of_nat (length bs) = (0 :: csize)")
  case True
  then show ?thesis using assms(1-3) that [of 0] by (auto simp: adapt_send_def errno_defs Let_def split: if_splits)
next
  case False
  let ?sz = "of_nat (length bs) :: csize"
  obtain now c1 w1 where o: "send_observe c ?sz w = (now, c1, w1)" by (metis prod_cases3)
  obtain r c2 w2 where k: "send_classify c1 ?sz now w1 = (r, c2, w2)" by (metis prod_cases3)
  obtain x c3 where g: "send_guard (upd_stats (\<lambda>s. s\<lparr>st_sends := st_sends s + 1\<rparr>) c2) ?sz r = (x, c3)" by fastforce
  have st: "adapt_send c (Some bs) w = (case x of None \<Rightarrow> Some (- EMSGSIZE, c3, w2)
      | Some y \<Rightarrow> if y = ADAPT_ROUTE_SHM then send_shm c3 bs w2 else send_uds c3 bs w2)"
    "same_io c w c3 w2" using adapt_send_stages [OF _ _ o k g] False assms(2) by auto
  have io: "cx_ring c3 = Some rb" "w_obj w2 = w_obj w" "w_wire w2 = w_wire w"
    "w_uds w2 = w_uds w" "cx_shm_capacity c3 = cx_shm_capacity c" using st(2) assms(2) by (simp_all add: same_io_def)
  have ne: "bs \<noteq> []" using False by auto
  consider (none) "x = None" | (shm) "x = Some ADAPT_ROUTE_SHM" "send_shm c3 bs w2 = Some (rc, c', w')"
    | (uds) "send_uds c3 bs w2 = Some (rc, c', w')"
    using assms(1) unfolding st(1) by (auto split: option.splits if_splits)
  then show ?thesis
  proof cases
    case none
    then show ?thesis using assms(1,3) io that [of 0] unfolding st(1) by (auto simp: errno_defs)
  next
    case shm
    have "?sz + 1 \<le> cx_shm_capacity c3"
      using g shm(1) by (auto simp: send_guard_def Let_def escalated_def split: if_splits)
    then have fits: "length bs + 1 \<le> unat (cx_shm_capacity c)"
      using unat_of_nat_plus [of "length bs"] assms(4) io(5) by (simp add: word_le_nat_alt)
    obtain j where j: "obj_taken (w_obj w') = obj_taken (w_obj w) @ take j ms"
      "ring_holds rb (w_obj w') (drop j ms @ (if rc = 0 then [TAG_SHM # bs] else []))"
      using send_shm_queue [OF shm(2) io(1) _ assms(4)] assms(3) io(2) by auto
    then show ?thesis using that [of j] send_shm_classified(2,4,5) [OF shm(2)] io ne fits by (auto split: if_splits)
  next
    case uds
    obtain sent sc where u: "uds_send (cx_uds c3) (Some (cx_peer_sock c3)) (Some (TAG_UDS # bs)) (w_uds w2) = Some (rc, sent, sc)"
      "w_wire w' = w_wire w2 @ sent" "w_obj w' = w_obj w2" "cx_ring c' = cx_ring c3"
      "cx_shm_capacity c' = cx_shm_capacity c3"
      using send_uds_wire [OF uds] by blast
    have "if rc = 0 then sent = [TAG_UDS # bs] \<and> length (TAG_UDS # bs) \<le> UDS_MAX_DGRAM else sent = []"
      using uds_send_whole [OF u(1)] assms(5) io(4) by simp
    then show ?thesis using u io assms(3) ne by (intro that [of 0]; cases "rc = 0"; simp)
  qed
qed

subsection \<open>Receiving\<close>

lemma peer_turn_idle: "w_peer w = [] \<Longrightarrow> peer_turn c w = w"
  by (simp add: peer_turn_def)

lemma deliver_fits:
  assumes "length bs \<le> unat mx" "length bs < 2 ^ 62"
  shows "deliver mx (t # bs) = (int (length bs), bs)"
proof -
  have "unat (of_nat (length bs) :: csize) = length bs" using assms(2) by (intro unat_of_nat_u64) simp
  then have "\<not> mx < of_nat (length bs)" using assms(1) by (simp add: word_less_nat_alt)
  then show ?thesis by (simp add: deliver_def)
qed

lemma deliver_too_small:
  assumes "unat mx < length bs" "length bs < 2 ^ 62"
  shows "deliver mx (t # bs) = (- EMSGSIZE, [])"
proof -
  have "unat (of_nat (length bs) :: csize) = length bs" using assms(2) by (intro unat_of_nat_u64) simp
  then have "mx < of_nat (length bs)" using assms(1) by (simp add: word_less_nat_alt)
  then show ?thesis by (simp add: deliver_def)
qed

lemma ring_holds_length:
  assumes "ring_holds rb s ms" "m \<in> set ms" shows "length m < 2 ^ 62"
proof -
  obtain k T H where R: "ring_holds_at k T H rb s ms" using assms(1) by (auto simp: ring_holds_def)
  then have g: "ring_geom rb k" and le: "H - T \<le> 2 ^ k" and r: "recs (obj_data s) (2 ^ k) T ms H"
    by (auto simp: ring_holds_at_def)
  have "4 + length m \<le> sum_list (map (\<lambda>m. 4 + length m) ms)"
    using assms(2) member_le_sum_list [of "4 + length m" "map (\<lambda>m. 4 + length m) ms"] by simp
  moreover have "T + sum_list (map (\<lambda>m. 4 + length m) ms) \<le> H" using recs_le [OF _ r] by simp
  moreover have "(2::nat) ^ k \<le> 2 ^ 31" by (rule geom_bounds(2) [OF g])
  moreover have "(2::nat) ^ 31 < 2 ^ 62" by simp
  ultimately show ?thesis using le by linarith
qed

text \<open>What receiving leaves alone.\<close>

definition rx_same :: "adapt_ctx \<Rightarrow> adapt_ctx \<Rightarrow> bool" where
  "rx_same c c' \<longleftrightarrow> cx_role c' = cx_role c \<and> cx_ring c' = cx_ring c \<and> cx_uds c' = cx_uds c \<and>
     cx_rxbuf_cap c' = cx_rxbuf_cap c"

lemma rx_same_stats [simp]: "rx_same c (upd_stats f d) = rx_same c d" "rx_same c c"
  by (simp_all add: rx_same_def)

text \<open>A message of the ring is handed over, or dropped if the caller's buffer is too small.\<close>

lemma recv_ring_head:
  assumes "cx_role c = ADAPT_ROLE_CONSUMER" "cx_ring c = Some rb"
    and "ring_holds rb (w_obj (peer_turn c w)) ((t # bs) # ms)" "length bs + 1 \<le> unat (cx_rxbuf_cap c)" "2 \<le> mx"
  shows "\<exists>c' w'. adapt_recv True c mx w =
      Some (if unat mx < length bs then (- EMSGSIZE, []) else (int (length bs), bs), c', w') \<and>
      ring_holds rb (w_obj w') ms \<and> w_wire w' = w_wire w \<and> w_uds w' = w_uds w \<and> rx_same c c'"
proof -
  let ?c = "upd_stats (\<lambda>s. s\<lparr>st_recv_loop_iters := st_recv_loop_iters s + 1\<rparr>) c"
  have pt: "peer_turn ?c w = peer_turn c w" by (simp add: peer_turn_def split: list.split)
  have rx: "length (t # bs) \<le> unat (cx_rxbuf_cap c)" using assms(4) by simp
  obtain r s' where p: "shm_ring_pop rb (cx_rxbuf_cap c) (w_obj (peer_turn c w)) = Some (r, s')"
    and r: "r = pop_ok rb (t # bs) (w_obj (peer_turn c w)) s'" "ring_holds rb s' ms"
    using pop_result [OF assms(3), of "cx_rxbuf_cap c"] rx by metis
  obtain k where g: "ring_geom rb k" using ring_holds_geom [OF assms(3)] by blast
  have small: "length bs < 2 ^ 62" using ring_holds_length [OF assms(3), of "t # bs"] by simp
  have rc: "pr_rc r = int (length bs) + 1" "pr_buf r = t # bs" by (simp_all add: r(1) pop_ok_def)
  have recv: "adapt_recv True c mx w = recv_loop c mx 0 w"
    using assms(1,5) by (auto simp: adapt_recv_def word_less_nat_alt word_le_nat_alt)
  have wire: "w_wire (peer_turn c w) = w_wire w" "w_uds (peer_turn c w) = w_uds w" by (simp_all add: peer_turn_def split: list.split)
  show ?thesis unfolding recv
    using p rc r(2) pt assms(2) wire deliver_fits [OF _ small, of mx t] deliver_too_small [OF _ small, of mx t]
    by (subst recv_loop.simps) (auto simp: Let_def not_less)
qed

lemma poll_ready_datagram:
  assumes "us_poll sc = PollReady # ps" "us_recv sc = RecvMsg m # rs" "m \<noteq> []" "0 < cap" "0 < tmo"
  shows "uds_recv_timeout (Some ep) cap tmo sc =
    Some (int (min (length m) (unat cap)), take (unat cap) m, sc\<lparr>us_poll := ps, us_recv := rs\<rparr>)"
proof -
  have "unat cap \<noteq> 0" using assms(4) by (simp add: word_less_nat_alt)
  then show ?thesis using assms by (auto simp: uds_recv_timeout_def recv_datagram_def Let_def)
qed

text \<open>With nothing in the ring, a data frame on the socket is handed over.\<close>

lemma recv_socket_frame:
  assumes "cx_role c = ADAPT_ROLE_CONSUMER" "queue_at c w []" "w_peer w = []" "cx_uds c = Some ep"
    and "us_poll (w_uds w) = PollReady # ps" "us_recv (w_uds w) = RecvMsg (t # bs) # rs"
    and "t \<noteq> ADAPT_WIRE_TAG_CTRL" "bs \<noteq> []" "length bs + 1 \<le> unat (cx_rxbuf_cap c)" "length bs < 2 ^ 62"
    and "length bs \<le> unat mx" "2 \<le> mx"
  shows "\<exists>c' w'. adapt_recv True c mx w = Some ((int (length bs), bs), c', w') \<and> w_obj w' = w_obj w \<and>
    w_uds w' = (w_uds w)\<lparr>us_poll := ps, us_recv := rs\<rparr> \<and> rx_same c c'"
proof -
  let ?c = "upd_stats (\<lambda>s. s\<lparr>st_recv_loop_iters := st_recv_loop_iters s + 1\<rparr>) c"
  have pop: "(case cx_ring c of None \<Rightarrow> Some (pop_fails (- EAGAIN), w_obj w)
      | Some rb \<Rightarrow> shm_ring_pop rb (cx_rxbuf_cap c) (w_obj w)) = Some (pop_fails (- EAGAIN), w_obj w)"
  proof (cases "cx_ring c")
    case (Some rb)
    then have "ring_holds rb (w_obj w) []" using assms(2) by (simp add: queue_at_def)
    then show ?thesis using Some pop_result [of rb "w_obj w" "[]" "cx_rxbuf_cap c"] by fastforce
  qed simp
  obtain tp w0 where w0: "tick_if (cx_stats_on c) w = (tp, w0)" by fastforce
  have io: "w_uds w0 = w_uds w" "w_obj w0 = w_obj w" using tick_if_io [OF w0] by simp_all
  have cap: "0 < cx_rxbuf_cap c" "length (t # bs) \<le> unat (cx_rxbuf_cap c)"
    using assms(9) by (simp_all add: unat_gt_0 word_neq_0_conv [symmetric]) auto
  let ?w1 = "w0\<lparr>w_uds := (w_uds w)\<lparr>us_poll := ps, us_recv := rs\<rparr>\<rparr>"
  have f: "recv_frame ?c (cx_rxbuf_cap c) ADAPT_UDS_POLL_MS w0 = Some (int (length bs) + 1, t # bs, ?w1)"
    using poll_ready_datagram [of "w_uds w0" ps "t # bs" rs "cx_rxbuf_cap c" ADAPT_UDS_POLL_MS ep] assms(4-6) cap io
    by (auto simp: recv_frame_def ADAPT_UDS_POLL_MS_def min_def)
  have recv: "adapt_recv True c mx w = recv_loop c mx 0 w"
    using assms(1,12) by (auto simp: adapt_recv_def word_less_nat_alt word_le_nat_alt)
  obtain tq w2 where w2: "tick_if (cx_stats_on c) ?w1 = (tq, w2)" by fastforce
  have "\<exists>c'. recv_loop c mx 0 w = Some (deliver mx (t # bs), c', w2) \<and> rx_same c c'"
    using pop f w0 w2 assms(7,8)
    by (subst recv_loop.simps)
       (cases "cx_ring c"; auto simp: Let_def peer_turn_idle [OF assms(3)] pop_fails_def errno_defs split: prod.splits)
  then show ?thesis using deliver_fits [OF assms(11,10), of t] recv tick_if_io [OF w2] io by auto
qed

subsection \<open>What was sent is what is received\<close>

lemma sent_then_received:
  assumes "sent_once 0 bs p' wp [] fs gs" "data_frames (w_wire wp) = fs @ new"
    and "cx_role q = ADAPT_ROLE_CONSUMER" "map_option rb_capacity (cx_ring q) = map_option rb_capacity (cx_ring p')" "cx_uds q = Some ep"
    and "w_obj wq = w_obj wp" "w_peer wq = []"
    and "us_poll (w_uds wq) = [PollReady]" "us_recv (w_uds wq) = map RecvMsg new"
    and "bs \<noteq> []" "length bs < 2 ^ 62" "length bs + 1 \<le> unat (cx_rxbuf_cap q)" "length bs \<le> unat mx" "2 \<le> mx"
  shows "\<exists>q' wq'. adapt_recv True q mx wq = Some ((int (length bs), bs), q', wq')"
proof -
  from assms(1) consider (ring) "endpoint_at p' wp [TAG_SHM # bs] fs gs" | (wire) "endpoint_at p' wp [] (fs @ [TAG_UDS # bs]) gs"
    by (auto simp: sent_once_def)
  then show ?thesis
  proof cases
    case ring
    then have "queue_at q wq [TAG_SHM # bs]" using queue_at_cap [OF assms(4,6)] by (simp add: endpoint_at_def)
    then obtain rb where rb: "cx_ring q = Some rb" "ring_holds rb (w_obj wq) [TAG_SHM # bs]"
      by (auto simp: queue_at_def split: option.splits)
    show ?thesis
      using recv_ring_head [OF assms(3) rb(1), of wq TAG_SHM bs "[]" mx] rb(2) peer_turn_idle [OF assms(7)] assms(12-14)
      by auto
  next
    case wire
    then have "new = [TAG_UDS # bs]" using assms(2) by (simp add: endpoint_at_def)
    then have recv: "us_recv (w_uds wq) = RecvMsg (TAG_UDS # bs) # []" using assms(9) by simp
    have "queue_at q wq []" using wire queue_at_cap [OF assms(4,6)] by (simp add: endpoint_at_def)
    from recv_socket_frame [OF assms(3) this assms(7,5,8) recv _ assms(10) assms(12) assms(11,13,14)] show ?thesis
      by (auto simp: TAG_UDS_def ADAPT_WIRE_TAG_CTRL_def)
  qed
qed

subsection \<open>The control frames\<close>

lemma char_of_byte: "char_of (unat (of_char ch :: u8)) = ch"
proof -
  have "unat (of_char ch :: u8) = of_char ch"
  proof -
    have "(of_char ch :: u8) = of_nat (of_char ch)" by (rule of_nat_of_char [symmetric])
    moreover have "(of_char ch :: nat) < 256" by (rule nat_of_char_less_256)
    ultimately show ?thesis by (simp add: unat_of_nat)
  qed
  then show ?thesis by simp
qed

lemma string_of_bytes_of [simp]: "string_of_bytes (bytes_of s) = s"
  by (induction s) (simp_all add: string_of_bytes_def bytes_of_def char_of_byte)

lemma bytes_of_no_zero: "CHR 0x00 \<notin> set s \<Longrightarrow> 0 \<notin> set (bytes_of s)"
proof
  assume a: "CHR 0x00 \<notin> set s" "0 \<in> set (bytes_of s)"
  then obtain ch where ch: "ch \<in> set s" "(of_char ch :: u8) = 0" by (auto simp: bytes_of_def)
  then have "ch = char_of (0 :: nat)" using char_of_byte [of ch] by simp
  then show False using a(1) ch(1) by (simp add: char_of_def)
qed

lemma parse_request:
  assumes "CHR 0x00 \<notin> set name"
  shows "parse_setup_req (setup_req cap name) =
    (if (ucast cap :: u32) = 0 \<or> 2 ^ 30 < (ucast cap :: u32) then None else Some (ucast cap, name))"
proof -
  have "takeWhile (\<lambda>b. b \<noteq> 0) (bytes_of name @ [0]) = bytes_of name"
    using bytes_of_no_zero [OF assms] by (subst takeWhile_append2) auto
  then show ?thesis
    by (simp add: parse_setup_req_def setup_req_def Let_def)
qed

end
