(* ===== verification/ContextInv.thy ===== *)
theory ContextInv
  imports Endpoint
begin

text \<open>
  The invariant of an endpoint's context: the size average and the rate estimates are finite and in
  range, the fitted costs are usable, the health counters are below the debounce, the policy is
  resolved. \<open>adapt_init\<close> establishes it and every send keeps it, refused and failed ones included.
\<close>

definition ctx_ok :: "adapt_ctx \<Rightarrow> bool" where
  "ctx_ok c \<longleftrightarrow> (\<exists>a. cx_alpha c = Fin a \<and> weight a \<and> 0 < a) \<and> inrange 64 (cx_ewma_size c) \<and>
     rtctx_ok 64 (cx_rt c) \<and> learn_ok (cx_learn c) \<and> streak_ok (cx_health c) \<and>
     cx_policy c \<noteq> ADAPT_POLICY_DEFAULT"

text \<open>The part of the context the invariant reads, and the operations that leave it alone.\<close>

lemma upd_stats_ok [simp]: "ctx_ok (upd_stats f c) = ctx_ok c"
  by (simp add: ctx_ok_def upd_stats_def)

lemma ctx_ok_simps [simp]:
  "ctx_ok (c\<lparr>cx_retry_pending := b\<rparr>) = ctx_ok c" "ctx_ok (c\<lparr>cx_pending_route := r\<rparr>) = ctx_ok c"
  "ctx_ok (c\<lparr>cx_pending_size := n\<rparr>) = ctx_ok c" "ctx_ok (c\<lparr>cx_ring := rb\<rparr>) = ctx_ok c"
  "ctx_ok (c\<lparr>cx_rxbuf_cap := n\<rparr>) = ctx_ok c" "ctx_ok (c\<lparr>cx_negot_done := b\<rparr>) = ctx_ok c"
  "ctx_ok (c\<lparr>cx_neg_name := nm\<rparr>) = ctx_ok c" "ctx_ok (c\<lparr>cx_last_req_ns := t\<rparr>) = ctx_ok c"
  "ctx_ok (c\<lparr>cx_last_route := r\<rparr>) = ctx_ok c" "ctx_ok (c\<lparr>cx_decision_seq := n\<rparr>) = ctx_ok c"
  "ctx_ok (c\<lparr>cx_declog := dl\<rparr>) = ctx_ok c" "ctx_ok (c\<lparr>cx_uds := u\<rparr>) = ctx_ok c"
  by (simp_all add: ctx_ok_def)

lemma ctx_ok_updates:
  "ctx_ok c \<Longrightarrow> learn_ok l \<Longrightarrow> ctx_ok (c\<lparr>cx_learn := l\<rparr>)"
  "ctx_ok c \<Longrightarrow> rtctx_ok 64 rt \<Longrightarrow> ctx_ok (c\<lparr>cx_rt := rt\<rparr>)"
  "ctx_ok c \<Longrightarrow> streak_ok h \<Longrightarrow> ctx_ok (c\<lparr>cx_health := h\<rparr>)"
  by (simp_all add: ctx_ok_def)

subsection \<open>The stages of a send\<close>

lemma observe_ok: "send_observe c sz w = (now, c', w') \<Longrightarrow> ctx_ok c \<Longrightarrow> ctx_ok c'"
proof -
  assume o: "send_observe c sz w = (now, c', w')" and c: "ctx_ok c"
  obtain a where a: "cx_alpha c = Fin a" "weight a" using c by (auto simp: ctx_ok_def)
  have occ: "unat (occ :: csize) \<le> 2 ^ 64" for occ using unsigned_less [of occ, where ?'a = nat] by simp
  have rt: "rtctx_ok 64 (adapt_rtctx_sample (cx_rt c) sz occ t (cx_alpha c))" for occ t
    using rtctx_sample_ok [OF _ a(2) occ] c unfolding a(1) by (simp add: ctx_ok_def)
  have h: "streak_ok (snd (adapt_health_update_shm (cx_health c) occ cap v x y))" for occ cap v x y
    using observe_streak_ok [of "cx_health c" "\<lparr>ob_occ = occ, ob_cap = cap, ob_valid = v, ob_arrival = x, ob_drain = y\<rparr>"] c
    by (simp add: ctx_ok_def observe_def)
  show ?thesis using o c rt h
    by (auto simp: send_observe_def Let_def stats_now_ns_def intro!: ctx_ok_updates split: if_splits)
qed

lemma crossover_learn_ok: "learn_ok l \<Longrightarrow> learn_ok (snd (adapt_learn_crossover l cfg))"
  by (simp add: adapt_learn_crossover_def learn_ok_def Let_def)

lemma decide_learn_ok:
  assumes "adapt_policy_decide p cfg rt l h m e cur sz now clk = (r, d, l')" "\<And>x. l = Some x \<Longrightarrow> learn_ok x"
    and "l' = Some y"
  shows "learn_ok y"
  using assms crossover_learn_ok
  by (auto simp: adapt_policy_decide_def Let_def split: prod.split_asm if_split_asm option.split_asm)

lemma note_decision_ok:
  assumes "ctx_ok c" "\<And>y. l = Some y \<Longrightarrow> learn_ok y" shows "ctx_ok (note_decision c r d l)"
  using assms by (cases l) (auto simp: note_decision_def Let_def ctx_ok_updates)

lemma classify_ok:
  assumes "send_classify c sz now w = (r, c', w')" "ctx_ok c" shows "ctx_ok c'"
proof (cases "resumes c sz")
  case True
  then show ?thesis using assms by (simp add: send_classify_def)
next
  case False
  let ?c = "c\<lparr>cx_ewma_size := ewma_update (cx_ewma_size c) (cx_alpha c) sz\<rparr>"
  obtain a where a: "cx_alpha c = Fin a" "weight a" using assms(2) by (auto simp: ctx_ok_def)
  have "inrange 64 (ewma_update (cx_ewma_size c) (cx_alpha c) sz)"
    using assms(2) a inrange_d_of_u64 unfolding ewma_update_def
    by (auto intro!: inrange_ewma_step simp: ctx_ok_def)
  then have c1: "ctx_ok ?c" using assms(2) by (simp add: ctx_ok_def)
  obtain t0 w0 t1 w1 where t: "tick_if (cx_stats_on c) w = (t0, w0)" "tick_if (cx_stats_on ?c) w0 = (t1, w1)"
    by fastforce
  let ?d = "upd_stats (\<lambda>s. s\<lparr>st_router_ns := st_router_ns s + (t1 - t0)\<rparr>) ?c"
  obtain clk w2 where n: "stats_now_ns w1 = (clk, w2)" by fastforce
  obtain q d l where dec: "adapt_policy_decide (cx_policy ?d) (cx_cmcfg ?d) (Some (cx_rt ?d))
      (if ADAPT_POLICY_COST_AWARE \<le> cx_policy ?d then Some (cx_learn ?d) else None)
      (if cx_policy ?d = ADAPT_POLICY_FULL_ADAPTIVE then Some (cx_health ?d) else None)
      (cx_ring ?d \<noteq> None) (cx_ewma_size ?d) (cx_last_route ?d) sz now clk = (q, d, l)" by (rule prod_cases3)
  have c': "c' = note_decision ?d q d l"
    using assms(1) False unfolding send_classify_def Let_def
    by (simp only: if_False t n dec prod.case simp_thms) (elim Pair_inject, hypsubst, rule refl)
  have "learn_ok y" if "l = Some y" for y
    by (rule decide_learn_ok [OF dec _ that]) (use c1 in \<open>auto simp: ctx_ok_def upd_stats_def split: if_splits\<close>)
  then show ?thesis unfolding c' using c1 by (intro note_decision_ok) auto
qed

lemma guard_ok: "send_guard c sz r = (x, c') \<Longrightarrow> ctx_ok c \<Longrightarrow> ctx_ok c'"
  by (auto simp: send_guard_def escalated_def Let_def split: if_splits)

lemma map_ring_ok: "producer_map_ring c w = Some (rc, c', w') \<Longrightarrow> ctx_ok c \<Longrightarrow> ctx_ok c'"
  by (auto simp: producer_map_ring_def grow_rxbuf_def split: option.splits if_splits)

lemma await_ack_ok:
  assumes "await_ack c deadline w = Some y" "ctx_ok c" shows "ctx_ok (fst (snd y))"
  by (rule await_ack_invariant [where I = "\<lambda>c w. ctx_ok c" and J = "\<lambda>c w. ctx_ok c", OF assms(1)])
     (auto simp: assms(2) intro: map_ring_ok)

lemma negotiate_ok:
  assumes "send_negotiate c sz r w = Some (x, c', w')" "ctx_ok c" shows "ctx_ok c'"
proof -
  have q: "ctx_ok d'" if "request_ring d t v = Some (rc, d', v')" "ctx_ok d" for d t v rc d' v'
    using that by (auto simp: request_ring_def split: option.splits if_splits)
  have n: "ctx_ok d'" if "name_ring d v = (d', v')" "ctx_ok d" for d v d' v'
    using that by (auto simp: name_ring_def split: prod.splits if_splits)
  have e: "ctx_ok d'" if "producer_ensure_shm d t v = Some (rc, d', v')" "ctx_ok d" for d t v rc d' v'
    using that
    by (auto simp: producer_ensure_shm_def dest!: n q await_ack_ok split: option.splits prod.splits if_split_asm)
  show ?thesis using assms e
    by (auto simp: send_negotiate_def escalated_def split: option.splits prod.splits if_split_asm)
qed

lemma calibrate_ok: "calibrate c r sz t w = (c', w') \<Longrightarrow> ctx_ok c \<Longrightarrow> ctx_ok c'"
  using learn_observe_ok by (auto simp: calibrate_def stats_now_ns_def Let_def ctx_ok_def rtctx_ok_def)

lemma count_copy_ok: "count_copy sz t c w = (c', w') \<Longrightarrow> ctx_ok c' = ctx_ok c"
  by (auto simp: count_copy_def split: prod.splits)

lemma send_shm_ok: "send_shm c bs w = Some (rc, c', w') \<Longrightarrow> ctx_ok c \<Longrightarrow> ctx_ok c'"
  by (auto simp: send_shm_def Let_def dest!: count_copy_ok calibrate_ok split: option.splits prod.splits if_split_asm)

lemma send_uds_ok: "send_uds c bs w = Some (rc, c', w') \<Longrightarrow> ctx_ok c \<Longrightarrow> ctx_ok c'"
  by (auto simp: send_uds_def Let_def dest!: count_copy_ok calibrate_ok split: option.splits prod.splits if_split_asm)

lemma adapt_send_ok:
  assumes "adapt_send c data w = Some (rc, c', w')" "ctx_ok c" shows "ctx_ok c'"
proof (cases data)
  case None
  then show ?thesis using assms by (simp add: adapt_send_def)
next
  case (Some bs)
  let ?sz = "of_nat (length bs) :: csize"
  obtain now c1 w1 where o: "send_observe c ?sz w = (now, c1, w1)" by (metis prod_cases3)
  obtain r c2 w2 where k: "send_classify c1 ?sz now w1 = (r, c2, w2)" by (metis prod_cases3)
  obtain x c3 where g: "send_guard (upd_stats (\<lambda>s. s\<lparr>st_sends := st_sends s + 1\<rparr>) c2) ?sz r = (x, c3)" by fastforce
  have c3: "ctx_ok c3" using guard_ok [OF g] classify_ok [OF k] observe_ok [OF o] assms(2) by simp
  show ?thesis
    using assms Some o k g c3
    by (auto simp: adapt_send_def Let_def dest: negotiate_ok send_shm_ok send_uds_ok
        split: if_split_asm option.split_asm sum.split_asm prod.split_asm)
qed

subsection \<open>Initialisation\<close>

lemma resolve_alpha_ok:
  assumes "\<And>s. valid64 (ie_atof e s)" shows "\<exists>a. resolve_alpha e = Fin a \<and> weight a \<and> 0 < a"
proof -
  have dflt: "\<exists>a. ADAPT_EWMA_ALPHA = Fin a \<and> weight a \<and> 0 < a"
  proof -
    have b: "\<bar>2 / 10 :: rat\<bar> \<le> pw 0" by simp
    obtain r where r: "ADAPT_EWMA_ALPHA = Fin r" "0 < r"
      using round64_small_pos [of "-3" "2 / 10"] by (auto simp: ADAPT_EWMA_ALPHA_def power_int_minus)
    then have "r = fl (2 / 10)" "weight r"
      using round64_bounded [OF b] by (auto simp: ADAPT_EWMA_ALPHA_def weight_def)
    then show ?thesis using r by blast
  qed
  have "\<exists>a. d = Fin a \<and> weight a \<and> 0 < a" if "valid64 d" "0 < d" "d \<le> 1" for d
    using that by (cases d) (auto simp: weight_def zero_double_def one_double_def)
  then show ?thesis using dflt assms by (auto simp: resolve_alpha_def Let_def zero_double_def split: option.splits)
qed

lemma init_ctx_ok:
  assumes "\<And>s. valid64 (ie_atof e s)" shows "ctx_ok (init_ctx role cf ls ps e)"
proof -
  have l: "learn_ok (adapt_learn_init (resolve_costs e cf))"
    using learn_ok_defaults
    by (simp add: resolve_costs_def adapt_cost_cfg_from_env_def adapt_learn_init_def Let_def learn_ok_def)
  have p: "resolve_policy e q \<noteq> ADAPT_POLICY_DEFAULT" for q
    by (auto simp: resolve_policy_def policy_of_env_def split: option.split)
  have h: "streak_ok (adapt_health_init 8)" by (simp add: streak_ok_def adapt_health_init_def)
  show ?thesis
    using resolve_alpha_ok [OF assms] l p h rtctx_init_ok
    by (simp add: ctx_ok_def init_ctx_def Let_def zero_double_def)
qed

text \<open>What a successful \<open>adapt_init\<close> hands out.\<close>

lemma grow_rxbuf_result:
  assumes "grow_rxbuf c n w = (rc, c')"
  shows "ctx_ok c' = ctx_ok c" "cx_role c' = cx_role c" "cx_ring c' = cx_ring c" "cx_uds c' = cx_uds c"
    "cx_negot_done c' = cx_negot_done c" "cx_shm_capacity c' = cx_shm_capacity c" "cx_local_sock c' = cx_local_sock c"
    "cx_rxbuf_cap c \<le> cx_rxbuf_cap c'" "rc = 0 \<Longrightarrow> n \<le> cx_rxbuf_cap c'"
  using assms by (auto simp: grow_rxbuf_def errno_defs split: if_splits)

lemma open_socket_result:
  assumes "open_socket c e w = (0, Some c', w')"
  shows "ctx_ok c' = ctx_ok c" "cx_role c' = cx_role c" "cx_ring c' = cx_ring c"
    "cx_negot_done c' = cx_negot_done c" "cx_shm_capacity c' = cx_shm_capacity c"
    "cx_rxbuf_cap c \<le> cx_rxbuf_cap c'" "of_nat UDS_MAX_DGRAM \<le> cx_rxbuf_cap c'" "w' = w"
    "\<exists>ep. cx_uds c' = Some ep \<and> ue_path ep = cx_local_sock c \<and> length (ue_path ep) < 108"
proof -
  obtain rc ep where o: "uds_open (Some (cx_local_sock c)) (ie_open e) = (rc, ep)" by fastforce
  obtain grc d where g: "grow_rxbuf (c\<lparr>cx_uds := ep\<rparr>) (of_nat UDS_MAX_DGRAM) w = (grc, d)" by fastforce
  have z: "rc = 0" "grc = 0" "d = c'" and w: "w' = w"
    using assms o g by (auto simp: open_socket_def split: if_splits)
  note r = grow_rxbuf_result [OF g, unfolded z]
  show "ctx_ok c' = ctx_ok c" "cx_role c' = cx_role c" "cx_ring c' = cx_ring c"
    "cx_negot_done c' = cx_negot_done c" "cx_shm_capacity c' = cx_shm_capacity c"
    "cx_rxbuf_cap c \<le> cx_rxbuf_cap c'" "of_nat UDS_MAX_DGRAM \<le> cx_rxbuf_cap c'" "w' = w"
    using r w by simp_all
  show "\<exists>ep. cx_uds c' = Some ep \<and> ue_path ep = cx_local_sock c \<and> length (ue_path ep) < 108"
  proof -
    have "\<exists>x. ep = Some x \<and> ue_path x = cx_local_sock c \<and> length (ue_path x) < 108"
      using o z(1) by (auto simp: uds_open_def errno_defs split: if_splits)
    then show ?thesis using r(4) by simp
  qed
qed

lemma adapt_init_result:
  assumes "adapt_init role (Some cf) e w = Some (0, Some c, w')" "\<And>s. valid64 (ie_atof e s)"
  shows "ctx_ok c" "cx_role c = role" "cx_negot_done c \<longleftrightarrow> cx_ring c \<noteq> None"
    "cx_ring c \<noteq> None \<longleftrightarrow> ie_getenv e ''ADAPTIPC_EAGER_SHM'' \<noteq> None"
    "cx_shm_capacity c = (if cf_shm_capacity cf \<noteq> 0 then cf_shm_capacity cf else 65536)"
    "of_nat UDS_MAX_DGRAM \<le> cx_rxbuf_cap c" "cx_ring c \<noteq> None \<Longrightarrow> cx_shm_capacity c \<le> cx_rxbuf_cap c"
    "\<exists>ep. cx_uds c = Some ep \<and> cf_local_sock cf = Some (ue_path ep) \<and> length (ue_path ep) < 108"
proof -
  obtain ls ps where p: "cf_local_sock cf = Some ls" "cf_peer_sock cf = Some ps"
    using assms(1) by (auto simp: adapt_init_def errno_defs split: option.splits)
  define c0 where "c0 = init_ctx role cf ls ps e"
  have c0: "ctx_ok c0" "cx_role c0 = role" "cx_ring c0 = None" "\<not> cx_negot_done c0" "cx_local_sock c0 = ls"
    "cx_shm_capacity c0 = (if cf_shm_capacity cf \<noteq> 0 then cf_shm_capacity cf else 65536)"
    "cx_eager_shm c0 \<longleftrightarrow> ie_getenv e ''ADAPTIPC_EAGER_SHM'' \<noteq> None"
    unfolding c0_def by (simp_all add: init_ctx_ok [OF assms(2)]) (simp_all add: init_ctx_def Let_def)
  obtain d v where o: "open_socket d e v = (0, Some c, w')" and d: "ctx_ok d" "cx_role d = role"
      "cx_local_sock d = ls" "cx_shm_capacity d = cx_shm_capacity c0"
      "cx_negot_done d \<longleftrightarrow> cx_ring d \<noteq> None" "cx_ring d \<noteq> None \<longleftrightarrow> cx_eager_shm c0"
      "cx_ring d \<noteq> None \<Longrightarrow> cx_shm_capacity d \<le> cx_rxbuf_cap d"
  proof (cases "cx_eager_shm c0")
    case False
    then have "open_socket c0 e w = (0, Some c, w')"
      using assms(1) p by (auto simp: adapt_init_def c0_def [symmetric] Let_def errno_defs split: if_splits)
    then show ?thesis using that [of c0 w] False c0 by simp
  next
    case True
    obtain rc rb v where er: "eager_ring c0 w = Some (rc, rb, v)"
      using assms(1) p True by (auto simp: adapt_init_def c0_def [symmetric] Let_def errno_defs split: if_splits option.splits)
    obtain grc d where g: "grow_rxbuf (c0\<lparr>cx_ring := rb, cx_negot_done := True\<rparr>) (cx_shm_capacity c0) v = (grc, d)"
      by fastforce
    have z: "rc = 0" "grc = 0" and o: "open_socket d e v = (0, Some c, w')"
      using assms(1) p True er g by (auto simp: adapt_init_def c0_def [symmetric] Let_def errno_defs split: if_splits)
    have "rb \<noteq> None" using er z(1)
      by (auto simp: eager_ring_def attach_ring_def shm_ring_create_def shm_ring_attach_def ring_map_def Let_def
          errno_defs split: if_split_asm option.splits shm_ring_role.splits)
    then show ?thesis using that [OF o] grow_rxbuf_result [OF g] z(2) c0 True by simp
  qed
  note r = open_socket_result [OF o]
  show "ctx_ok c" "cx_role c = role" "cx_negot_done c \<longleftrightarrow> cx_ring c \<noteq> None"
    "cx_ring c \<noteq> None \<longleftrightarrow> ie_getenv e ''ADAPTIPC_EAGER_SHM'' \<noteq> None"
    "cx_shm_capacity c = (if cf_shm_capacity cf \<noteq> 0 then cf_shm_capacity cf else 65536)"
    "of_nat UDS_MAX_DGRAM \<le> cx_rxbuf_cap c"
    "\<exists>ep. cx_uds c = Some ep \<and> cf_local_sock cf = Some (ue_path ep) \<and> length (ue_path ep) < 108"
    using r d p c0 by auto
  show "cx_ring c \<noteq> None \<Longrightarrow> cx_shm_capacity c \<le> cx_rxbuf_cap c"
    using r(3,5,6) d(7) by (metis order_trans)
qed

end
