(* ===== verification/Session.thy ===== *)
theory Session
  imports Delivery ContextInv Runs
begin

text \<open>
  The properties of whole endpoints: sequences of attempts after \<open>adapt_init\<close>, one send, its
  retry, its delivery, and the corner cases of the control channel and of the socket-only receive.
\<close>

subsection \<open>Example endpoints\<close>

definition quiet_map :: map_env where
  "quiet_map = \<lparr>me_shm_open = 3, me_object = page_at 0 0, me_fstat = 0, me_ftruncate = 0, me_mmap = 0,
     me_calloc = True, me_init_reads = []\<rparr>"

definition quiet_world :: "shm_obj \<Rightarrow> uds_script \<Rightarrow> world" where
  "quiet_world obj sc = \<lparr>w_clock = (\<lambda>n. of_nat n * 1000 + 1000000000), w_tick = 0, w_obj = obj, w_map = quiet_map,
     w_realloc = True, w_uds = sc, w_wire = [], w_rounds = [], w_peer = [], w_pid = 42, w_names = 0\<rparr>"

definition eager_env :: init_env where
  "eager_env = \<lparr>ie_getenv = (\<lambda>s. if s = ''ADAPTIPC_EAGER_SHM'' then Some ''1'' else None), ie_atof = (\<lambda>_. Fin 0),
     ie_calloc = True, ie_open = \<lparr>oe_calloc = True, oe_socket = 5, oe_bind = 0\<rparr>\<rparr>"

definition page_cfg :: adapt_config where
  "page_cfg = \<lparr>cf_shm_name = None, cf_local_sock = Some ''/tmp/p'', cf_peer_sock = Some ''/tmp/c'',
     cf_shm_capacity = 4096, cf_nonblocking_send = True, cf_policy = ADAPT_POLICY_DEFAULT,
     cf_qos = ADAPT_QOS_BALANCED, cf_latency_budget_us = 0\<rparr>"

definition sends_only :: "sys_ret list \<Rightarrow> uds_script" where
  "sends_only rs = \<lparr>us_send = rs, us_poll = [], us_recv = []\<rparr>"

definition page_producer :: adapt_ctx where
  "page_producer = (init_ctx ADAPT_ROLE_PRODUCER page_cfg ''/tmp/p'' ''/tmp/c'' eager_env)
     \<lparr>cx_ring := Some page_ring, cx_uds := Some example_ep, cx_rxbuf_cap := 4096\<rparr>"

definition page_consumer :: adapt_ctx where
  "page_consumer = page_producer\<lparr>cx_role := ADAPT_ROLE_CONSUMER\<rparr>"

lemma page_producer_simps [simp]:
  "cx_role page_producer = ADAPT_ROLE_PRODUCER" "cx_ring page_producer = Some page_ring"
  "cx_uds page_producer = Some example_ep" "cx_rxbuf_cap page_producer = 4096"
  "cx_nonblocking_send page_producer" "cx_shm_capacity page_producer = 4096"
  "\<not> cx_retry_pending page_producer"
  by (simp_all add: page_producer_def init_ctx_def page_cfg_def Let_def)

lemma page_consumer_simps [simp]:
  "cx_role page_consumer = ADAPT_ROLE_CONSUMER" "cx_ring page_consumer = Some page_ring"
  "cx_uds page_consumer = Some example_ep" "cx_rxbuf_cap page_consumer = 4096"
  by (simp_all add: page_consumer_def)

lemma quiet_world_simps [simp]:
  "w_obj (quiet_world obj sc) = obj" "w_uds (quiet_world obj sc) = sc" "w_wire (quiet_world obj sc) = []"
  "w_peer (quiet_world obj sc) = []" "w_map (quiet_world obj sc) = quiet_map" "w_realloc (quiet_world obj sc)"
  by (simp_all add: quiet_world_def)

lemma page_endpoint:
  "ring_holds page_ring obj ms \<Longrightarrow> obj_taken obj = gs \<Longrightarrow> list_all sys_ret_ok (us_send sc) \<Longrightarrow>
     endpoint_at page_producer (quiet_world obj sc) ms [] gs"
  by (simp add: endpoint_at_def queue_at_def capacity_ok_def data_frames_def word_le_nat_alt)

subsection \<open>Attempts after initialisation\<close>

text \<open>A sequence of attempts to send, each with its own world.\<close>

definition attempt :: "u8 list option \<times> world \<Rightarrow> adapt_ctx \<Rightarrow> adapt_ctx option" where
  "attempt x c = map_option (\<lambda>(_, c', _). c') (adapt_send c (fst x) (snd x))"

abbreviation attempts :: "adapt_ctx \<Rightarrow> (u8 list option \<times> world) list \<Rightarrow> adapt_ctx option" where
  "attempts c xs \<equiv> run_ops attempt xs c"

interpretation sending: keeps_invariant attempt "\<lambda>_. True" ctx_ok
  by unfold_locales (auto simp: attempt_def dest: adapt_send_ok)

text \<open>C25: After a successful \<open>adapt_init\<close>, however the environment answers, any sequence of
  attempts to send keeps the context: the weight is in \<open>(0, 1]\<close>, the size average and the rate
  estimates are finite and in range, the fitted costs are usable, the health counters stay below
  the debounce and the policy is a resolved one.\<close>

lemma adapt_sends_keep_context:
  assumes "adapt_init role (Some cf) e w = Some (0, Some c, w')" "\<And>s. valid64 (ie_atof e s)"
    and "attempts c xs = Some c'"
  shows "ctx_ok c'"
  by (rule sending.run [OF assms(3) adapt_init_result(1) [OF assms(1,2)]]) (simp add: list_all_iff)

text \<open>C26: A successful \<open>adapt_init\<close> hands out a context of the given role with a bound socket and a
  scratch buffer for a datagram; it has a ring, and a buffer of its capacity, exactly when the
  eager set-up is requested.\<close>

lemma adapt_init_hands_out:
  assumes "adapt_init role (Some cf) e w = Some (0, Some c, w')" "\<And>s. valid64 (ie_atof e s)"
  shows "cx_role c = role \<and> (cx_negot_done c \<longleftrightarrow> cx_ring c \<noteq> None) \<and>
    (cx_ring c \<noteq> None \<longleftrightarrow> ie_getenv e ''ADAPTIPC_EAGER_SHM'' \<noteq> None) \<and>
    (\<exists>ep. cx_uds c = Some ep \<and> cf_local_sock cf = Some (ue_path ep) \<and> length (ue_path ep) < 108) \<and>
    of_nat UDS_MAX_DGRAM \<le> cx_rxbuf_cap c \<and> (cx_ring c = None \<or> cx_shm_capacity c \<le> cx_rxbuf_cap c)"
  using adapt_init_result [OF assms] by blast

definition page_name :: shm_ring where
  "page_name = \<lparr>rb_capacity = 4096, rb_name = ''/adaptipc_shm_0'', rb_fd = 3\<rparr>"

lemma page_name_geom: "ring_geom page_name 12"
  by (simp add: ring_geom_def page_name_def)

lemma page_init:
  "\<exists>c w'. adapt_init ADAPT_ROLE_PRODUCER (Some page_cfg) eager_env (quiet_world (page_at 0 0) (sends_only []))
     = Some (0, Some c, w') \<and> cx_ring c = Some page_name \<and> cx_nonblocking_send c \<and>
     w_obj w' = init_header 4096 (page_at 0 0)"
proof -
  have cap: "round_pow2 4096 = Some 4096"
    by (simp add: round_pow2_def round_pow2_loop.simps)
  have sz: "obj_size (page_at 0 0) = sizeof_shm_ring_header + SHM_HDR_PAD + 4096"
    by (simp add: page_at_def sizeof_shm_ring_header_def SHM_HDR_PAD_def)
  show ?thesis
    by (simp add: adapt_init_def page_cfg_def eager_ring_def init_ctx_def Let_def eager_env_def open_socket_def
        shm_ring_create_def ring_map_def quiet_map_def cap grow_rxbuf_def uds_open_def UDS_MAX_DGRAM_def sz page_name_def)
qed

lemma eager_atof: "valid64 (ie_atof eager_env s)"
  by (simp add: eager_env_def)

lemma adapt_init_hands_out_witness:
  "\<exists>c w'. adapt_init ADAPT_ROLE_PRODUCER (Some page_cfg) eager_env (quiet_world (page_at 0 0) (sends_only []))
     = Some (0, Some c, w') \<and> cx_ring c \<noteq> None \<and> cx_negot_done c"
proof -
  obtain c w' where i: "adapt_init ADAPT_ROLE_PRODUCER (Some page_cfg) eager_env
      (quiet_world (page_at 0 0) (sends_only [])) = Some (0, Some c, w')" using page_init by blast
  show ?thesis using adapt_init_hands_out [OF i eager_atof] i by (auto simp: eager_env_def)
qed

subsection \<open>One send\<close>

text \<open>C5: A send puts its message, with its tag, exactly once behind the queue of the ring or exactly
  once on the wire if it returns 0, and on neither if it fails, unless the kernel cut a datagram
  (\<open>-EIO\<close>). What is gone from the head of the ring the consumer's pops have handed out meanwhile, in order. This holds through negotiation,
  escalation, blocking and retries.\<close>

lemma adapt_send_exactly_once:
  assumes "adapt_send c (Some bs) w = Some (rc, c', w')" "endpoint_at c w ms fs gs" "length bs < 2 ^ 62"
  shows "\<exists>j. if rc = 0 then endpoint_at c' w' (drop j ms @ [TAG_SHM # bs]) fs (gs @ take j ms) \<or>
      endpoint_at c' w' (drop j ms) (fs @ [TAG_UDS # bs]) (gs @ take j ms)
    else endpoint_at c' w' (drop j ms) fs (gs @ take j ms) \<or>
      rc = - EIO \<and> (\<exists>n. endpoint_at c' w' (drop j ms) (fs @ data_frames [take n (TAG_UDS # bs)]) (gs @ take j ms))"
  using adapt_send_result [OF assms] by (simp add: sent_once_def)

text \<open>With a mapped ring and \<open>nonblocking_send\<close> a send always returns, if the kernel gives one
  answer to \<open>sendto\<close> that is not retried.\<close>

lemma adapt_send_returns:
  assumes "cx_ring c = Some rb" "ring_holds rb (w_obj w) ms" "cx_nonblocking_send c" "length bs < 2 ^ 62"
    and "\<exists>r\<in>set (us_send (w_uds w)). case r of SysOk _ \<Rightarrow> True | SysErr e \<Rightarrow> \<not> send_retry e"
  shows "\<exists>rc c' w'. adapt_send c (Some bs) w = Some (rc, c', w')"
  using mapped_send_returns [OF assms(1-4)] assms(5) by (auto simp: answers_def)

lemma page_answers: "answers (us_send (sends_only [SysErr ENOBUFS, SysOk 3]))"
  by (simp add: answers_def sends_only_def)

lemma page_sends: "\<exists>rc c' w'. adapt_send page_producer (Some [7, 8])
    (quiet_world (page_at 0 0) (sends_only [SysErr ENOBUFS, SysOk 3])) = Some (rc, c', w')"
  using mapped_send_returns [of page_producer page_ring _ "[]" "[7, 8]"] page_holds [of 0 0] page_answers by simp

lemma adapt_send_returns_witness:
  "\<exists>rc c' w'. adapt_send page_producer (Some [7, 8])
    (quiet_world (page_at 0 0) (sends_only [SysErr ENOBUFS, SysOk 3])) = Some (rc, c', w')"
  by (rule adapt_send_returns [of _ page_ring _ "[]"])
     (simp_all add: page_holds sends_only_def send_retry_def)

lemma adapt_send_exactly_once_witness:
  "\<exists>rc c' w'. adapt_send page_producer (Some [7, 8])
      (quiet_world (page_at 0 0) (sends_only [SysErr ENOBUFS, SysOk 3])) = Some (rc, c', w') \<and>
    (rc = 0 \<longrightarrow> endpoint_at c' w' [[1, 7, 8]] [] [] \<or> endpoint_at c' w' [] [[2, 7, 8]] [])"
proof -
  obtain rc c' w' where s: "adapt_send page_producer (Some [7, 8])
      (quiet_world (page_at 0 0) (sends_only [SysErr ENOBUFS, SysOk 3])) = Some (rc, c', w')" using page_sends by blast
  have e: "endpoint_at page_producer (quiet_world (page_at 0 0) (sends_only [SysErr ENOBUFS, SysOk 3])) [] [] []"
    by (rule page_endpoint [OF page_holds]) (simp_all add: sends_only_def errno_defs)
  show ?thesis using s adapt_send_exactly_once [OF s e] by (auto simp: TAG_SHM_def TAG_UDS_def)
qed

lemma adapt_sends_keep_context_witness:
  "\<exists>c w' w2 c'. adapt_init ADAPT_ROLE_PRODUCER (Some page_cfg) eager_env (quiet_world (page_at 0 0) (sends_only []))
     = Some (0, Some c, w') \<and> attempts c [(Some [7, 8], w2), (Some [], w')] = Some c' \<and> ctx_ok c'"
proof -
  obtain c w' where i: "adapt_init ADAPT_ROLE_PRODUCER (Some page_cfg) eager_env
      (quiet_world (page_at 0 0) (sends_only [])) = Some (0, Some c, w')"
    and r: "cx_ring c = Some page_name" "cx_nonblocking_send c" "w_obj w' = init_header 4096 (page_at 0 0)"
    using page_init by blast
  let ?w2 = "quiet_world (w_obj w') (sends_only [SysErr ENOBUFS, SysOk 3])"
  obtain rc c1 w1 where s: "adapt_send c (Some [7, 8]) ?w2 = Some (rc, c1, w1)"
    using mapped_send_returns [OF r(1), of ?w2 "[]" "[7, 8]"] init_holds [OF page_name_geom] r(2,3) page_answers by auto
  have a: "attempts c [(Some [7, 8], ?w2), (Some [], w')] = Some c1" using s by (simp add: attempt_def adapt_send_def)
  show ?thesis using i a adapt_sends_keep_context [OF i eager_atof a] by blast
qed

text \<open>A message refused with \<open>-EAGAIN\<close> by the ring is resumed, not reclassified: the next
  attempt with a message of the same size uses the ring again and leaves the size average, the
  sticky route and the decision log as they were.\<close>

lemma adapt_send_retry_resumes:
  assumes "adapt_send c (Some bs) w = Some (- EAGAIN, c1, w1)" "cx_ring c \<noteq> None"
    and "SysErr EAGAIN \<notin> set (us_send (w_uds w))"
    and "adapt_send c1 (Some bs') w2 = Some (rc, c2, w3)" "length bs' = length bs"
  shows "cx_pending_route c1 = ADAPT_ROUTE_SHM \<and> cx_ewma_size c2 = cx_ewma_size c1 \<and>
    cx_last_route c2 = cx_last_route c1 \<and> cx_declog c2 = cx_declog c1 \<and> w_wire w3 = w_wire w2"
  using refused_send [OF assms(1-3)] resumed_send [OF assms(4)] assms(2,5)
  by (auto simp: pending_def classified_def)

text \<open>On the page with both cursors at 2000 a message of 3000 bytes fits on neither side.\<close>

definition stuck_producer :: adapt_ctx where
  "stuck_producer = page_producer\<lparr>cx_retry_pending := True, cx_pending_size := 3000, cx_pending_route := ADAPT_ROUTE_SHM\<rparr>"

lemma stuck_refused:
  assumes "answers (us_send sc)"
  shows "\<exists>c' w'. adapt_send stuck_producer (Some (replicate 3000 9)) (quiet_world (page_at 2000 7) sc) = Some (- EAGAIN, c', w')"
proof -
  let ?bs = "replicate 3000 9" and ?w = "quiet_world (page_at 2000 7) sc"
  have c: "cx_role stuck_producer = ADAPT_ROLE_PRODUCER" "cx_ring stuck_producer = Some page_ring"
    "cx_nonblocking_send stuck_producer" "cx_shm_capacity stuck_producer = 4096"
    "pending stuck_producer = (True, of_nat (length ?bs), ADAPT_ROUTE_SHM)"
    by (simp_all add: stuck_producer_def pending_def)
  obtain rc c' w' where s: "adapt_send stuck_producer (Some ?bs) ?w = Some (rc, c', w')"
    using mapped_send_returns [OF c(2), of ?w "[]" ?bs] page_holds [of 2000 7] c(3) assms by auto
  obtain c3 w3 where st: "adapt_send stuck_producer (Some ?bs) ?w = send_shm c3 ?bs w3" "same_io stuck_producer ?w c3 w3"
    using resumed_stages [OF c(1) _ _ c(5), of ?w] c(2,4) by auto
  have io: "cx_ring c3 = Some page_ring" "cx_nonblocking_send c3" "w_obj w3 = page_at 2000 7"
    using st(2) c(2,3) by (simp_all add: same_io_def)
  have p: "shm_ring_push_scatter (Some page_ring) (Some (shm_segs ?bs)) (page_at 2000 7) = Some (rc, w_obj w')"
    using send_shm_nonblocking [of c3 ?bs w3 rc c' w'] s st(1) io by auto
  have "shm_ring_push (Some page_ring) (Some (gather (shm_segs ?bs))) (page_at 2000 7) = (- EAGAIN, page_at 2000 7)"
    by (rule push_empty_eagain [OF page_holds]) (simp_all add: page_cap page_pos)
  then have "rc = - EAGAIN"
    using p push_scatter_result [OF page_holds shm_segs_ok, of ?bs 2000 7] by (simp add: page_cap)
  then show ?thesis using s by blast
qed

lemma adapt_send_retry_resumes_witness:
  "\<exists>c1 w1 rc c2 w3. adapt_send stuck_producer (Some (replicate 3000 9)) (quiet_world (page_at 2000 7) (sends_only [SysOk 1]))
      = Some (- EAGAIN, c1, w1) \<and>
    adapt_send c1 (Some (replicate 3000 9)) (quiet_world (page_at 0 0) (sends_only [SysOk 1])) = Some (rc, c2, w3) \<and>
    cx_ewma_size c2 = cx_ewma_size c1 \<and> cx_last_route c2 = cx_last_route c1"
proof -
  let ?sc = "sends_only [SysOk 1]"
  have ans: "answers (us_send ?sc)" by (simp add: answers_def sends_only_def)
  obtain c1 w1 where s1: "adapt_send stuck_producer (Some (replicate 3000 9)) (quiet_world (page_at 2000 7) ?sc)
      = Some (- EAGAIN, c1, w1)" using stuck_refused [OF ans] by blast
  have ring: "cx_ring stuck_producer \<noteq> None" "SysErr EAGAIN \<notin> set (us_send (w_uds (quiet_world (page_at 2000 7) ?sc)))"
    by (simp_all add: stuck_producer_def sends_only_def)
  have c1: "cx_ring c1 = Some page_ring" "cx_nonblocking_send c1"
    using refused_send [OF s1 ring] by (simp_all add: stuck_producer_def)
  have "\<exists>y. adapt_send c1 (Some (replicate 3000 9)) (quiet_world (page_at 0 0) ?sc) = Some y"
    using mapped_send_returns [OF c1(1), of "quiet_world (page_at 0 0) ?sc" "[]"] page_holds [of 0 0] c1(2) ans by simp
  then obtain rc c2 w3 where s2: "adapt_send c1 (Some (replicate 3000 9)) (quiet_world (page_at 0 0) ?sc) = Some (rc, c2, w3)"
    by auto
  show ?thesis using s1 s2 adapt_send_retry_resumes [OF s1 ring s2] by auto
qed

subsection \<open>Delivery\<close>

text \<open>C27: What one endpoint sends the other receives, byte for byte, whichever transport the sender
  chose: after a successful send into an empty channel, \<open>adapt_recv\<close> with a large enough buffer
  returns exactly the payload. The receiver has a ring of the sender's capacity (or both have none) and its
  socket holds exactly the data frames the sender put on the wire.\<close>

lemma send_recv_roundtrip:
  assumes "adapt_send p (Some bs) wp = Some (0, p', wp')" "endpoint_at p wp [] fs gs" "length bs < 2 ^ 62"
    and "data_frames (w_wire wp') = fs @ new"
    and "cx_role q = ADAPT_ROLE_CONSUMER" "map_option rb_capacity (cx_ring q) = map_option rb_capacity (cx_ring p')" "cx_uds q = Some ep"
    and "w_obj wq = w_obj wp'" "w_peer wq = []"
    and "us_poll (w_uds wq) = [PollReady]" "us_recv (w_uds wq) = map RecvMsg new"
    and "length bs + 1 \<le> unat (cx_rxbuf_cap q)" "length bs \<le> unat mx" "2 \<le> mx"
  shows "\<exists>q' wq'. adapt_recv True q mx wq = Some ((int (length bs), bs), q', wq')"
proof (rule sent_then_received [OF adapt_send_result [OF assms(1-3)] assms(4-11) _ assms(3,12-14)])
  show "bs \<noteq> []" using assms(1) by (auto simp: adapt_send_def errno_defs)
qed

text \<open>A message of two bytes whose retry is pinned to the socket.\<close>

definition socket_producer :: adapt_ctx where
  "socket_producer = page_producer\<lparr>cx_retry_pending := True, cx_pending_size := 2, cx_pending_route := ADAPT_ROUTE_UDS\<rparr>"

lemma socket_sends:
  "\<exists>c' w'. adapt_send socket_producer (Some [7, 8]) (quiet_world (page_at 0 0) (sends_only [SysErr EINTR, SysOk 3]))
     = Some (0, c', w') \<and> w_wire w' = [[2, 7, 8]] \<and> w_obj w' = page_at 0 0 \<and> cx_ring c' = Some page_ring"
proof -
  let ?w = "quiet_world (page_at 0 0) (sends_only [SysErr EINTR, SysOk 3])"
  have c: "cx_role socket_producer = ADAPT_ROLE_PRODUCER" "cx_ring socket_producer = Some page_ring"
    "cx_uds socket_producer = Some example_ep"
    "cx_nonblocking_send socket_producer" "pending socket_producer = (True, of_nat (length [7 :: u8, 8]), ADAPT_ROUTE_UDS)"
    by (simp_all add: socket_producer_def pending_def)
  have ans: "answers (us_send (w_uds ?w))" by (simp add: answers_def sends_only_def)
  obtain rc c' w' where s: "adapt_send socket_producer (Some [7, 8]) ?w = Some (rc, c', w')"
    using mapped_send_returns [OF c(2), of ?w "[]" "[7, 8]"] page_holds [of 0 0] c(4) ans by auto
  obtain c3 w3 where st: "adapt_send socket_producer (Some [7, 8]) ?w = send_uds c3 [7, 8] w3" "same_io socket_producer ?w c3 w3"
    using resumed_stages [OF c(1) _ _ c(5), of ?w] c(2) by (auto simp: UDS_MAX_DGRAM_def)
  have io: "cx_ring c3 = Some page_ring" "cx_uds c3 = Some example_ep" "w_uds w3 = sends_only [SysErr EINTR, SysOk 3]"
    "w_wire w3 = []" "w_obj w3 = page_at 0 0" using st(2) c(2,3) by (simp_all add: same_io_def)
  obtain sent sc where u: "uds_send (cx_uds c3) (Some (cx_peer_sock c3)) (Some (TAG_UDS # [7, 8])) (w_uds w3) = Some (rc, sent, sc)"
    "w_wire w' = w_wire w3 @ sent" "w_obj w' = w_obj w3" "cx_ring c' = cx_ring c3"
    using send_uds_wire s st(1) by metis
  have "rc = 0 \<and> sent = [[2, 7, 8]]"
    using u(1) io(2,3) by (auto simp: uds_send_def sends_only_def send_retry_def UDS_MAX_DGRAM_def TAG_UDS_def)
  then show ?thesis using s u(2-4) io by simp
qed

lemma send_recv_roundtrip_witness:
  "\<exists>p' wp' q' wq'. adapt_send socket_producer (Some [7, 8])
       (quiet_world (page_at 0 0) (sends_only [SysErr EINTR, SysOk 3])) = Some (0, p', wp') \<and>
     adapt_recv True page_consumer 64 (quiet_world (w_obj wp')
       \<lparr>us_send = [], us_poll = [PollReady], us_recv = map RecvMsg (w_wire wp')\<rparr>) = Some ((2, [7, 8]), q', wq')"
proof -
  let ?w = "quiet_world (page_at 0 0) (sends_only [SysErr EINTR, SysOk 3])"
  obtain p' wp' where s: "adapt_send socket_producer (Some [7, 8]) ?w = Some (0, p', wp')"
    and r: "w_wire wp' = [[2, 7, 8]]" "w_obj wp' = page_at 0 0" "cx_ring p' = Some page_ring" using socket_sends by blast
  have "endpoint_at page_producer ?w [] [] []"
    by (rule page_endpoint [OF page_holds]) (simp_all add: sends_only_def errno_defs)
  then have e: "endpoint_at socket_producer ?w [] [] []"
    by (simp add: socket_producer_def endpoint_at_def queue_at_def)
  have f: "data_frames (w_wire wp') = [] @ w_wire wp'"
    by (simp add: r(1) data_frames_def ADAPT_WIRE_TAG_CTRL_def)
  let ?wq = "quiet_world (w_obj wp') \<lparr>us_send = [], us_poll = [PollReady], us_recv = map RecvMsg (w_wire wp')\<rparr>"
  have "\<exists>q' wq'. adapt_recv True page_consumer 64 ?wq = Some ((int (length [7 :: u8, 8]), [7, 8]), q', wq')"
    by (rule send_recv_roundtrip [OF s e _ f, of _ example_ep]) (simp_all add: r(3))
  then show ?thesis using s by auto
qed

text \<open>C38: The head of the ring is handed over with its length; if it does not fit the caller's
  buffer the call returns \<open>-EMSGSIZE\<close> and the message is gone from the ring all the same.\<close>

lemma adapt_recv_ring_head:
  assumes "cx_role c = ADAPT_ROLE_CONSUMER" "cx_ring c = Some rb"
    and "ring_holds rb (w_obj (peer_turn c w)) ((t # bs) # ms)" "length bs + 1 \<le> unat (cx_rxbuf_cap c)" "2 \<le> mx"
  shows "\<exists>c' w'. adapt_recv True c mx w =
      Some (if unat mx < length bs then (- EMSGSIZE, []) else (int (length bs), bs), c', w') \<and>
      ring_holds rb (w_obj w') ms"
  using recv_ring_head [OF assms] by auto

lemma adapt_recv_ring_head_witness:
  "\<exists>s c' w'. ring_holds page_ring s [[1, 2, 3, 4]] \<and>
     adapt_recv True page_consumer 2 (quiet_world s (sends_only [])) = Some ((- EMSGSIZE, []), c', w') \<and>
     ring_holds page_ring (w_obj w') []"
proof -
  obtain rc s where p: "shm_ring_push (Some page_ring) (Some [1, 2, 3, 4]) (page_at 0 0) = (rc, s)" by fastforce
  have s: "ring_holds page_ring s [[1, 2, 3, 4]]"
    using push_result [OF page_holds _ p] by (simp add: page_cap page_room)
  show ?thesis
    using s adapt_recv_ring_head [of page_consumer page_ring "quiet_world s (sends_only [])" 1 "[2, 3, 4]" "[]" 2]
    by (auto simp: peer_turn_idle)
qed

subsection \<open>The control channel\<close>

text \<open>C28: The receiver reads from a set-up request exactly the name the sender wrote and the capacity
  modulo \<open>2 ^ 32\<close>; a request whose capacity is a multiple of \<open>2 ^ 32\<close> or more than \<open>2 ^ 30\<close> modulo it is
  dropped without an answer, so such a ring is never negotiated.\<close>

lemma setup_req_roundtrip:
  assumes "CHR 0x00 \<notin> set name"
  shows "parse_setup_req (setup_req cap name) =
    (if (ucast cap :: u32) = 0 \<or> 2 ^ 30 < (ucast cap :: u32) then None else Some (ucast cap, name))"
  by (rule parse_request [OF assms])

lemma setup_req_roundtrip_witness:
  "parse_setup_req (setup_req 65536 ''/adaptipc_shm_42_1'') = Some (65536, ''/adaptipc_shm_42_1'')"
  using setup_req_roundtrip [of "''/adaptipc_shm_42_1''" 65536] by simp

lemma mapped_request:
  assumes "cx_ring c = Some rb" "CHR 0x00 \<notin> set name" "0 < (ucast cap :: u32)" "(ucast cap :: u32) \<le> 2 ^ 30"
  shows "handle_control c (setup_req cap name) w =
    map_option (\<lambda>(_, w). (upd_stats (\<lambda>s. s\<lparr>st_shm_setup_acks := st_shm_setup_acks s + 1\<rparr>) c, w))
      (send_frame c (setup_ack 0) w)"
proof -
  have parse: "parse_setup_req (setup_req cap name) = Some (ucast cap, name)"
    using parse_request [OF assms(2), of cap] assms(3,4) by (auto simp: not_less)
  have frame: "2 \<le> length (setup_req cap name)" "setup_req cap name ! 1 = ADAPT_CTRL_SHM_SETUP_REQ"
    by (simp_all add: setup_req_def)
  have att: "consumer_attach c (ucast cap) name w = Some (0, c, w)"
    using assms(1) by (simp add: consumer_attach_def)
  show ?thesis using frame
    by (simp add: handle_control_def parse att split: option.split)
qed

text \<open>A consumer that has a ring acknowledges a request for any ring with status 0 and keeps
  polling its own: the name in the request is not compared with that of the ring it has.\<close>

lemma second_ring_acknowledged:
  assumes "cx_ring c = Some rb" "CHR 0x00 \<notin> set name" "0 < (ucast cap :: u32)" "(ucast cap :: u32) \<le> 2 ^ 30"
    and "handle_control c (setup_req cap name) w = Some (c', w')"
    and "cx_uds c = Some ep" "us_send (w_uds w) = SysOk 3 # rs"
  shows "w_wire w' = w_wire w @ [setup_ack 0] \<and> is_setup_ack (setup_ack 0) \<and> cx_ring c' = Some rb \<and>
    w_obj w' = w_obj w"
proof -
  have "send_frame c (setup_ack 0) w = Some (0, w\<lparr>w_uds := (w_uds w)\<lparr>us_send := rs\<rparr>, w_wire := w_wire w @ [setup_ack 0]\<rparr>)"
    using assms(6,7) by (simp add: send_frame_def uds_send_def setup_ack_def UDS_MAX_DGRAM_def)
  then have "c' = upd_stats (\<lambda>s. s\<lparr>st_shm_setup_acks := st_shm_setup_acks s + 1\<rparr>) c"
    "w' = w\<lparr>w_uds := (w_uds w)\<lparr>us_send := rs\<rparr>, w_wire := w_wire w @ [setup_ack 0]\<rparr>"
    using assms(5) unfolding mapped_request [OF assms(1-4)] by simp_all
  then show ?thesis using assms(1)
    by (simp add: is_setup_ack_def setup_ack_def ADAPT_WIRE_TAG_CTRL_def ADAPT_CTRL_SHM_SETUP_ACK_def)
qed

lemma second_ring_acknowledged_witness:
  "\<exists>c' w'. handle_control page_consumer (setup_req 8192 ''/other'') (quiet_world (page_at 0 0) (sends_only [SysOk 3]))
     = Some (c', w') \<and> w_wire w' = [setup_ack 0] \<and> cx_ring c' = Some page_ring"
proof -
  let ?w = "quiet_world (page_at 0 0) (sends_only [SysOk 3])"
  have "\<exists>y. send_frame page_consumer (setup_ack 0) ?w = Some y"
    by (rule send_frame_answers) (simp add: answers_def sends_only_def)
  then obtain c' w' where h: "handle_control page_consumer (setup_req 8192 ''/other'') ?w = Some (c', w')"
    using mapped_request [of page_consumer page_ring "''/other''" 8192 ?w] by auto
  show ?thesis
    using h second_ring_acknowledged [OF _ _ _ _ h, of page_ring example_ep "[]"] by (simp add: sends_only_def)
qed

subsection \<open>The socket-only receive\<close>

text \<open>C40: \<open>adapt_recv_uds_timeout\<close> never reports a message that is too long: the datagram is read
  into the caller's buffer, so the payload behind the tag is silently cut to \<open>max_size - 1\<close> bytes.\<close>

lemma adapt_recv_uds_cuts:
  assumes "us_poll (w_uds w) = PollReady # ps" "us_recv (w_uds w) = RecvMsg (t # bs) # rs" "cx_uds c = Some ep"
    and "t \<noteq> ADAPT_WIRE_TAG_CTRL" "0 < mx" "0 < tmo" "length bs < 2 ^ 62"
  shows "\<exists>w'. adapt_recv_uds_timeout True c mx tmo w =
    Some ((int (min (length bs) (unat mx - 1)), take (unat mx - 1) bs), c, w')"
proof -
  have pos: "unat mx \<noteq> 0" using assms(5) by (simp add: word_less_nat_alt)
  let ?f = "take (unat mx) (t # bs)"
  have f: "?f = t # take (unat mx - 1) bs" using pos by (cases "unat mx") auto
  obtain w1 where r: "recv_frame c mx tmo w = Some (int (length ?f), ?f, w1)"
    using poll_ready_datagram [OF assms(1,2) _ assms(5,6)] assms(3) by (auto simp: recv_frame_def min.commute)
  have "deliver mx ?f = (int (length (take (unat mx - 1) bs)), take (unat mx - 1) bs)"
    unfolding f using assms(7) by (intro deliver_fits) auto
  then have "recv_uds_loop c mx tmo w = Some ((int (length (take (unat mx - 1) bs)), take (unat mx - 1) bs), c, w1)"
    using r assms(4) unfolding f by (subst recv_uds_loop.simps) simp
  then show ?thesis using assms(5) by (auto simp: adapt_recv_uds_timeout_def)
qed

lemma adapt_recv_uds_cuts_witness:
  "\<exists>w'. adapt_recv_uds_timeout True page_consumer 3 5 (quiet_world (page_at 0 0)
     \<lparr>us_send = [], us_poll = [PollReady], us_recv = [RecvMsg [2, 7, 8, 9, 10]]\<rparr>) = Some ((2, [7, 8]), page_consumer, w')"
  using adapt_recv_uds_cuts [of "quiet_world (page_at 0 0)
     \<lparr>us_send = [], us_poll = [PollReady], us_recv = [RecvMsg [2, 7, 8, 9, 10]]\<rparr>" "[]" 2 "[7, 8, 9, 10]" "[]"
     page_consumer example_ep 3 5]
  by (simp add: ADAPT_WIRE_TAG_CTRL_def)

end
