(* ===== verification/Conversation.thy ===== *)
theory Conversation
  imports Session "HOL-Library.Multiset"
begin

text \<open>
  A producer and a consumer over one ring and one socket, taking turns in any order: what
  \<open>adapt_send\<close> and \<open>adapt_recv\<close> of \<open>src/adapt_ipc.c\<close> promise together. Each call has a world of
  its own for the clock and the answers of the system; the ring's memory and the datagrams in
  flight are carried from call to call. A send may block: then the receiver goes on during the call, and
  what its pops hand out meanwhile it has got before the send returns. The ring is mapped on both
  sides, as after the negotiation.
\<close>

subsection \<open>The system\<close>

record talk =
  tk_tx :: adapt_ctx
  tk_rx :: adapt_ctx
  tk_obj :: shm_obj
  tk_net :: "u8 list list"
  tk_sent :: "u8 list list"
  tk_got :: "u8 list list"

datatype turn = Sends "u8 list" world | Recvs csize world

text \<open>The receiver's socket with the datagrams in flight, and those a call leaves there.\<close>

definition net_script :: "u8 list list \<Rightarrow> uds_script" where
  "net_script net = \<lparr>us_send = [], us_poll = (if net = [] then [] else [PollReady]), us_recv = map RecvMsg net\<rparr>"

fun net_left :: "recv_ret list \<Rightarrow> u8 list list" where
  "net_left [] = []"
| "net_left (RecvMsg m # rs) = m # net_left rs"
| "net_left (RecvErr e # rs) = net_left rs"

text \<open>One call; \<open>None\<close> if it does not return. The last two fields record what was accepted and
  what was handed over, by receives and by the pops during a send, without the tags.\<close>

fun talk_step :: "turn \<Rightarrow> talk \<Rightarrow> talk option" where
  "talk_step (Sends bs w) s =
    (case adapt_send (tk_tx s) (Some bs) (w\<lparr>w_obj := (tk_obj s)\<lparr>obj_taken := []\<rparr>, w_wire := []\<rparr>) of
       None \<Rightarrow> None
     | Some (rc, c, w') \<Rightarrow> Some (s\<lparr>tk_tx := c, tk_obj := w_obj w', tk_net := tk_net s @ w_wire w',
         tk_sent := tk_sent s @ (if rc = 0 then [bs] else []),
         tk_got := tk_got s @ map (drop 1) (obj_taken (w_obj w'))\<rparr>))"
| "talk_step (Recvs mx w) s =
    (case adapt_recv True (tk_rx s) mx (w\<lparr>w_obj := tk_obj s, w_peer := [], w_uds := net_script (tk_net s)\<rparr>) of
       None \<Rightarrow> None
     | Some ((rc, bs), c, w') \<Rightarrow> Some (s\<lparr>tk_rx := c, tk_obj := w_obj w', tk_net := net_left (us_recv (w_uds w')),
         tk_got := tk_got s @ (if 0 < rc then [bs] else [])\<rparr>))"

abbreviation talk_run :: "turn list \<Rightarrow> talk \<Rightarrow> talk option" where
  "talk_run \<equiv> run_ops talk_step"

text \<open>The turns covered: the kernel takes a datagram whole or not at all, and the receive buffers
  are as large as the receiver's scratch buffer.\<close>

fun turn_ok :: "csize \<Rightarrow> turn \<Rightarrow> bool" where
  "turn_ok cap (Sends bs w) \<longleftrightarrow> length bs < 2 ^ 62 \<and> whole_sends (length bs + 1) (us_send (w_uds w))"
| "turn_ok cap (Recvs mx w) \<longleftrightarrow> cap \<le> mx"

text \<open>Two endpoints with the same ring and nothing said yet.\<close>

definition talk_starts :: "talk \<Rightarrow> bool" where
  "talk_starts s \<longleftrightarrow> (\<exists>rp rb. cx_ring (tk_tx s) = Some rp \<and> cx_ring (tk_rx s) = Some rb \<and> rb_capacity rp = rb_capacity rb \<and>
     ring_holds rb (tk_obj s) []) \<and> cx_shm_capacity (tk_tx s) \<le> cx_rxbuf_cap (tk_rx s) \<and>
   cx_role (tk_rx s) = ADAPT_ROLE_CONSUMER \<and> cx_uds (tk_rx s) \<noteq> None \<and>
   UDS_MAX_DGRAM \<le> unat (cx_rxbuf_cap (tk_rx s)) \<and> tk_net s = [] \<and> tk_sent s = [] \<and> tk_got s = []"

subsection \<open>The order on each transport\<close>

text \<open>Messages marked with their transport, the ring being \<open>True\<close>.\<close>

definition lane :: "bool \<Rightarrow> (bool \<times> u8 list) list \<Rightarrow> u8 list list" where
  "lane t xs = map snd (filter (\<lambda>x. fst x = t) xs)"

lemma lane_simps [simp]: "lane t [] = []" "lane t (xs @ ys) = lane t xs @ lane t ys"
  "lane t [(u, m)] = (if u = t then [m] else [])"
  by (auto simp: lane_def)

definition in_flight :: "u8 list list \<Rightarrow> u8 list list \<Rightarrow> u8 list list \<Rightarrow> u8 list list \<Rightarrow> bool" where
  "in_flight sent got qs ns \<longleftrightarrow> (\<exists>A D. map snd A = sent \<and> map snd D = got \<and>
     lane True A = lane True D @ qs \<and> lane False A = lane False D @ ns)"

lemma in_flight_send:
  assumes "in_flight sent got qs ns"
  shows "in_flight (sent @ [m]) got (qs @ [m]) ns" "in_flight (sent @ [m]) got qs (ns @ [m])"
proof -
  obtain A D where A: "map snd A = sent" "map snd D = got" "lane True A = lane True D @ qs"
    "lane False A = lane False D @ ns" using assms by (auto simp: in_flight_def)
  show "in_flight (sent @ [m]) got (qs @ [m]) ns" unfolding in_flight_def
    by (rule exI [of _ "A @ [(True, m)]"], rule exI [of _ D]) (simp add: A)
  show "in_flight (sent @ [m]) got qs (ns @ [m])" unfolding in_flight_def
    by (rule exI [of _ "A @ [(False, m)]"], rule exI [of _ D]) (simp add: A)
qed

lemma in_flight_recv:
  "in_flight sent got (m # qs) ns \<Longrightarrow> in_flight sent (got @ [m]) qs ns"
  "in_flight sent got qs (m # ns) \<Longrightarrow> in_flight sent (got @ [m]) qs ns"
proof -
  show "in_flight sent (got @ [m]) qs ns" if f: "in_flight sent got (m # qs) ns"
  proof -
    obtain A D where A: "map snd A = sent" "map snd D = got" "lane True A = lane True D @ m # qs"
      "lane False A = lane False D @ ns" using f by (auto simp: in_flight_def)
    show ?thesis unfolding in_flight_def
      by (rule exI [of _ A], rule exI [of _ "D @ [(True, m)]"]) (simp add: A)
  qed
  show "in_flight sent (got @ [m]) qs ns" if f: "in_flight sent got qs (m # ns)"
  proof -
    obtain A D where A: "map snd A = sent" "map snd D = got" "lane True A = lane True D @ qs"
      "lane False A = lane False D @ m # ns" using f by (auto simp: in_flight_def)
    show ?thesis unfolding in_flight_def
      by (rule exI [of _ A], rule exI [of _ "D @ [(False, m)]"]) (simp add: A)
  qed
qed

lemma in_flight_takes:
  assumes "in_flight sent got qs ns" shows "in_flight sent (got @ take j qs) (drop j qs) ns"
proof -
  obtain A D where A: "map snd A = sent" "map snd D = got" "lane True A = lane True D @ qs"
    "lane False A = lane False D @ ns" using assms by (auto simp: in_flight_def)
  have "lane True (map (Pair True) xs) = xs" "lane False (map (Pair True) xs) = []" for xs
    by (induction xs) (simp_all add: lane_def)
  then show ?thesis unfolding in_flight_def
    by (intro exI [of _ A] exI [of _ "D @ map (Pair True) (take j qs)"]) (simp add: A comp_def)
qed

lemma mset_lanes: "mset (map snd xs) = mset (lane True xs) + mset (lane False xs)"
  by (induction xs) (auto simp: lane_def)

lemma in_flight_mset:
  assumes "in_flight sent got qs ns" shows "mset sent = mset got + mset qs + mset ns"
proof -
  obtain A D where A: "map snd A = sent" "map snd D = got" "lane True A = lane True D @ qs"
    "lane False A = lane False D @ ns" using assms by (auto simp: in_flight_def)
  have "mset sent = mset (lane True A) + mset (lane False A)"
    "mset got = mset (lane True D) + mset (lane False D)" unfolding A(1,2) [symmetric] by (rule mset_lanes)+
  then show ?thesis using A(3,4) by (simp add: ac_simps)
qed

subsection \<open>The invariant\<close>

definition talk_inv :: "u8 list list \<Rightarrow> u8 list list \<Rightarrow> talk \<Rightarrow> bool" where
  "talk_inv qs ns s \<longleftrightarrow> (\<exists>rp rb. cx_ring (tk_tx s) = Some rp \<and> cx_ring (tk_rx s) = Some rb \<and> rb_capacity rp = rb_capacity rb \<and>
     ring_holds rb (tk_obj s) (map (Cons TAG_SHM) qs)) \<and> cx_shm_capacity (tk_tx s) \<le> cx_rxbuf_cap (tk_rx s) \<and>
   cx_role (tk_rx s) = ADAPT_ROLE_CONSUMER \<and> cx_uds (tk_rx s) \<noteq> None \<and>
   UDS_MAX_DGRAM \<le> unat (cx_rxbuf_cap (tk_rx s)) \<and> tk_net s = map (Cons TAG_UDS) ns \<and>
   (\<forall>m\<in>set ns. m \<noteq> [] \<and> length m + 1 \<le> UDS_MAX_DGRAM) \<and> (\<forall>m\<in>set qs. m \<noteq> [] \<and> length m + 1 \<le> unat (cx_shm_capacity (tk_tx s))) \<and>
   in_flight (tk_sent s) (tk_got s) qs ns"

lemma talk_starts_inv: "talk_starts s \<Longrightarrow> talk_inv [] [] s"
  by (auto simp: talk_starts_def talk_inv_def in_flight_def)

lemma talk_send_step:
  assumes "talk_inv qs ns s" "turn_ok cap (Sends bs w)" "talk_step (Sends bs w) s = Some s'"
  shows "cx_rxbuf_cap (tk_rx s') = cx_rxbuf_cap (tk_rx s) \<and> (\<exists>qs' ns'. talk_inv qs' ns' s')"
proof -
  let ?w = "w\<lparr>w_obj := (tk_obj s)\<lparr>obj_taken := []\<rparr>, w_wire := []\<rparr>" and ?qs = "map (Cons TAG_SHM) qs"
  obtain rp rb where rb: "cx_ring (tk_tx s) = Some rp" "cx_ring (tk_rx s) = Some rb"
    "ring_holds rb (tk_obj s) ?qs" "cx_shm_capacity (tk_tx s) \<le> cx_rxbuf_cap (tk_rx s)"
    "rb_capacity rp = rb_capacity rb"
    and fl: "in_flight (tk_sent s) (tk_got s) qs ns"
    and inv: "cx_role (tk_rx s) = ADAPT_ROLE_CONSUMER" "cx_uds (tk_rx s) \<noteq> None"
      "UDS_MAX_DGRAM \<le> unat (cx_rxbuf_cap (tk_rx s))" "tk_net s = map (Cons TAG_UDS) ns"
      "\<forall>m\<in>set ns. m \<noteq> [] \<and> length m + 1 \<le> UDS_MAX_DGRAM" "\<forall>m\<in>set qs. m \<noteq> [] \<and> length m + 1 \<le> unat (cx_shm_capacity (tk_tx s))"
    using assms(1) unfolding talk_inv_def by blast
  obtain rc c w' where send: "adapt_send (tk_tx s) (Some bs) ?w = Some (rc, c, w')"
    and s': "s' = s\<lparr>tk_tx := c, tk_obj := w_obj w', tk_net := tk_net s @ w_wire w',
         tk_sent := tk_sent s @ (if rc = 0 then [bs] else []), tk_got := tk_got s @ map (drop 1) (obj_taken (w_obj w'))\<rparr>"
    using assms(3) by (auto split: option.splits)
  have len: "length bs < 2 ^ 62" "whole_sends (length bs + 1) (us_send (w_uds ?w))" "ring_holds rp (w_obj ?w) ?qs"
    using assms(2) rb(3) ring_holds_cap [OF rb(5)] by simp_all
  obtain j where x: "obj_taken (w_obj w') = obj_taken (w_obj ?w) @ take j ?qs" "cx_ring c = Some rp"
    "cx_shm_capacity c = cx_shm_capacity (tk_tx s)" and out: "if rc = 0
      then bs \<noteq> [] \<and> (ring_holds rp (w_obj w') (drop j ?qs @ [TAG_SHM # bs]) \<and> w_wire w' = w_wire ?w \<and>
          length bs + 1 \<le> unat (cx_shm_capacity (tk_tx s)) \<or>
        ring_holds rp (w_obj w') (drop j ?qs) \<and> w_wire w' = w_wire ?w @ [TAG_UDS # bs] \<and> length bs + 1 \<le> UDS_MAX_DGRAM)
      else ring_holds rp (w_obj w') (drop j ?qs) \<and> w_wire w' = w_wire ?w"
    using mapped_send_exact [OF send rb(1) len(3,1,2)] by blast
  have got: "tk_got s' = tk_got s @ take j qs" by (simp add: s' x(1) take_map comp_def)
  note fl' = in_flight_takes [OF fl, of j]
  have kept: "\<forall>m\<in>set (drop j qs). m \<noteq> [] \<and> length m + 1 \<le> unat (cx_shm_capacity (tk_tx s))"
    using inv(6) by (blast dest: in_set_dropD)
  note base = got x(2,3) rb(2,4,5) inv(1-5) kept
  consider (ring) "rc = 0" "bs \<noteq> []" "ring_holds rb (w_obj w') (map (Cons TAG_SHM) (drop j qs @ [bs]))" "w_wire w' = []"
        "length bs + 1 \<le> unat (cx_shm_capacity (tk_tx s))"
    | (wire) "rc = 0" "bs \<noteq> []" "ring_holds rb (w_obj w') (map (Cons TAG_SHM) (drop j qs))" "w_wire w' = [TAG_UDS # bs]"
        "length bs + 1 \<le> UDS_MAX_DGRAM"
    | (refused) "rc \<noteq> 0" "ring_holds rb (w_obj w') (map (Cons TAG_SHM) (drop j qs))" "w_wire w' = []"
    using out by (cases "rc = 0") (auto simp: ring_holds_cap [OF rb(5)] drop_map)
  then have "\<exists>qs' ns'. talk_inv qs' ns' s'"
  proof cases
    case ring
    then have "talk_inv (drop j qs @ [bs]) ns s'"
      using base in_flight_send(1) [OF fl'] by (auto simp: talk_inv_def s')
    then show ?thesis by blast
  next
    case wire
    then have "talk_inv (drop j qs) (ns @ [bs]) s'"
      using base in_flight_send(2) [OF fl'] by (auto simp: talk_inv_def s')
    then show ?thesis by blast
  next
    case refused
    then have "talk_inv (drop j qs) ns s'" using base fl' by (auto simp: talk_inv_def s')
    then show ?thesis by blast
  qed
  then show ?thesis by (simp add: s')
qed

text \<open>A receive takes the head of the ring, and without one the first datagram.\<close>

definition taken :: "u8 list list \<Rightarrow> u8 list list \<Rightarrow> u8 list list \<times> u8 list list" where
  "taken qs ns = (if qs \<noteq> [] then (tl qs, ns) else (qs, tl ns))"

lemma net_left_msgs [simp]: "net_left (map RecvMsg ms) = ms"
  by (induction ms) simp_all

lemma talk_recv_step:
  assumes "talk_inv qs ns s" "turn_ok (cx_rxbuf_cap (tk_rx s)) (Recvs mx w)" "qs \<noteq> [] \<or> ns \<noteq> []"
  shows "\<exists>s'. talk_step (Recvs mx w) s = Some s' \<and> cx_rxbuf_cap (tk_rx s') = cx_rxbuf_cap (tk_rx s) \<and>
    tk_sent s' = tk_sent s \<and> talk_inv (fst (taken qs ns)) (snd (taken qs ns)) s'"
proof -
  let ?w = "w\<lparr>w_obj := tk_obj s, w_peer := [], w_uds := net_script (tk_net s)\<rparr>"
  obtain rp rb where rb: "cx_ring (tk_tx s) = Some rp" "cx_ring (tk_rx s) = Some rb"
    "ring_holds rb (tk_obj s) (map (Cons TAG_SHM) qs)" "cx_shm_capacity (tk_tx s) \<le> cx_rxbuf_cap (tk_rx s)"
    "rb_capacity rp = rb_capacity rb"
    and fl: "in_flight (tk_sent s) (tk_got s) qs ns"
    and inv: "cx_role (tk_rx s) = ADAPT_ROLE_CONSUMER" "cx_uds (tk_rx s) \<noteq> None"
      "UDS_MAX_DGRAM \<le> unat (cx_rxbuf_cap (tk_rx s))" "tk_net s = map (Cons TAG_UDS) ns"
      "\<forall>m\<in>set ns. m \<noteq> [] \<and> length m + 1 \<le> UDS_MAX_DGRAM" "\<forall>m\<in>set qs. m \<noteq> [] \<and> length m + 1 \<le> unat (cx_shm_capacity (tk_tx s))"
    using assms(1) unfolding talk_inv_def by blast
  have mx: "unat (cx_rxbuf_cap (tk_rx s)) \<le> unat mx" using assms(2) by (simp add: word_le_nat_alt)
  then have two: "2 \<le> mx" using inv(3) by (simp add: word_le_nat_alt UDS_MAX_DGRAM_def)
  show ?thesis
  proof (cases qs)
    case (Cons m qs')
    have fits: "length m + 1 \<le> unat (cx_rxbuf_cap (tk_rx s))" "\<not> unat mx < length m"
      using inv(6) Cons rb(4) mx by (auto simp: word_le_nat_alt)
    have "ring_holds rb (w_obj (peer_turn (tk_rx s) ?w)) ((TAG_SHM # m) # map (Cons TAG_SHM) qs')"
      using rb(3) Cons by (simp add: peer_turn_idle)
    from recv_ring_head [OF inv(1) rb(2) this fits(1) two] fits(2) obtain c w' where
      r: "adapt_recv True (tk_rx s) mx ?w = Some ((int (length m), m), c, w')"
      "ring_holds rb (w_obj w') (map (Cons TAG_SHM) qs')" "w_uds w' = net_script (tk_net s)" "rx_same (tk_rx s) c"
      by auto
    have "in_flight (tk_sent s) (tk_got s @ [m]) qs' ns" using in_flight_recv(1) fl Cons by simp
    then show ?thesis
      using r Cons rb inv by (auto simp: talk_inv_def taken_def rx_same_def net_script_def simp del: map_map)
  next
    case Nil
    then obtain m ns' where ns: "ns = m # ns'" using assms(3) by (cases ns) auto
    obtain ep where ep: "cx_uds (tk_rx s) = Some ep" using inv(2) by blast
    have m: "m \<noteq> []" "length m + 1 \<le> UDS_MAX_DGRAM" using inv(5) ns by auto
    then have len: "length m + 1 \<le> unat (cx_rxbuf_cap (tk_rx s))" "length m \<le> unat mx" "length m < 2 ^ 62"
      using inv(3) mx by (auto simp: UDS_MAX_DGRAM_def)
    have q: "queue_at (tk_rx s) ?w []" using rb(2,3) Nil by (simp add: queue_at_def)
    have tag: "TAG_UDS \<noteq> ADAPT_WIRE_TAG_CTRL" by (simp add: TAG_UDS_def ADAPT_WIRE_TAG_CTRL_def)
    obtain c w' where r: "adapt_recv True (tk_rx s) mx ?w = Some ((int (length m), m), c, w')"
      "w_obj w' = tk_obj s" "us_recv (w_uds w') = map RecvMsg (map (Cons TAG_UDS) ns')" "rx_same (tk_rx s) c"
      using recv_socket_frame [OF inv(1) q _ ep, of "[]" TAG_UDS m "map RecvMsg (map (Cons TAG_UDS) ns')" mx]
        m len two tag inv(4) ns by (auto simp: net_script_def)
    have "in_flight (tk_sent s) (tk_got s @ [m]) [] ns'" using in_flight_recv(2) fl Nil ns by simp
    then show ?thesis
      using r m(1) Nil ns rb inv by (auto simp: talk_inv_def taken_def rx_same_def simp del: map_map)
  qed
qed

text \<open>With nothing in flight a receive waits.\<close>

lemma recv_waits:
  assumes "queue_at c w []" "w_peer w = []" "us_poll (w_uds w) = []" "cx_uds c \<noteq> None" "0 < cx_rxbuf_cap c"
    and "cx_role c = ADAPT_ROLE_CONSUMER" "2 \<le> mx"
  shows "adapt_recv True c mx w = None"
proof -
  let ?c = "upd_stats (\<lambda>s. s\<lparr>st_recv_loop_iters := st_recv_loop_iters s + 1\<rparr>) c"
  have pop: "(case cx_ring c of None \<Rightarrow> Some (pop_fails (- EAGAIN), w_obj w)
      | Some rb \<Rightarrow> shm_ring_pop rb (cx_rxbuf_cap c) (w_obj w)) = Some (pop_fails (- EAGAIN), w_obj w)"
  proof (cases "cx_ring c")
    case (Some rb)
    then have "ring_holds rb (w_obj w) []" using assms(1) by (simp add: queue_at_def)
    then show ?thesis using Some pop_result [of rb "w_obj w" "[]" "cx_rxbuf_cap c"] by fastforce
  qed simp
  obtain tp w0 where w0: "tick_if (cx_stats_on c) w = (tp, w0)" by fastforce
  have "recv_frame ?c (cx_rxbuf_cap c) ADAPT_UDS_POLL_MS w0 = None"
    using tick_if_io [OF w0] assms(3-5) by (auto simp: recv_frame_def uds_recv_timeout_def ADAPT_UDS_POLL_MS_def)
  then have "recv_loop c mx 0 w = None"
    using pop w0 by (subst recv_loop.simps)
       (cases "cx_ring c"; auto simp: Let_def peer_turn_idle [OF assms(2)] pop_fails_def errno_defs split: prod.splits)
  then show ?thesis using assms(6,7) by (auto simp: adapt_recv_def word_less_nat_alt word_le_nat_alt)
qed

lemma talk_recv_waits:
  assumes "talk_inv [] [] s" "turn_ok (cx_rxbuf_cap (tk_rx s)) (Recvs mx w)"
  shows "talk_step (Recvs mx w) s = None"
proof -
  have "UDS_MAX_DGRAM \<le> unat (cx_rxbuf_cap (tk_rx s))" using assms(1) by (simp add: talk_inv_def)
  then have "0 < cx_rxbuf_cap (tk_rx s)" "2 \<le> mx" using assms(2)
    by (auto simp: UDS_MAX_DGRAM_def word_less_nat_alt word_le_nat_alt)
  then have "adapt_recv True (tk_rx s) mx (w\<lparr>w_obj := tk_obj s, w_peer := [], w_uds := net_script (tk_net s)\<rparr>) = None"
    using assms(1) by (intro recv_waits) (auto simp: talk_inv_def queue_at_def net_script_def)
  then show ?thesis by simp
qed

lemma talk_step_inv:
  assumes "talk_inv qs ns s" "turn_ok (cx_rxbuf_cap (tk_rx s)) t" "talk_step t s = Some s'"
  shows "cx_rxbuf_cap (tk_rx s') = cx_rxbuf_cap (tk_rx s) \<and> (\<exists>qs' ns'. talk_inv qs' ns' s')"
proof (cases t)
  case (Sends bs w)
  then show ?thesis using talk_send_step assms by blast
next
  case (Recvs mx w)
  then have "qs \<noteq> [] \<or> ns \<noteq> []" using talk_recv_waits [of s mx w] assms by auto
  then show ?thesis using talk_recv_step [of qs ns s mx w] assms Recvs by auto
qed

interpretation conversing: keeps_invariant talk_step "turn_ok cap"
    "\<lambda>s. cx_rxbuf_cap (tk_rx s) = cap \<and> (\<exists>qs ns. talk_inv qs ns s)" for cap
  by unfold_locales (use talk_step_inv in blast)

lemma talk_run_inv:
  assumes "talk_run ts s = Some s'" "talk_inv qs ns s" "list_all (turn_ok (cx_rxbuf_cap (tk_rx s))) ts"
  shows "cx_rxbuf_cap (tk_rx s') = cx_rxbuf_cap (tk_rx s) \<and> (\<exists>qs' ns'. talk_inv qs' ns' s')"
  using conversing.run [OF assms(1) _ assms(3)] assms(2) by blast

fun is_recv :: "turn \<Rightarrow> bool" where
  "is_recv (Sends bs w) = False"
| "is_recv (Recvs mx w) = True"

lemma talk_drains:
  assumes "talk_inv qs ns s" "list_all (\<lambda>t. is_recv t \<and> turn_ok (cx_rxbuf_cap (tk_rx s)) t) ts"
    and "length ts = length qs + length ns"
  shows "\<exists>s'. talk_run ts s = Some s' \<and> talk_inv [] [] s' \<and> tk_sent s' = tk_sent s"
  using assms
proof (induction ts arbitrary: s qs ns)
  case (Cons t ts)
  obtain mx w where t: "t = Recvs mx w" using Cons.prems(2) by (cases t) auto
  let ?q = "fst (taken qs ns)" and ?n = "snd (taken qs ns)"
  have some: "qs \<noteq> [] \<or> ns \<noteq> []" using Cons.prems(3) by auto
  then obtain s1 where s1: "talk_step t s = Some s1" "cx_rxbuf_cap (tk_rx s1) = cx_rxbuf_cap (tk_rx s)"
    "tk_sent s1 = tk_sent s" "talk_inv ?q ?n s1"
    using talk_recv_step [OF Cons.prems(1), of mx w] Cons.prems(2) t by auto
  have "length ts = length ?q + length ?n"
    using Cons.prems(3) some by (cases qs; cases ns) (auto simp: taken_def)
  then show ?case using Cons.IH [OF s1(4)] Cons.prems(2) s1 by auto
qed simp

lemma talk_inv_drains:
  assumes "talk_inv qs ns s" "list_all (\<lambda>t. is_recv t \<and> turn_ok (cx_rxbuf_cap (tk_rx s)) t) rs"
    and "length rs = length (tk_sent s) - length (tk_got s)"
  shows "\<exists>s'. talk_run rs s = Some s' \<and> tk_sent s' = tk_sent s \<and> mset (tk_got s') = mset (tk_sent s)"
proof -
  have fl: "in_flight (tk_sent s) (tk_got s) qs ns" using assms(1) by (simp add: talk_inv_def)
  have "size (mset (tk_sent s)) = size (mset (tk_got s) + mset qs + mset ns)"
    by (rule arg_cong [OF in_flight_mset [OF fl]])
  then have "length rs = length qs + length ns" using assms(3) by simp
  then obtain s' where r: "talk_run rs s = Some s'" "talk_inv [] [] s'" "tk_sent s' = tk_sent s"
    using talk_drains [OF assms(1,2)] by auto
  have "in_flight (tk_sent s') (tk_got s') [] []" using r(2) by (simp add: talk_inv_def)
  from in_flight_mset [OF this] show ?thesis using r(1,3) by auto
qed

subsection \<open>Properties\<close>


text \<open>C3: A receiver that goes on gets everything: after any such sequence, as many further receives
  as there are accepted messages not handed over all return, and then the messages handed
  over are, as a multiset, the messages accepted.\<close>

lemma conversation_drains:
  assumes "talk_starts s" "list_all (turn_ok (cx_rxbuf_cap (tk_rx s))) ts" "talk_run ts s = Some s'"
    and "list_all (\<lambda>t. is_recv t \<and> turn_ok (cx_rxbuf_cap (tk_rx s)) t) rs"
    and "length rs = length (tk_sent s') - length (tk_got s')"
  shows "\<exists>s''. talk_run rs s' = Some s'' \<and> tk_sent s'' = tk_sent s' \<and> mset (tk_got s'') = mset (tk_sent s')"
proof -
  obtain qs ns where "talk_inv qs ns s'" "cx_rxbuf_cap (tk_rx s') = cx_rxbuf_cap (tk_rx s)"
    using talk_run_inv [OF assms(3) talk_starts_inv [OF assms(1)] assms(2)] by blast
  then show ?thesis using talk_inv_drains [of qs ns s' rs] assms(4,5) by simp
qed

subsection \<open>A message over the socket\<close>

definition page_talk :: talk where
  "page_talk = \<lparr>tk_tx = socket_producer, tk_rx = page_consumer, tk_obj = page_at 0 0, tk_net = [], tk_sent = [], tk_got = []\<rparr>"

abbreviation "page_says \<equiv> Sends [7, 8] (quiet_world (page_at 0 0) (sends_only [SysErr EINTR, SysOk 3]))"

lemma page_talk_starts: "talk_starts page_talk"
  using page_holds [of 0 0]
  by (simp add: talk_starts_def page_talk_def socket_producer_def UDS_MAX_DGRAM_def)

lemma page_says_ok: "turn_ok 4096 page_says"
  by (simp add: whole_sends_def sends_only_def errno_defs)

lemma quiet_world_updates:
  "(quiet_world (page_at c b) sc)\<lparr>w_obj := (page_at c b)\<lparr>obj_taken := []\<rparr>, w_wire := []\<rparr> = quiet_world (page_at c b) sc"
  by (simp add: quiet_world_def page_at_def)

lemma page_talk_run: "\<exists>s'. talk_run [page_says] page_talk = Some s' \<and> tk_sent s' = [[7, 8]] \<and> tk_got s' = []"
proof -
  obtain c' w' where a: "adapt_send socket_producer (Some [7, 8])
      (quiet_world (page_at 0 0) (sends_only [SysErr EINTR, SysOk 3])) = Some (0, c', w')" "w_obj w' = page_at 0 0"
    using socket_sends by blast
  have "talk_step page_says page_talk = Some (page_talk\<lparr>tk_tx := c', tk_obj := w_obj w',
      tk_net := tk_net page_talk @ w_wire w', tk_sent := tk_sent page_talk @ [[7, 8]],
      tk_got := map (drop 1) (obj_taken (w_obj w'))\<rparr>)"
    by (simp add: page_talk_def quiet_world_updates a(1))
  then show ?thesis by (simp add: page_talk_def a(2) del: talk_step.simps)
qed


lemma conversation_drains_witness:
  "\<exists>s' s''. talk_run [page_says] page_talk = Some s' \<and>
     talk_run [Recvs 4096 (quiet_world (page_at 0 0) (sends_only []))] s' = Some s'' \<and> tk_got s'' = [[7, 8]]"
proof -
  obtain s' where r: "talk_run [page_says] page_talk = Some s'" "tk_sent s' = [[7, 8]]" "tk_got s' = []"
    using page_talk_run by blast
  have ok: "list_all (turn_ok (cx_rxbuf_cap (tk_rx page_talk))) [page_says]"
    using page_says_ok by (simp add: page_talk_def del: turn_ok.simps)
  have "\<exists>s''. talk_run [Recvs 4096 (quiet_world (page_at 0 0) (sends_only []))] s' = Some s'' \<and>
      tk_sent s'' = tk_sent s' \<and> mset (tk_got s'') = mset (tk_sent s')"
    by (rule conversation_drains [OF page_talk_starts ok r(1)]) (simp_all add: r(2,3) page_talk_def)
  then obtain s'' where d: "talk_run [Recvs 4096 (quiet_world (page_at 0 0) (sends_only []))] s' = Some s''"
    "mset (tk_got s'') = mset [[7, 8]]" using r(2) by auto
  from d(2) have "tk_got s'' = [[7, 8]]" by simp
  then show ?thesis using r(1) d(1) by blast
qed

end
