(* ===== verification/Negotiation.thy ===== *)
theory Negotiation
  imports Conversation
begin

text \<open>
  The negotiation of the ring in \<open>src/adapt_ipc.c\<close>, both sides together: the producer's request, the
  consumer's answer to it, the producer's wait for the answer. It ends with two endpoints as
  \<open>Conversation\<close> takes them; and how long the wait lasts when no answer comes.
\<close>

subsection \<open>What the wait leaves alone\<close>

text \<open>Up to the statistics, the clock reading and the socket's script.\<close>

definition waited :: "adapt_ctx \<Rightarrow> world \<Rightarrow> adapt_ctx \<Rightarrow> world \<Rightarrow> bool" where
  "waited c w c' w' \<longleftrightarrow> (\<exists>st. c' = c\<lparr>cx_st := st\<rparr>) \<and>
     w_obj w' = w_obj w \<and> w_map w' = w_map w \<and> w_realloc w' = w_realloc w \<and> w_clock w' = w_clock w \<and>
     w_wire w' = w_wire w \<and> w_rounds w' = w_rounds w \<and> us_send (w_uds w') = us_send (w_uds w)"

lemma waited_refl [simp]: "waited c w c w"
  by (auto simp: waited_def intro: exI [of _ "cx_st c"])

lemma waited_trans: "waited c w d v \<Longrightarrow> waited d v c' w' \<Longrightarrow> waited c w c' w'"
proof -
  assume a: "waited c w d v" "waited d v c' w'"
  obtain st where d: "d = c\<lparr>cx_st := st\<rparr>" using a(1) unfolding waited_def by blast
  moreover obtain st' where "c' = d\<lparr>cx_st := st'\<rparr>" using a(2) unfolding waited_def by blast
  ultimately have "c' = c\<lparr>cx_st := st'\<rparr>" by simp
  then show ?thesis using a unfolding waited_def by metis
qed

lemma waited_fields:
  assumes "waited c w c' w'"
  shows "cx_ring c' = cx_ring c" "cx_uds c' = cx_uds c" "cx_rxbuf_cap c' = cx_rxbuf_cap c"
    "cx_neg_name c' = cx_neg_name c" "cx_shm_capacity c' = cx_shm_capacity c"
    "cx_nonblocking_send c' = cx_nonblocking_send c" "cx_role c' = cx_role c"
    "w_clock w' = w_clock w" "w_obj w' = w_obj w" "w_map w' = w_map w" "w_realloc w' = w_realloc w"
    "w_wire w' = w_wire w" "w_rounds w' = w_rounds w"
  using assms by (auto simp: waited_def)

lemma waited_stats: "waited c w (upd_stats f c) w"
  unfolding waited_def upd_stats_def by (cases "cx_stats_on c") (auto intro: exI [of _ "cx_st c"])

lemma waited_tick: "tick_if b w = (t, w') \<Longrightarrow> waited c w c w' \<and> w_uds w' = w_uds w \<and> w_tick w \<le> w_tick w'"
  by (auto simp: tick_if_def stats_now_ns_def waited_def intro: exI [of _ "cx_st c"] split: if_splits)

subsection \<open>One turn of the wait\<close>

text \<open>What the poll of one turn delivers: nothing, or a frame that fits the scratch buffer.\<close>

lemma recv_frame_timeout:
  assumes "us_poll (w_uds w) = PollTimeout # ps" "cx_uds c \<noteq> None" "0 < cx_rxbuf_cap c"
  shows "recv_frame c (cx_rxbuf_cap c) ADAPT_NEGOT_POLL_MS w =
    Some (- EAGAIN, [], w\<lparr>w_uds := (w_uds w)\<lparr>us_poll := ps\<rparr>\<rparr>)"
  using assms by (auto simp: recv_frame_def uds_recv_timeout_def ADAPT_NEGOT_POLL_MS_def)

lemma recv_frame_ready:
  assumes "us_poll (w_uds w) = PollReady # ps" "us_recv (w_uds w) = RecvMsg f # rs" "cx_uds c \<noteq> None"
    and "f \<noteq> []" "length f \<le> unat (cx_rxbuf_cap c)"
  shows "recv_frame c (cx_rxbuf_cap c) ADAPT_NEGOT_POLL_MS w =
    Some (int (length f), f, w\<lparr>w_uds := (w_uds w)\<lparr>us_poll := ps, us_recv := rs\<rparr>\<rparr>)"
proof -
  obtain ep where ep: "cx_uds c = Some ep" using assms(3) by blast
  have "0 < cx_rxbuf_cap c" using assms(4,5) by (cases f) (auto simp: word_less_nat_alt)
  from poll_ready_datagram [OF assms(1,2,4) this, of ADAPT_NEGOT_POLL_MS ep] show ?thesis
    using ep assms(5) by (simp add: recv_frame_def ADAPT_NEGOT_POLL_MS_def)
qed

text \<open>A poll that times out: the deadline is compared, and nothing else happens.\<close>

lemma await_timeout_turn:
  assumes "us_poll (w_uds w) = PollTimeout # ps" "cx_uds c \<noteq> None" "0 < cx_rxbuf_cap c"
  shows "\<exists>c' w' t. waited c w c' w' \<and> us_poll (w_uds w') = ps \<and> us_recv (w_uds w') = us_recv (w_uds w) \<and>
    w_tick w < w_tick w' \<and> w_tick w \<le> t \<and>
    await_ack c d w = (if d < w_clock w t then Some (- ETIMEDOUT, c', w') else await_ack c' d w')"
proof -
  obtain t0 w0 where w0: "tick_if (cx_stats_on c) w = (t0, w0)" by fastforce
  note a0 = waited_tick [OF w0, of c]
  let ?w1 = "w0\<lparr>w_uds := (w_uds w0)\<lparr>us_poll := ps\<rparr>\<rparr>"
  have r: "recv_frame c (cx_rxbuf_cap c) ADAPT_NEGOT_POLL_MS w0 = Some (- EAGAIN, [], ?w1)"
    by (rule recv_frame_timeout) (use a0 assms in simp_all)
  obtain t1 w2 where w2: "tick_if (cx_stats_on c) ?w1 = (t1, w2)" by fastforce
  note a2 = waited_tick [OF w2, of c]
  let ?c = "upd_stats (\<lambda>s. s\<lparr>st_negot_wait_ns := st_negot_wait_ns s + (t1 - t0)\<rparr>) c"
  let ?w3 = "w2\<lparr>w_tick := w_tick w2 + 1\<rparr>"
  have w: "waited c w ?c ?w3" "w_clock w2 = w_clock w"
    using waited_stats [of c w "\<lambda>s. s\<lparr>st_negot_wait_ns := st_negot_wait_ns s + (t1 - t0)\<rparr>"] a0 a2
    by (auto simp: waited_def)
  have "await_ack c d w = (if d < w_clock w (w_tick w2) then Some (- ETIMEDOUT, ?c, ?w3) else await_ack ?c d ?w3)"
    using w0 r w2 w(2) by (subst await_ack.simps) (simp add: stats_now_ns_def)
  moreover have "us_poll (w_uds ?w3) = ps" "us_recv (w_uds ?w3) = us_recv (w_uds w)"
    "w_tick w < w_tick ?w3" "w_tick w \<le> w_tick w2" using a0 a2 by simp_all
  ultimately show ?thesis using w(1) by blast
qed

text \<open>A frame that is no acknowledgement: the wait goes on, without a look at the deadline.\<close>

lemma await_other_turn:
  assumes "us_poll (w_uds w) = PollReady # ps" "us_recv (w_uds w) = RecvMsg f # rs" "cx_uds c \<noteq> None"
    and "f \<noteq> []" "length f \<le> unat (cx_rxbuf_cap c)" "\<not> is_setup_ack f"
  shows "\<exists>c' w'. waited c w c' w' \<and> us_poll (w_uds w') = ps \<and> us_recv (w_uds w') = rs \<and>
    await_ack c d w = await_ack c' d w'"
proof -
  obtain t0 w0 where w0: "tick_if (cx_stats_on c) w = (t0, w0)" by fastforce
  note a0 = waited_tick [OF w0, of c]
  let ?w1 = "w0\<lparr>w_uds := (w_uds w0)\<lparr>us_poll := ps, us_recv := rs\<rparr>\<rparr>"
  have r: "recv_frame c (cx_rxbuf_cap c) ADAPT_NEGOT_POLL_MS w0 = Some (int (length f), f, ?w1)"
    by (rule recv_frame_ready) (use a0 assms in simp_all)
  obtain t1 w2 where w2: "tick_if (cx_stats_on c) ?w1 = (t1, w2)" by fastforce
  note a2 = waited_tick [OF w2, of c]
  let ?c = "upd_stats (\<lambda>s. s\<lparr>st_negot_wait_ns := st_negot_wait_ns s + (t1 - t0)\<rparr>) c"
  have w: "waited c w ?c w2"
    using waited_stats [of c w "\<lambda>s. s\<lparr>st_negot_wait_ns := st_negot_wait_ns s + (t1 - t0)\<rparr>"] a0 a2
    by (auto simp: waited_def)
  have "await_ack c d w = await_ack ?c d w2"
    using w0 r w2 assms(6) by (subst await_ack.simps) (simp add: errno_defs)
  moreover have "us_poll (w_uds w2) = ps" "us_recv (w_uds w2) = rs" using a2 by simp_all
  ultimately show ?thesis using w by blast
qed

text \<open>The acknowledgement: the ring is mapped.\<close>

lemma await_ack_turn:
  assumes "us_poll (w_uds w) = PollReady # ps" "us_recv (w_uds w) = RecvMsg f # rs" "cx_uds c \<noteq> None"
    and "length f \<le> unat (cx_rxbuf_cap c)" "is_setup_ack f"
  shows "\<exists>c' w'. waited c w c' w' \<and>
    await_ack c d w = (case producer_map_ring c' w' of None \<Rightarrow> None
      | Some (rc, c, w) \<Rightarrow> if rc \<noteq> 0 then Some (rc, c, w) else Some (0, c\<lparr>cx_negot_done := True\<rparr>, w))"
proof -
  have f: "f \<noteq> []" using assms(5) by (auto simp: is_setup_ack_def)
  obtain t0 w0 where w0: "tick_if (cx_stats_on c) w = (t0, w0)" by fastforce
  note a0 = waited_tick [OF w0, of c]
  let ?w1 = "w0\<lparr>w_uds := (w_uds w0)\<lparr>us_poll := ps, us_recv := rs\<rparr>\<rparr>"
  have r: "recv_frame c (cx_rxbuf_cap c) ADAPT_NEGOT_POLL_MS w0 = Some (int (length f), f, ?w1)"
    by (rule recv_frame_ready) (use a0 assms f in simp_all)
  obtain t1 w2 where w2: "tick_if (cx_stats_on c) ?w1 = (t1, w2)" by fastforce
  note a2 = waited_tick [OF w2, of c]
  let ?c = "upd_stats (\<lambda>s. s\<lparr>st_negot_wait_ns := st_negot_wait_ns s + (t1 - t0)\<rparr>) c"
  let ?d = "upd_stats (\<lambda>s. s\<lparr>st_shm_setup_acks := st_shm_setup_acks s + 1\<rparr>) ?c"
  have "waited c w ?c w2"
    using waited_stats [of c w "\<lambda>s. s\<lparr>st_negot_wait_ns := st_negot_wait_ns s + (t1 - t0)\<rparr>"] a0 a2
    by (auto simp: waited_def)
  then have w: "waited c w ?d w2" using waited_stats waited_trans by blast
  have "await_ack c d w = (case producer_map_ring ?d w2 of None \<Rightarrow> None
      | Some (rc, c, w) \<Rightarrow> if rc \<noteq> 0 then Some (rc, c, w) else Some (0, c\<lparr>cx_negot_done := True\<rparr>, w))"
    using w0 r w2 assms(5) by (subst await_ack.simps) (simp add: errno_defs Let_def)
  then show ?thesis using w by blast
qed

subsection \<open>The whole wait\<close>

lemma await_timeouts:
  assumes "us_poll (w_uds w) = replicate k PollTimeout @ ps" "cx_uds c \<noteq> None" "0 < cx_rxbuf_cap c"
    and "\<And>n. w_clock w n \<le> d"
  shows "\<exists>c' w'. waited c w c' w' \<and> us_poll (w_uds w') = ps \<and> us_recv (w_uds w') = us_recv (w_uds w) \<and>
    await_ack c d w = await_ack c' d w'"
  using assms
proof (induction k arbitrary: c w)
  case 0
  then show ?case by (intro exI [of _ c] exI [of _ w]) simp
next
  case (Suc k)
  have "us_poll (w_uds w) = PollTimeout # replicate k PollTimeout @ ps" using Suc.prems(1) by simp
  from await_timeout_turn [OF this Suc.prems(2,3), of d] obtain c1 w1 t where
    s: "waited c w c1 w1" "us_poll (w_uds w1) = replicate k PollTimeout @ ps" "us_recv (w_uds w1) = us_recv (w_uds w)"
    "await_ack c d w = (if d < w_clock w t then Some (- ETIMEDOUT, c1, w1) else await_ack c1 d w1)" by blast
  then have go: "await_ack c d w = await_ack c1 d w1" using Suc.prems(4) by (simp add: not_less [symmetric])
  obtain c' w' where "waited c1 w1 c' w'" "us_poll (w_uds w') = ps" "us_recv (w_uds w') = us_recv (w_uds w1)"
    "await_ack c1 d w1 = await_ack c' d w'"
    using Suc.IH [OF s(2)] Suc.prems(2-4) waited_fields [OF s(1)] by (metis (no_types, lifting))
  then show ?case using s(1,3) go waited_trans by metis
qed

lemma await_others:
  assumes "us_poll (w_uds w) = replicate (length fs) PollReady @ ps" "us_recv (w_uds w) = map RecvMsg fs @ rs"
    and "cx_uds c \<noteq> None" "\<forall>f\<in>set fs. f \<noteq> [] \<and> length f \<le> unat (cx_rxbuf_cap c) \<and> \<not> is_setup_ack f"
  shows "\<exists>c' w'. waited c w c' w' \<and> us_poll (w_uds w') = ps \<and> us_recv (w_uds w') = rs \<and>
    await_ack c d w = await_ack c' d w'"
  using assms
proof (induction fs arbitrary: c w)
  case Nil
  then show ?case by (intro exI [of _ c] exI [of _ w]) simp
next
  case (Cons f fs)
  have "us_poll (w_uds w) = PollReady # replicate (length fs) PollReady @ ps"
    "us_recv (w_uds w) = RecvMsg f # map RecvMsg fs @ rs" using Cons.prems(1,2) by simp_all
  from await_other_turn [OF this Cons.prems(3), of d] Cons.prems(4) obtain c1 w1 where
    s: "waited c w c1 w1" "us_poll (w_uds w1) = replicate (length fs) PollReady @ ps"
    "us_recv (w_uds w1) = map RecvMsg fs @ rs" "await_ack c d w = await_ack c1 d w1" by auto
  obtain c' w' where "waited c1 w1 c' w'" "us_poll (w_uds w') = ps" "us_recv (w_uds w') = rs"
    "await_ack c1 d w1 = await_ack c' d w'"
    using Cons.IH [OF s(2,3)] Cons.prems(3,4) waited_fields [OF s(1)] by (metis (no_types, lifting) list.set_intros(2))
  then show ?case using s(1,4) waited_trans by metis
qed

text \<open>The wait with no answer: after \<open>m\<close> readings the clock is past the deadline.\<close>

lemma await_times_out:
  assumes "us_poll (w_uds w) = replicate (Suc m) PollTimeout @ ps" "cx_uds c \<noteq> None" "0 < cx_rxbuf_cap c"
    and "\<And>n. w_tick w + m \<le> n \<Longrightarrow> d < w_clock w n"
  shows "\<exists>c' w'. await_ack c d w = Some (- ETIMEDOUT, c', w') \<and> waited c w c' w'"
  using assms
proof (induction m arbitrary: c w)
  case (0 c w)
  have "us_poll (w_uds w) = PollTimeout # ps" using 0 by simp
  from await_timeout_turn [OF this 0(2,3), of d] show ?case using 0(4) by fastforce
next
  case (Suc m)
  have "us_poll (w_uds w) = PollTimeout # replicate (Suc m) PollTimeout @ ps" using Suc.prems(1) by simp
  from await_timeout_turn [OF this Suc.prems(2,3), of d] obtain c1 w1 t where
    s: "waited c w c1 w1" "us_poll (w_uds w1) = replicate (Suc m) PollTimeout @ ps" "w_tick w < w_tick w1"
    "await_ack c d w = (if d < w_clock w t then Some (- ETIMEDOUT, c1, w1) else await_ack c1 d w1)" by blast
  show ?case
  proof (cases "d < w_clock w t")
    case True
    then show ?thesis using s by auto
  next
    case False
    have "w_tick w1 + m \<le> n \<Longrightarrow> d < w_clock w1 n" for n
      using Suc.prems(4) [of n] s(3) waited_fields(8) [OF s(1)] by simp
    moreover have "cx_uds c1 \<noteq> None" "0 < cx_rxbuf_cap c1"
      using Suc.prems(2,3) waited_fields(2,3) [OF s(1)] by simp_all
    ultimately obtain c' w' where "await_ack c1 d w1 = Some (- ETIMEDOUT, c', w')" "waited c1 w1 c' w'"
      using Suc.IH [OF s(2)] by blast
    then show ?thesis using False s(4) waited_trans [OF s(1)] by auto
  qed
qed

subsection \<open>Mapping\<close>

text \<open>The calls of \<open>ring_map\<close> succeed.\<close>

definition map_works :: "map_env \<Rightarrow> bool" where
  "map_works e \<longleftrightarrow> 0 \<le> me_shm_open e \<and> me_fstat e = 0 \<and> me_ftruncate e = 0 \<and> me_mmap e = 0 \<and> me_calloc e"

lemma attach_works:
  assumes "map_works (w_map w)" "take 1 nm = ''/''" "0 < cap" "capacity_ok cap"
  shows "\<exists>rb obj k. attach_ring nm cap role w = Some (0, Some rb, w\<lparr>w_obj := obj\<rparr>) \<and>
    round_pow2 cap = Some (rb_capacity rb) \<and> ring_geom rb k \<and>
    (role = SHM_RING_ROLE_PRODUCER \<longrightarrow> ring_holds rb obj [])"
proof -
  have nz: "cap \<noteq> 0" using assms(3) by auto
  have "\<exists>c. round_pow2 cap = Some c"
  proof (cases rule: round_pow2_cases [of cap])
    case spins
    have "unat cap \<le> 2 ^ 31" using assms(4) by (simp add: capacity_ok_def word_le_nat_alt)
    then show ?thesis using spins by (simp add: word_less_nat_alt)
  qed simp
  then obtain c where c: "round_pow2 cap = Some c" by blast
  let ?rb = "\<lparr>rb_capacity = c, rb_name = take 63 nm, rb_fd = me_shm_open (w_map w)\<rparr>"
  obtain k where g: "ring_geom ?rb k" using round_pow2_geom [of cap c] assms(4) c nz by auto
  have "\<exists>obj. attach_ring nm cap role w = Some (0, Some ?rb, w\<lparr>w_obj := obj\<rparr>) \<and>
    (role = SHM_RING_ROLE_PRODUCER \<longrightarrow> ring_holds ?rb obj [])"
    using assms(1,2) c nz init_holds [OF g]
    by (cases role) (auto simp: attach_ring_def shm_ring_attach_def ring_map_def map_works_def Let_def)
  then show ?thesis using c g by (metis shm_ring.select_convs(1))
qed

lemma producer_maps:
  assumes "map_works (w_map w)" "w_realloc w" "take 1 (cx_neg_name c) = ''/''"
    and "0 < cx_shm_capacity c" "capacity_ok (cx_shm_capacity c)"
  shows "\<exists>rb c' w'. producer_map_ring c w = Some (0, c', w') \<and> cx_ring c' = Some rb \<and>
    round_pow2 (cx_shm_capacity c) = Some (rb_capacity rb) \<and> ring_holds rb (w_obj w') [] \<and>
    cx_nonblocking_send c' = cx_nonblocking_send c \<and> cx_shm_capacity c' = cx_shm_capacity c \<and>
    w_wire w' = w_wire w \<and> w_rounds w' = w_rounds w"
proof -
  obtain rb obj where a: "attach_ring (cx_neg_name c) (cx_shm_capacity c) SHM_RING_ROLE_PRODUCER w
      = Some (0, Some rb, w\<lparr>w_obj := obj\<rparr>)" "round_pow2 (cx_shm_capacity c) = Some (rb_capacity rb)"
    "ring_holds rb obj []" using attach_works [OF assms(1,3,4,5)] by blast
  then show ?thesis using assms(2) by (auto simp: producer_map_ring_def grow_rxbuf_def)
qed

subsection \<open>The consumer's answer\<close>

lemma cap32_unat: "(cap :: csize) \<le> 2 ^ 30 \<Longrightarrow> unat (ucast cap :: u32) = unat cap"
proof -
  assume "cap \<le> 2 ^ 30"
  then have "unat cap \<le> 2 ^ 30" by (simp add: word_le_nat_alt)
  then show ?thesis by (simp add: unsigned_ucast_eq take_bit_nat_eq_self)
qed

lemma cap32_exact: "(cap :: csize) \<le> 2 ^ 30 \<Longrightarrow> ucast (ucast cap :: u32) = cap"
proof -
  assume "cap \<le> 2 ^ 30"
  then have "unat cap \<le> 2 ^ 30" by (simp add: word_le_nat_alt)
  then have "unat (ucast (ucast cap :: u32) :: csize) = unat cap"
    by (simp add: unsigned_ucast_eq unsigned_take_bit_eq take_bit_nat_eq_self)
  then show ?thesis by (rule unsigned_word_eqI)
qed

lemma cap32_small: "(cap :: csize) \<le> 2 ^ 30 \<Longrightarrow> 0 < cap \<Longrightarrow> (ucast cap :: u32) \<noteq> 0 \<and> \<not> 2 ^ 30 < (ucast cap :: u32)"
  using cap32_unat [of cap] by (auto simp: word_le_nat_alt word_less_nat_alt)

lemma consumer_answers:
  assumes "cx_ring q = None" "cx_uds q \<noteq> None" "map_works (w_map w)" "w_realloc w"
    and "us_send (w_uds w) = SysOk 3 # rs" "take 1 nm = ''/''" "CHR 0x00 \<notin> set nm" "0 < cap" "cap \<le> 2 ^ 30"
  shows "\<exists>rb q' w'. handle_control q (setup_req cap nm) w = Some (q', w') \<and>
    w_wire w' = w_wire w @ [setup_ack 0] \<and> cx_ring q' = Some rb \<and> round_pow2 cap = Some (rb_capacity rb) \<and>
    cap \<le> cx_rxbuf_cap q' \<and> cx_rxbuf_cap q \<le> cx_rxbuf_cap q' \<and> cx_role q' = cx_role q \<and> cx_uds q' = cx_uds q"
proof -
  have parse: "parse_setup_req (setup_req cap nm) = Some (ucast cap, nm)"
    using parse_request [OF assms(7), of cap] cap32_small [OF assms(9,8)] by simp
  have "capacity_ok cap" using assms(9) order_trans [of cap "2 ^ 30" "2 ^ 31"] by (simp add: capacity_ok_def)
  then obtain rb obj where a: "attach_ring nm cap SHM_RING_ROLE_CONSUMER w = Some (0, Some rb, w\<lparr>w_obj := obj\<rparr>)"
    "round_pow2 cap = Some (rb_capacity rb)" using attach_works [OF assms(3,6,8)] by blast
  let ?w = "w\<lparr>w_obj := obj\<rparr>"
  obtain q1 where q1: "grow_rxbuf (q\<lparr>cx_ring := Some rb\<rparr>) cap ?w = (0, q1)" "cx_ring q1 = Some rb"
    "cap \<le> cx_rxbuf_cap q1" "cx_rxbuf_cap q \<le> cx_rxbuf_cap q1" "cx_role q1 = cx_role q" "cx_uds q1 = cx_uds q"
    using assms(4) by (cases "cap \<le> cx_rxbuf_cap q") (auto simp: grow_rxbuf_def)
  have att: "consumer_attach q (ucast cap) nm w = Some (0, q1, ?w)"
    using assms(1) a(1) q1(1) by (simp add: consumer_attach_def cap32_exact [OF assms(9)])
  obtain ep where "cx_uds q1 = Some ep" using q1(6) assms(2) by auto
  then have snd: "\<exists>sc. send_frame q1 (setup_ack 0) ?w = Some (0, ?w\<lparr>w_uds := sc, w_wire := w_wire w @ [setup_ack 0]\<rparr>)"
    using assms(5) by (auto simp: send_frame_def uds_send_def setup_ack_def UDS_MAX_DGRAM_def)
  have frame: "\<not> length (setup_req cap nm) < 2" "setup_req cap nm ! 1 = ADAPT_CTRL_SHM_SETUP_REQ"
    by (simp_all add: setup_req_def)
  obtain q' w' where h: "handle_control q (setup_req cap nm) w = Some (q', w')"
    "w_wire w' = w_wire w @ [setup_ack 0]"
    "q' = upd_stats (\<lambda>s. s\<lparr>st_shm_setup_acks := st_shm_setup_acks s + 1\<rparr>) q1"
    using frame parse att snd by (auto simp: handle_control_def)
  have "cx_ring q' = Some rb" "cap \<le> cx_rxbuf_cap q'" "cx_rxbuf_cap q \<le> cx_rxbuf_cap q'" "cx_role q' = cx_role q"
    "cx_uds q' = cx_uds q" using q1 by (simp_all add: h(3))
  then show ?thesis using h(1,2) a(2) by blast
qed

subsection \<open>The producer's call\<close>

lemma generated_name:
  assumes "generate_shm_name w = (nm, w')"
  shows "take 1 nm = ''/''" "CHR 0x00 \<notin> set nm" "length nm \<le> 63" "nm \<noteq> []" "w' = w\<lparr>w_names := w_names w + 1\<rparr>"
proof -
  have nm: "nm = take 63 (''/adaptipc_shm_'' @ string_of_nat (w_pid w) @ ''_'' @ string_of_nat (unat (w_names w + 1)))"
    and w': "w' = w\<lparr>w_names := w_names w + 1\<rparr>"
    using assms by (auto simp: generate_shm_name_def)
  show "w' = w\<lparr>w_names := w_names w + 1\<rparr>" by (rule w')
  show "take 1 nm = ''/''" "length nm \<le> 63" "nm \<noteq> []" by (simp_all add: nm)
  have d: "CHR 0x00 \<notin> set (string_of_nat n)" for n
    using string_of_nat_digits [of "CHR 0x00" n] by (auto simp: of_char_def)
  have "CHR 0x00 \<notin> set (''/adaptipc_shm_'' @ string_of_nat (w_pid w) @ ''_'' @ string_of_nat (unat (w_names w + 1)))"
    using d by simp
  then show "CHR 0x00 \<notin> set nm" unfolding nm by (auto dest: in_set_takeD)
qed

lemma request_works:
  assumes "ADAPT_NEGOT_RESEND_MS * 1000000 < now - cx_last_req_ns c" "cx_uds c \<noteq> None"
    and "length (cx_neg_name c) \<le> 63"
    and "us_send (w_uds w) = SysOk (length (setup_req (cx_shm_capacity c) (cx_neg_name c))) # ss"
  shows "\<exists>c'. request_ring c now w = Some (0, c', w\<lparr>w_uds := (w_uds w)\<lparr>us_send := ss\<rparr>,
      w_wire := w_wire w @ [setup_req (cx_shm_capacity c) (cx_neg_name c)]\<rparr>) \<and>
    (\<exists>st. c' = c\<lparr>cx_st := st, cx_last_req_ns := now\<rparr>)"
proof -
  let ?f = "setup_req (cx_shm_capacity c) (cx_neg_name c)"
  obtain ep where ep: "cx_uds c = Some ep" using assms(2) by blast
  have f: "?f \<noteq> []" "length ?f \<le> UDS_MAX_DGRAM"
    using assms(3) by (simp_all add: setup_req_def bytes_of_def UDS_MAX_DGRAM_def le32_def)
  have "send_frame c ?f w = Some (0, w\<lparr>w_uds := (w_uds w)\<lparr>us_send := ss\<rparr>, w_wire := w_wire w @ [?f]\<rparr>)"
    using ep f assms(4) by (simp add: send_frame_def uds_send_def)
  then show ?thesis using assms(1)
    by (auto simp: request_ring_def upd_stats_def intro: exI [of _ "cx_st c"])
qed

text \<open>Request, answer and wait together.\<close>

lemma handshake_works:
  assumes p: "\<not> cx_negot_done p" "cx_neg_name p = []" "cx_uds p \<noteq> None"
      "3 \<le> unat (cx_rxbuf_cap p)" "0 < cx_shm_capacity p" "cx_shm_capacity p \<le> 2 ^ 30"
      "ADAPT_NEGOT_RESEND_MS * 1000000 < now - cx_last_req_ns p"
    and req: "req = setup_req (cx_shm_capacity p) (fst (generate_shm_name w))"
    and q: "cx_role q = ADAPT_ROLE_CONSUMER" "cx_ring q = None" "cx_uds q \<noteq> None"
      "UDS_MAX_DGRAM \<le> unat (cx_rxbuf_cap q)" "map_works (w_map wq)" "w_realloc wq" "w_wire wq = []"
      "us_send (w_uds wq) = SysOk 3 # rs"
    and ans: "handle_control q req wq = Some (q', wq')"
    and w: "map_works (w_map w)" "w_realloc w" "w_obj w = w_obj wq'" "us_send (w_uds w) = SysOk (length req) # ss"
      "us_poll (w_uds w) = replicate k PollTimeout @ [PollReady]" "us_recv (w_uds w) = map RecvMsg (w_wire wq')"
      "\<And>n. w_clock w n \<le> now + ADAPT_NEGOT_DEADLINE_MS * 1000000"
  shows "\<exists>p' w'. producer_ensure_shm p now w = Some (0, p', w') \<and> w_wire w' = w_wire w @ [req] \<and> cx_negot_done p' \<and>
    cx_nonblocking_send p' = cx_nonblocking_send p \<and> w_rounds w' = w_rounds w \<and>
    cx_shm_capacity p' = cx_shm_capacity p \<and> round_pow2 (cx_shm_capacity p) = Some (rb_capacity (the (cx_ring p'))) \<and>
    talk_starts \<lparr>tk_tx = p', tk_rx = q', tk_obj = w_obj w', tk_net = [], tk_sent = [], tk_got = []\<rparr>"
proof -
  let ?d = "now + ADAPT_NEGOT_DEADLINE_MS * 1000000"
  obtain nm w1 where g: "generate_shm_name w = (nm, w1)" by fastforce
  note nm = generated_name [OF g]
  have req: "req = setup_req (cx_shm_capacity p) nm" using req g by simp
  obtain rb where c: "w_wire wq' = [setup_ack 0]" "cx_ring q' = Some rb"
    "round_pow2 (cx_shm_capacity p) = Some (rb_capacity rb)" "cx_shm_capacity p \<le> cx_rxbuf_cap q'"
    "cx_rxbuf_cap q \<le> cx_rxbuf_cap q'" "cx_role q' = cx_role q" "cx_uds q' = cx_uds q"
    using consumer_answers [OF q(2,3,5,6,8) nm(1,2) p(5,6)] ans q(7) unfolding req by auto
  let ?p1 = "p\<lparr>cx_neg_name := nm\<rparr>"
  obtain p2 st where r: "request_ring ?p1 now w1 = Some (0, p2, w1\<lparr>w_uds := (w_uds w1)\<lparr>us_send := ss\<rparr>,
      w_wire := w_wire w1 @ [req]\<rparr>)" and p2: "p2 = ?p1\<lparr>cx_st := st, cx_last_req_ns := now\<rparr>"
    using request_works [of now ?p1 w1 ss] p(3,7) nm(3,5) w(4) req by auto
  let ?w2 = "w1\<lparr>w_uds := (w_uds w1)\<lparr>us_send := ss\<rparr>, w_wire := w_wire w1 @ [req]\<rparr>"
  have start: "producer_ensure_shm p now w = await_ack p2 ?d ?w2"
    using p(1,2) g r by (simp add: producer_ensure_shm_def name_ring_def)
  have cap: "0 < cx_rxbuf_cap p2" "3 \<le> unat (cx_rxbuf_cap p2)" "cx_uds p2 \<noteq> None"
    using p(3,4) by (auto simp: p2 word_less_nat_alt)
  have clk: "w_clock ?w2 n \<le> ?d" for n using w(7) nm(5) by simp
  obtain p3 w3 where t: "waited p2 ?w2 p3 w3" "us_poll (w_uds w3) = [PollReady]"
    "us_recv (w_uds w3) = [RecvMsg (setup_ack 0)]" "await_ack p2 ?d ?w2 = await_ack p3 ?d w3"
    using await_timeouts [of ?w2 k "[PollReady]" p2 ?d] w(5,6) c(1) cap clk nm(5) by auto
  note f3 = waited_fields [OF t(1)]
  have ack: "is_setup_ack (setup_ack 0)" "length (setup_ack 0) = 3"
    by (simp_all add: is_setup_ack_def setup_ack_def)
  obtain p4 w4 where a: "waited p3 w3 p4 w4" "await_ack p3 ?d w3 = (case producer_map_ring p4 w4 of None \<Rightarrow> None
      | Some (rc, c, w) \<Rightarrow> if rc \<noteq> 0 then Some (rc, c, w) else Some (0, c\<lparr>cx_negot_done := True\<rparr>, w))"
    using await_ack_turn [of w3 "[]" "setup_ack 0" "[]" p3 ?d] t(2,3) ack cap(2,3) f3(2,3) by auto
  note f4 = waited_fields [OF a(1)]
  have p4: "cx_neg_name p4 = nm" "cx_shm_capacity p4 = cx_shm_capacity p" "cx_nonblocking_send p4 = cx_nonblocking_send p"
    using f3 f4 by (simp_all add: p2)
  have w4: "map_works (w_map w4)" "w_realloc w4" "w_wire w4 = w_wire w @ [req]" "w_rounds w4 = w_rounds w"
    using f3 f4 w(1,2) nm(5) by simp_all
  have capok: "capacity_ok (cx_shm_capacity p4)"
    using p(6) p4(2) order_trans [of "cx_shm_capacity p" "2 ^ 30" "2 ^ 31"] by (simp add: capacity_ok_def)
  obtain rp p5 w5 where m: "producer_map_ring p4 w4 = Some (0, p5, w5)" "cx_ring p5 = Some rp"
    "round_pow2 (cx_shm_capacity p4) = Some (rb_capacity rp)" "ring_holds rp (w_obj w5) []"
    "cx_nonblocking_send p5 = cx_nonblocking_send p4" "cx_shm_capacity p5 = cx_shm_capacity p4" "w_wire w5 = w_wire w4" "w_rounds w5 = w_rounds w4"
    using producer_maps [of w4 p4] w4 p4 nm(1) p(5) capok by auto
  have same: "rb_capacity rp = rb_capacity rb" using m(3) c(3) p4(2) by simp
  have "producer_ensure_shm p now w = Some (0, p5\<lparr>cx_negot_done := True\<rparr>, w5)"
    using start t(4) a(2) m(1) by simp
  moreover have "UDS_MAX_DGRAM \<le> unat (cx_rxbuf_cap q')"
    using q(4) c(5) by (simp add: word_le_nat_alt)
  then have "talk_starts \<lparr>tk_tx = p5\<lparr>cx_negot_done := True\<rparr>, tk_rx = q', tk_obj = w_obj w5, tk_net = [], tk_sent = [], tk_got = []\<rparr>"
    using m(2,4,5,6) c(2,4,6,7) q(1,3) p4 same ring_holds_cap [OF same] by (auto simp: talk_starts_def)
  ultimately show ?thesis using m(2,3,5,6,7,8) w4(3,4) p4(2,3) by auto
qed

subsection \<open>Properties\<close>

text \<open>C6: The negotiation works: the consumer answers the producer's request by mapping a ring and
  acknowledging it; the producer, when it gets that answer before the deadline, maps its side;
  and then both handles have the same capacity, the ring is empty, and the endpoints are as a
  conversation starts. The only assumption on the system is that its calls succeed.\<close>

lemma handshake_establishes:
  assumes p: "\<not> cx_negot_done p" "cx_neg_name p = []" "cx_uds p \<noteq> None"
      "3 \<le> unat (cx_rxbuf_cap p)" "0 < cx_shm_capacity p" "cx_shm_capacity p \<le> 2 ^ 30"
      "ADAPT_NEGOT_RESEND_MS * 1000000 < now - cx_last_req_ns p"
    and req: "req = setup_req (cx_shm_capacity p) (fst (generate_shm_name w))"
    and q: "cx_role q = ADAPT_ROLE_CONSUMER" "cx_ring q = None" "cx_uds q \<noteq> None"
      "UDS_MAX_DGRAM \<le> unat (cx_rxbuf_cap q)" "map_works (w_map wq)" "w_realloc wq" "w_wire wq = []"
      "us_send (w_uds wq) = SysOk 3 # rs"
    and ans: "handle_control q req wq = Some (q', wq')"
    and w: "map_works (w_map w)" "w_realloc w" "w_obj w = w_obj wq'" "us_send (w_uds w) = SysOk (length req) # ss"
      "us_poll (w_uds w) = replicate k PollTimeout @ [PollReady]" "us_recv (w_uds w) = map RecvMsg (w_wire wq')"
      "\<And>n. w_clock w n \<le> now + ADAPT_NEGOT_DEADLINE_MS * 1000000"
  shows "\<exists>p' w'. producer_ensure_shm p now w = Some (0, p', w') \<and> w_wire w' = w_wire w @ [req] \<and> cx_negot_done p' \<and>
    talk_starts \<lparr>tk_tx = p', tk_rx = q', tk_obj = w_obj w', tk_net = [], tk_sent = [], tk_got = []\<rparr>"
  using handshake_works [OF p req q ans w] by blast

text \<open>Without an answer the wait ends: when every poll times out, the call returns \<open>-ETIMEDOUT\<close>
  with the first reading behind the deadline, no ring is mapped and nothing is sent.\<close>

lemma await_ack_times_out:
  assumes "us_poll (w_uds w) = replicate (Suc m) PollTimeout @ ps" "cx_uds c \<noteq> None" "0 < cx_rxbuf_cap c"
    and "\<And>n. w_tick w + m \<le> n \<Longrightarrow> d < w_clock w n"
  shows "\<exists>c' w'. await_ack c d w = Some (- ETIMEDOUT, c', w') \<and> cx_ring c' = cx_ring c \<and>
    w_wire w' = w_wire w \<and> w_obj w' = w_obj w"
  using await_times_out [OF assms] waited_fields(1,9,12) by blast

lemma await_waits:
  assumes "us_poll (w_uds w) = []" "cx_uds c \<noteq> None" "0 < cx_rxbuf_cap c"
  shows "await_ack c d w = None"
proof -
  obtain t0 w0 where w0: "tick_if (cx_stats_on c) w = (t0, w0)" by fastforce
  have "recv_frame c (cx_rxbuf_cap c) ADAPT_NEGOT_POLL_MS w0 = None"
    using waited_tick [OF w0, of c] assms by (auto simp: recv_frame_def uds_recv_timeout_def ADAPT_NEGOT_POLL_MS_def)
  then show ?thesis using w0 by (subst await_ack.simps) simp
qed

text \<open>C39: The deadline is compared only when a poll times out: as long as other frames arrive (a
  refusal of the consumer is one), the wait goes on, whatever the clock says.\<close>

lemma await_ack_starved:
  assumes "us_poll (w_uds w) = replicate (length fs) PollReady" "us_recv (w_uds w) = map RecvMsg fs"
    and "cx_uds c \<noteq> None" "0 < cx_rxbuf_cap c"
    and "\<forall>f\<in>set fs. f \<noteq> [] \<and> length f \<le> unat (cx_rxbuf_cap c) \<and> \<not> is_setup_ack f"
  shows "await_ack c d w = None"
proof -
  obtain c' w' where t: "waited c w c' w'" "us_poll (w_uds w') = []" "await_ack c d w = await_ack c' d w'"
    using await_others [of w fs "[]" "[]" c d] assms by auto
  then show ?thesis using await_waits [of w' c' d] assms(3,4) waited_fields(2,3) [OF t(1)] by simp
qed

subsection \<open>A negotiation on one page\<close>

definition fresh_producer :: adapt_ctx where
  "fresh_producer = page_producer\<lparr>cx_ring := None\<rparr>"

definition fresh_consumer :: adapt_ctx where
  "fresh_consumer = page_consumer\<lparr>cx_ring := None\<rparr>"

text \<open>A world whose clock reads the given value.\<close>

definition stopped_world :: "u64 \<Rightarrow> shm_obj \<Rightarrow> uds_script \<Rightarrow> world" where
  "stopped_world t obj sc = (quiet_world obj sc)\<lparr>w_clock := (\<lambda>_. t)\<rparr>"

lemma stopped_world_simps [simp]:
  "w_obj (stopped_world t obj sc) = obj" "w_uds (stopped_world t obj sc) = sc" "w_wire (stopped_world t obj sc) = []"
  "w_map (stopped_world t obj sc) = quiet_map" "w_realloc (stopped_world t obj sc)" "w_clock (stopped_world t obj sc) n = t"
  by (simp_all add: stopped_world_def)

lemma stopped_name: "fst (generate_shm_name (stopped_world t obj sc)) = fst (generate_shm_name (stopped_world 0 (page_at 0 0) (sends_only [])))"
  by (simp add: generate_shm_name_def stopped_world_def quiet_world_def)

lemma quiet_map_works: "map_works quiet_map"
  by (simp add: map_works_def quiet_map_def)

definition page_req :: "u8 list" where
  "page_req = setup_req 4096 (fst (generate_shm_name (stopped_world 0 (page_at 0 0) (sends_only []))))"

lemma page_answer:
  "\<exists>q' wq'. handle_control fresh_consumer page_req (quiet_world (page_at 0 0) (sends_only [SysOk 3])) = Some (q', wq')"
proof -
  obtain nm w1 where g: "generate_shm_name (stopped_world 0 (page_at 0 0) (sends_only [])) = (nm, w1)" by fastforce
  have "page_req = setup_req 4096 nm" by (simp add: page_req_def g)
  then show ?thesis
    using consumer_answers [of fresh_consumer "quiet_world (page_at 0 0) (sends_only [SysOk 3])" "[]" nm 4096]
      generated_name(1,2) [OF g] quiet_map_works
    by (auto simp: fresh_consumer_def sends_only_def word_le_nat_alt)
qed

lemma handshake_establishes_witness:
  "\<exists>q' wq' p' w' sc. handle_control fresh_consumer page_req (quiet_world (page_at 0 0) (sends_only [SysOk 3])) = Some (q', wq') \<and>
     producer_ensure_shm fresh_producer 2000000000 (stopped_world 0 (w_obj wq') sc) = Some (0, p', w') \<and>
     w_wire w' = [page_req] \<and>
     talk_starts \<lparr>tk_tx = p', tk_rx = q', tk_obj = w_obj w', tk_net = [], tk_sent = [], tk_got = []\<rparr>"
proof -
  obtain q' wq' where a: "handle_control fresh_consumer page_req (quiet_world (page_at 0 0) (sends_only [SysOk 3])) = Some (q', wq')"
    using page_answer by blast
  let ?sc = "\<lparr>us_send = [SysOk (length page_req)], us_poll = [PollTimeout, PollReady], us_recv = map RecvMsg (w_wire wq')\<rparr>"
  have fp: "\<not> cx_negot_done fresh_producer" "cx_neg_name fresh_producer = []" "cx_shm_capacity fresh_producer = 4096"
    "cx_last_req_ns fresh_producer = 0" "cx_uds fresh_producer = Some example_ep" "cx_rxbuf_cap fresh_producer = 4096"
    "cx_nonblocking_send fresh_producer"
    by (simp_all add: fresh_producer_def page_producer_def init_ctx_def page_cfg_def Let_def)
  have "\<exists>p' w'. producer_ensure_shm fresh_producer 2000000000 (stopped_world 0 (w_obj wq') ?sc) = Some (0, p', w') \<and>
      w_wire w' = w_wire (stopped_world 0 (w_obj wq') ?sc) @ [page_req] \<and> cx_negot_done p' \<and>
      talk_starts \<lparr>tk_tx = p', tk_rx = q', tk_obj = w_obj w', tk_net = [], tk_sent = [], tk_got = []\<rparr>"
  proof (rule handshake_establishes [where k = 1 and ss = "[]" and rs = "[]", OF _ _ _ _ _ _ _ _ _ _ _ _ _ _ _ _ a])
    show "page_req = setup_req (cx_shm_capacity fresh_producer) (fst (generate_shm_name (stopped_world 0 (w_obj wq') ?sc)))"
      by (simp add: page_req_def fp(3)) (simp only: stopped_name [of 0 "w_obj wq'"])
  qed (simp_all add: fp fresh_consumer_def quiet_map_works sends_only_def UDS_MAX_DGRAM_def
      ADAPT_NEGOT_RESEND_MS_def ADAPT_NEGOT_DEADLINE_MS_def word_le_nat_alt word_less_nat_alt)
  then show ?thesis using a by auto
qed

lemma await_ack_times_out_witness:
  "\<exists>c' w'. await_ack fresh_producer 5 (stopped_world 9 (page_at 0 0)
     \<lparr>us_send = [], us_poll = [PollTimeout], us_recv = []\<rparr>) = Some (- ETIMEDOUT, c', w') \<and> cx_ring c' = None"
  using await_ack_times_out [of "stopped_world 9 (page_at 0 0) \<lparr>us_send = [], us_poll = [PollTimeout], us_recv = []\<rparr>"
      0 "[]" fresh_producer 5] by (auto simp: fresh_producer_def)

lemma await_ack_starved_witness:
  "await_ack fresh_producer 5 (stopped_world 9 (page_at 0 0)
     \<lparr>us_send = [], us_poll = [PollReady, PollReady], us_recv = map RecvMsg [setup_ack 22, setup_ack 22]\<rparr>) = None"
  by (rule await_ack_starved [where fs = "[setup_ack 22, setup_ack 22]"])
     (simp_all add: fresh_producer_def is_setup_ack_def setup_ack_def)

end
