(* ===== verification/Lockstep.thy ===== *)
theory Lockstep
  imports Negotiation
begin

text \<open>
  Two endpoints in lockstep: over a mapped ring, every send is followed by its receive, so each send
  finds the ring empty. Then a blocking send of a message that is small against the ring never
  waits, and each receive takes exactly the message sent before it. And the eager set-up of
  \<open>adapt_init\<close> on both sides leads to such endpoints.
\<close>

subsection \<open>Pushes into an empty ring\<close>

lemma empty_push_blocking:
  assumes "ring_holds rb s []" "sendv_ok sgs" "gather sgs \<noteq> []"
    and "2 * (length (gather sgs) + 4) \<le> unat (rb_capacity rb)" "rs \<noteq> []"
  shows "\<exists>s'. shm_ring_push_scatter_blocking (Some rb) (Some sgs) rs s = Some (0, s') \<and> ring_holds rb s' [gather sgs]"
proof -
  obtain r rs' where rs: "rs = r # rs'" using assms(5) by (cases rs) auto
  have wait: "shm_ring_wait_writable (Some rb) rs s = Some (0, s, rs')"
    using consume_nothing [OF assms(1)] empty_writable [OF assms(1)] by (simp add: rs)
  obtain s' where p: "shm_ring_push_scatter (Some rb) (Some sgs) s = Some (0, s')" "ring_holds rb s' [gather sgs]"
    using empty_push_scatter [OF assms(1-4)] by blast
  then have "push_retry rb (Some sgs) rs' s = Some (0, s')" by (subst push_retry_simps) (simp add: errno_defs)
  then show ?thesis using wait p(2) by (simp add: shm_ring_push_scatter_blocking_def)
qed

lemma empty_ring_push:
  assumes "cx_ring c = Some rb" "ring_holds rb (w_obj w) []" "bs \<noteq> []" "length bs < 2 ^ 62"
    and "2 * (length bs + 5) \<le> unat (rb_capacity rb)" "cx_nonblocking_send c \<or> w_rounds w \<noteq> []"
  shows "\<exists>s. ring_push c timed bs w = Some (0, w\<lparr>w_obj := s\<rparr>) \<and> ring_holds rb s [TAG_SHM # bs]"
proof -
  note ok = shm_segs_ok [OF assms(4)]
  have half: "2 * (length (gather (shm_segs bs)) + 4) \<le> unat (rb_capacity rb)" "gather (shm_segs bs) \<noteq> []"
    using assms(5) by simp_all
  obtain s1 where "shm_ring_push_scatter (Some rb) (Some (shm_segs bs)) (w_obj w) = Some (0, s1)"
    "ring_holds rb s1 [TAG_SHM # bs]" using empty_push_scatter [OF assms(2) ok half(2,1)] by auto
  moreover have "\<exists>s2. shm_ring_push_scatter_blocking (Some rb) (Some (shm_segs bs)) (w_rounds w) (w_obj w) = Some (0, s2) \<and>
    ring_holds rb s2 [TAG_SHM # bs]" if "\<not> cx_nonblocking_send c"
    using empty_push_blocking [OF assms(2) ok half(2,1)] assms(6) that by auto
  ultimately show ?thesis using assms(1) by (auto simp: ring_push_def Let_def errno_defs)
qed

subsection \<open>What a send over a mapped ring leaves alone\<close>

definition ends :: "adapt_ctx \<Rightarrow> adapt_role_t \<times> shm_ring option \<times> uds_endpoint option \<times> csize \<times> bool" where
  "ends c = (cx_role c, cx_ring c, cx_uds c, cx_shm_capacity c, cx_nonblocking_send c)"

lemma ends_upd_stats [simp]: "ends (upd_stats f c) = ends c"
  by (simp add: ends_def)

lemma ends_simps [simp]:
  "ends (c\<lparr>cx_retry_pending := a\<rparr>) = ends c" "ends (c\<lparr>cx_pending_size := n\<rparr>) = ends c"
  "ends (c\<lparr>cx_pending_route := r\<rparr>) = ends c" "ends (c\<lparr>cx_learn := l\<rparr>) = ends c"
  "ends (c\<lparr>cx_rt := t\<rparr>) = ends c" "ends (c\<lparr>cx_health := h\<rparr>) = ends c" "ends (c\<lparr>cx_ewma_size := e\<rparr>) = ends c"
  "ends (c\<lparr>cx_last_route := r\<rparr>) = ends c" "ends (c\<lparr>cx_decision_seq := q\<rparr>) = ends c" "ends (c\<lparr>cx_declog := d\<rparr>) = ends c"
  by (simp_all add: ends_def)

lemma note_decision_ends [simp]: "ends (note_decision c r d l) = ends c"
  by (simp add: note_decision_def Let_def split: option.split)

lemma observe_ends: "send_observe c sz w = (now, c', w') \<Longrightarrow> ends c' = ends c"
  by (auto simp: send_observe_def Let_def stats_now_ns_def split: if_splits)

lemma classify_ends: "send_classify c sz now w = (r, c', w') \<Longrightarrow> ends c' = ends c"
  by (auto simp: send_classify_def Let_def split: if_splits prod.splits)

lemma guard_ends: "send_guard c sz r = (x, c') \<Longrightarrow> ends c' = ends c"
  by (auto simp: send_guard_def Let_def escalated_def split: if_splits)

lemma calibrate_ends: "calibrate c r sz t w = (c', w') \<Longrightarrow> ends c' = ends c"
  by (auto simp: calibrate_def Let_def split: prod.splits)

lemma count_copy_ends: "count_copy sz t c w = (c', w') \<Longrightarrow> ends c' = ends c"
  by (auto simp: count_copy_def split: prod.splits)

lemma send_shm_ends: "send_shm c bs w = Some (rc, c', w') \<Longrightarrow> ends c' = ends c"
  by (auto simp: send_shm_def Let_def dest!: calibrate_ends count_copy_ends split: option.splits prod.splits if_split_asm)

lemma send_uds_ends: "send_uds c bs w = Some (rc, c', w') \<Longrightarrow> ends c' = ends c"
  by (auto simp: send_uds_def Let_def dest!: calibrate_ends count_copy_ends split: option.splits prod.splits if_split_asm)

subsection \<open>One send into an empty ring\<close>

lemma send_shm_pushes:
  assumes "\<And>d t u. cx_ring d = cx_ring c \<Longrightarrow> cx_nonblocking_send d = cx_nonblocking_send c \<Longrightarrow>
      w_obj u = w_obj w \<Longrightarrow> w_rounds u = w_rounds w \<Longrightarrow> \<exists>s. ring_push d t bs u = Some (0, u\<lparr>w_obj := s\<rparr>) \<and> P s"
  shows "\<exists>c' w'. send_shm c bs w = Some (0, c', w') \<and> P (w_obj w') \<and> w_wire w' = w_wire w"
proof -
  let ?c = "upd_stats (\<lambda>s. s\<lparr>st_sends_shm := st_sends_shm s + 1\<rparr>) c"
  let ?timed = "ADAPT_POLICY_COST_AWARE \<le> cx_policy c"
  obtain t0 w0 where w0: "tick_if (cx_stats_on c) w = (t0, w0)" by fastforce
  obtain tm w1 where w1: "tick_if ?timed w0 = (tm, w1)" by fastforce
  have io: "w_obj w1 = w_obj w" "w_rounds w1 = w_rounds w" "w_wire w1 = w_wire w"
    using tick_if_world [OF w0] tick_if_world [OF w1] by auto
  obtain s where p: "ring_push ?c ?timed bs w1 = Some (0, w1\<lparr>w_obj := s\<rparr>)" "P s"
    using assms [of ?c w1 ?timed] io by auto
  let ?w2 = "w1\<lparr>w_obj := s\<rparr>"
  obtain c3 w3 where k: "(if tm \<noteq> 0 then calibrate ?c ADAPT_ROUTE_SHM (of_nat (length bs)) tm ?w2 else (?c, ?w2)) = (c3, w3)"
    by fastforce
  have k3: "w_obj w3 = s" "w_wire w3 = w_wire w1"
    using k calibrate_io [of ?c ADAPT_ROUTE_SHM "of_nat (length bs)" tm ?w2 c3 w3] by (auto split: if_splits)
  obtain c4 w4 where cc: "count_copy (of_nat (length bs)) t0 c3 w3 = (c4, w4)" by fastforce
  have "\<exists>c'. send_shm c bs w = Some (0, c', w4)"
    using w0 w1 p k cc by (simp add: send_shm_def Let_def)
  then show ?thesis using p(2) k3 io(3) count_copy_io [OF cc] by auto
qed

text \<open>A blocking send of a small message over an empty ring: the push never waits. What it returns
  otherwise is a refusal of the socket.\<close>

definition lone :: "adapt_ctx \<Rightarrow> shm_ring \<Rightarrow> world \<Rightarrow> u8 list \<Rightarrow> bool" where
  "lone c rb w bs \<longleftrightarrow> cx_ring c = Some rb \<and> ring_holds rb (w_obj w) [] \<and> w_rounds w \<noteq> [] \<and> bs \<noteq> [] \<and>
     length bs < 2 ^ 62 \<and> 2 * (length bs + 5) \<le> unat (rb_capacity rb) \<and> length bs + 1 \<le> unat (cx_shm_capacity c)"

lemma lone_shm:
  assumes "lone c rb w bs" "cx_ring d = Some rb" "w_obj u = w_obj w" "w_rounds u = w_rounds w"
  shows "\<exists>c' w'. send_shm d bs u = Some (0, c', w') \<and> ring_holds rb (w_obj w') [TAG_SHM # bs] \<and> w_wire w' = w_wire u"
  by (rule send_shm_pushes) (use assms empty_ring_push in \<open>auto simp: lone_def\<close>)

lemma rounds_kept:
  assumes "send_observe c sz w = (now, c1, w1)" "send_classify c1 sz now w1 = (r, c2, w2)"
  shows "w_rounds w2 = w_rounds w"
proof -
  have "w_rounds w1 = w_rounds w" using assms(1) by (auto simp: send_observe_def Let_def stats_now_ns_def)
  moreover have tick: "w_rounds v = w_rounds u" if "tick_if b u = (t, v)" for b u t v
    using tick_if_world [OF that] by auto
  have "w_rounds w2 = w_rounds w1"
    using assms(2) by (auto simp: send_classify_def Let_def stats_now_ns_def dest!: tick split: if_splits prod.splits)
  ultimately show ?thesis by simp
qed

text \<open>A send of a message that fits the capacity comes to one of two stages.\<close>

definition sendable :: "adapt_ctx \<Rightarrow> u8 list \<Rightarrow> bool" where
  "sendable c bs \<longleftrightarrow> cx_role c = ADAPT_ROLE_PRODUCER \<and> cx_ring c \<noteq> None \<and> bs \<noteq> [] \<and> length bs < 2 ^ 62 \<and>
     length bs + 1 \<le> unat (cx_shm_capacity c)"

lemma fitting_send_stages:
  assumes "sendable c bs"
  obtains (shm) d u where "adapt_send c (Some bs) w = send_shm d bs u" "same_io c w d u" "ends d = ends c"
      "w_rounds u = w_rounds w"
    | (uds) d u where "adapt_send c (Some bs) w = send_uds d bs u" "same_io c w d u" "ends d = ends c"
      "length bs + 1 \<le> UDS_MAX_DGRAM"
proof -
  let ?sz = "of_nat (length bs) :: csize"
  have a: "cx_role c = ADAPT_ROLE_PRODUCER" "cx_ring c \<noteq> None" "bs \<noteq> []" "length bs < 2 ^ 62"
    "length bs + 1 \<le> unat (cx_shm_capacity c)" using assms by (simp_all add: sendable_def)
  have sz: "?sz \<noteq> 0" using a(3,4) unat_of_nat_u64 [of "length bs"] by auto
  obtain now c1 w1 where o: "send_observe c ?sz w = (now, c1, w1)" by (metis prod_cases3)
  obtain r c2 w2 where k: "send_classify c1 ?sz now w1 = (r, c2, w2)" by (metis prod_cases3)
  obtain x c3 where g: "send_guard (upd_stats (\<lambda>s. s\<lparr>st_sends := st_sends s + 1\<rparr>) c2) ?sz r = (x, c3)" by fastforce
  note st = adapt_send_stages [OF a(1) sz o k g a(2)]
  have e: "ends c3 = ends c" using observe_ends [OF o] classify_ends [OF k] guard_ends [OF g] by simp
  then have "?sz + 1 \<le> cx_shm_capacity c2"
    using a(4,5) unat_of_nat_plus [of "length bs"] observe_ends [OF o] classify_ends [OF k]
    by (simp add: ends_def word_le_nat_alt)
  then have "x \<noteq> None"
    using g by (auto simp: send_guard_def Let_def escalated_def not_less [symmetric] split: if_splits)
  then obtain y where y: "x = Some y" by blast
  show ?thesis
  proof (cases "y = ADAPT_ROUTE_SHM")
    case True
    then show ?thesis using st e rounds_kept [OF o k] that(1) y by simp
  next
    case False
    then have "\<not> of_nat UDS_MAX_DGRAM < ?sz + 1"
      using g y by (auto simp: send_guard_def Let_def split: if_splits)
    then have "length bs + 1 \<le> UDS_MAX_DGRAM"
      using a(4) unat_of_nat_plus [of "length bs"]
      by (simp add: not_less word_le_nat_alt UDS_MAX_DGRAM_def)
    then show ?thesis using st e that(2) y False by simp
  qed
qed

lemma lone_sendable: "lone c rb w bs \<Longrightarrow> cx_role c = ADAPT_ROLE_PRODUCER \<Longrightarrow> sendable c bs"
  by (simp add: lone_def sendable_def)

lemma lone_send:
  assumes "lone c rb w bs" "cx_role c = ADAPT_ROLE_PRODUCER"
    and "adapt_send c (Some bs) w = Some (rc, c', w')" "list_all sys_ret_ok (us_send (w_uds w))"
  shows "ends c' = ends c \<and>
    (rc = 0 \<longrightarrow> ring_holds rb (w_obj w') [TAG_SHM # bs] \<and> w_wire w' = w_wire w \<or>
      ring_holds rb (w_obj w') [] \<and> w_wire w' = w_wire w @ [TAG_UDS # bs]) \<and>
    (rc = - EAGAIN \<longrightarrow> ring_holds rb (w_obj w') [] \<and> w_wire w' = w_wire w)"
  using lone_sendable [OF assms(1,2)]
proof (cases rule: fitting_send_stages [where w = w])
  case (shm d u)
  then have io: "cx_ring d = Some rb" "w_obj u = w_obj w" "w_wire u = w_wire w"
    using assms(1) by (simp_all add: same_io_def lone_def)
  from lone_shm [OF assms(1) io(1,2) shm(4)] show ?thesis
    using shm(1,3) assms(3) io(3) send_shm_ends by (fastforce simp: errno_defs)
next
  case (uds d u)
  then have io: "w_obj u = w_obj w" "w_wire u = w_wire w" "w_uds u = w_uds w" by (simp_all add: same_io_def)
  have s: "send_uds d bs u = Some (rc, c', w')" using uds(1) assms(3) by simp
  obtain sent sc where r: "uds_send (cx_uds d) (Some (cx_peer_sock d)) (Some (TAG_UDS # bs)) (w_uds u) = Some (rc, sent, sc)"
    "w_wire w' = w_wire u @ sent" "w_obj w' = w_obj u" using send_uds_wire [OF s] by blast
  have "if rc = 0 then sent = [TAG_UDS # bs] else sent = [] \<or> rc = - EIO"
    using uds_send_cases(1) [OF r(1)] assms(4) io(3) by (auto split: if_splits)
  then show ?thesis using send_uds_ends [OF s] uds(3) r(2,3) io assms(1) by (auto simp: lone_def errno_defs)
qed

text \<open>It returns 0 when the kernel takes the datagram, whatever errors it retries before.\<close>

definition accepts :: "nat \<Rightarrow> sys_ret list \<Rightarrow> bool" where
  "accepts n rs \<longleftrightarrow> (\<exists>es rest. rs = es @ SysOk n # rest \<and> list_all (\<lambda>r. \<exists>e. r = SysErr e \<and> send_retry e) es)"

lemma send_uds_accepted:
  assumes "accepts (length bs + 1) (us_send (w_uds u))" "cx_uds d \<noteq> None" "length bs + 1 \<le> UDS_MAX_DGRAM"
  shows "\<exists>c' w'. send_uds d bs u = Some (0, c', w') \<and> ends c' = ends d \<and> w_obj w' = w_obj u \<and>
    w_wire w' = w_wire u @ [TAG_UDS # bs]"
proof -
  obtain rest where loop: "sendto_loop (us_send (w_uds u)) = Some (SysOk (length bs + 1), rest)"
    using assms(1) sendto_loop_skip by (auto simp: accepts_def)
  have "answers (us_send (w_uds u))" using assms(1) by (auto simp: accepts_def answers_def)
  then obtain rc c' w' where s: "send_uds d bs u = Some (rc, c', w')"
    using send_uds_returns [of u d bs] by auto
  obtain sent sc where r: "uds_send (cx_uds d) (Some (cx_peer_sock d)) (Some (TAG_UDS # bs)) (w_uds u) = Some (rc, sent, sc)"
    "w_wire w' = w_wire u @ sent" "w_obj w' = w_obj u" using send_uds_wire [OF s] by blast
  have "rc = 0 \<and> sent = [TAG_UDS # bs]"
    using r(1) loop assms(2,3) by (auto simp: uds_send_def)
  then show ?thesis using s send_uds_ends [OF s] r(2,3) by auto
qed

lemma lone_send_accepted:
  assumes "lone c rb w bs" "cx_role c = ADAPT_ROLE_PRODUCER" "cx_uds c \<noteq> None"
    and "accepts (length bs + 1) (us_send (w_uds w))"
  shows "\<exists>c' w'. adapt_send c (Some bs) w = Some (0, c', w') \<and> ends c' = ends c \<and>
    (ring_holds rb (w_obj w') [TAG_SHM # bs] \<and> w_wire w' = w_wire w \<or>
     ring_holds rb (w_obj w') [] \<and> w_wire w' = w_wire w @ [TAG_UDS # bs])"
  using lone_sendable [OF assms(1,2)]
proof (cases rule: fitting_send_stages [where w = w])
  case (shm d u)
  then have io: "cx_ring d = Some rb" "w_obj u = w_obj w" "w_wire u = w_wire w"
    using assms(1) by (simp_all add: same_io_def lone_def)
  from lone_shm [OF assms(1) io(1,2) shm(4)] show ?thesis
    using shm(1,3) io(3) send_shm_ends by fastforce
next
  case (uds d u)
  then have io: "w_obj u = w_obj w" "w_wire u = w_wire w" "w_uds u = w_uds w" "cx_uds d \<noteq> None"
    using assms(3) by (simp_all add: same_io_def)
  then show ?thesis using send_uds_accepted [of bs u d] uds(1,3,4) assms(1,4) by (auto simp: lone_def)
qed

subsection \<open>The receive behind it\<close>

lemma lone_recv:
  assumes "cx_role q = ADAPT_ROLE_CONSUMER" "cx_ring q = Some rb" "cx_uds q \<noteq> None" "w_peer w = []"
    and "ring_holds rb (w_obj w) [TAG_SHM # bs] \<and> w_uds w = net_script [] \<or>
      ring_holds rb (w_obj w) [] \<and> w_uds w = net_script [TAG_UDS # bs]"
    and "bs \<noteq> []" "length bs < 2 ^ 62" "length bs + 1 \<le> unat (cx_rxbuf_cap q)" "length bs \<le> unat mx" "2 \<le> mx"
  shows "\<exists>q' w'. adapt_recv True q mx w = Some ((int (length bs), bs), q', w') \<and>
    ring_holds rb (w_obj w') [] \<and> us_recv (w_uds w') = [] \<and> rx_same q q'"
  using assms(5)
proof (elim disjE conjE)
  assume a: "ring_holds rb (w_obj w) [TAG_SHM # bs]" "w_uds w = net_script []"
  then show ?thesis
    using recv_ring_head [OF assms(1,2), of w TAG_SHM bs "[]" mx] peer_turn_idle [OF assms(4)] assms(8-10)
    by (auto simp: net_script_def)
next
  assume a: "ring_holds rb (w_obj w) []" "w_uds w = net_script [TAG_UDS # bs]"
  obtain ep where ep: "cx_uds q = Some ep" using assms(3) by blast
  have "queue_at q w []" using a(1) assms(2) by (simp add: queue_at_def)
  from recv_socket_frame [OF assms(1) this assms(4) ep, of "[]" TAG_UDS bs "[]" mx] a assms(6-10) show ?thesis
    by (auto simp: net_script_def TAG_UDS_def ADAPT_WIRE_TAG_CTRL_def)
qed

subsection \<open>The eager set-up\<close>

text \<open>The capacity \<open>adapt_init\<close> takes from the configuration.\<close>

definition cfg_capacity :: "adapt_config \<Rightarrow> csize" where
  "cfg_capacity cf = (if cf_shm_capacity cf \<noteq> 0 then cf_shm_capacity cf else 65536)"

lemma eager_ring_result:
  assumes "eager_ring c w = Some (0, rb, w')" "capacity_ok (cx_shm_capacity c)" "cx_shm_capacity c \<noteq> 0"
  shows "\<exists>r. rb = Some r \<and> round_pow2 (cx_shm_capacity c) = Some (rb_capacity r) \<and> w_realloc w' = w_realloc w \<and>
    (if cx_role c = ADAPT_ROLE_PRODUCER then ring_holds r (w_obj w') []
     else obj_hdr (w_obj w') = obj_hdr (w_obj w) \<and> obj_data (w_obj w') = obj_data (w_obj w))"
proof (cases "cx_role c")
  case ADAPT_ROLE_PRODUCER
  then obtain k nm fd where "rb = Some \<lparr>rb_capacity = k, rb_name = nm, rb_fd = fd\<rparr>"
    "round_pow2 (cx_shm_capacity c) = Some k" "w_realloc w' = w_realloc w"
    "w_obj w' = init_header k (w_obj w) \<or>
      w_obj w' = init_header k ((w_obj w)\<lparr>obj_size := sizeof_shm_ring_header + SHM_HDR_PAD + k\<rparr>)"
    using assms(1,3) by (auto simp: eager_ring_def shm_ring_create_def ring_map_def Let_def errno_defs
        split: option.splits if_split_asm)
  moreover from this obtain m where "ring_geom \<lparr>rb_capacity = k, rb_name = nm, rb_fd = fd\<rparr> m"
    using round_pow2_geom [OF assms(2), of k nm fd] assms(3) by auto
  ultimately show ?thesis using ADAPT_ROLE_PRODUCER by (auto intro: init_holds)
next
  case ADAPT_ROLE_CONSUMER
  then show ?thesis using assms(1,3)
    by (auto simp: eager_ring_def attach_ring_def shm_ring_attach_def ring_map_def Let_def errno_defs
        split: option.splits if_split_asm)
qed

lemma adapt_init_eager:
  assumes "adapt_init role (Some cf) e w = Some (0, Some c, w')" "ie_getenv e ''ADAPTIPC_EAGER_SHM'' \<noteq> None"
    and "capacity_ok (cfg_capacity cf)"
  shows "\<exists>r. cx_ring c = Some r \<and> round_pow2 (cfg_capacity cf) = Some (rb_capacity r) \<and>
    (if role = ADAPT_ROLE_PRODUCER then ring_holds r (w_obj w') []
     else obj_hdr (w_obj w') = obj_hdr (w_obj w) \<and> obj_data (w_obj w') = obj_data (w_obj w))"
    "cx_role c = role" "cx_uds c \<noteq> None" "cx_shm_capacity c = cfg_capacity cf"
    "cx_nonblocking_send c = cf_nonblocking_send cf"
    "cfg_capacity cf \<le> cx_rxbuf_cap c" "of_nat UDS_MAX_DGRAM \<le> cx_rxbuf_cap c"
proof -
  obtain ls ps where p: "cf_local_sock cf = Some ls" "cf_peer_sock cf = Some ps"
    using assms(1) by (auto simp: adapt_init_def errno_defs split: option.splits)
  define c0 where "c0 = init_ctx role cf ls ps e"
  have c0: "cx_role c0 = role" "cx_eager_shm c0" "cx_shm_capacity c0 = cfg_capacity cf"
    "cx_nonblocking_send c0 = cf_nonblocking_send cf" "cx_shm_capacity c0 \<noteq> 0"
    using assms(2) unfolding c0_def by (auto simp: init_ctx_def Let_def cfg_capacity_def)
  obtain rc rb v where er: "eager_ring c0 w = Some (rc, rb, v)"
    using assms(1) p c0(2) by (auto simp: adapt_init_def c0_def [symmetric] Let_def errno_defs split: if_splits option.splits)
  obtain grc d where g: "grow_rxbuf (c0\<lparr>cx_ring := rb, cx_negot_done := True\<rparr>) (cx_shm_capacity c0) v = (grc, d)"
    by fastforce
  have z: "rc = 0" "grc = 0" and o: "open_socket d e v = (0, Some c, w')"
    using assms(1) p c0(2) er g by (auto simp: adapt_init_def c0_def [symmetric] Let_def errno_defs split: if_splits)
  note res = eager_ring_result [OF er [unfolded z(1)], unfolded c0(3), OF assms(3) c0(5) [unfolded c0(3)]]
  note gr = grow_rxbuf_result [OF g]
  note os = open_socket_result [OF o]
  have nbd: "cx_nonblocking_send d = cx_nonblocking_send c0" using g by (auto simp: grow_rxbuf_def split: if_splits)
  have nbc: "cx_nonblocking_send c = cx_nonblocking_send d"
    using o by (auto simp: open_socket_def grow_rxbuf_def split: if_splits prod.splits)
  show "\<exists>r. cx_ring c = Some r \<and> round_pow2 (cfg_capacity cf) = Some (rb_capacity r) \<and>
    (if role = ADAPT_ROLE_PRODUCER then ring_holds r (w_obj w') []
     else obj_hdr (w_obj w') = obj_hdr (w_obj w) \<and> obj_data (w_obj w') = obj_data (w_obj w))"
    using res os(3,8) gr(3) c0(1) by auto
  show "cx_role c = role" "cx_shm_capacity c = cfg_capacity cf" "of_nat UDS_MAX_DGRAM \<le> cx_rxbuf_cap c"
    "cx_nonblocking_send c = cf_nonblocking_send cf"
    using os gr c0 nbd nbc by simp_all
  show "cx_uds c \<noteq> None" using os(9) by auto
  show "cfg_capacity cf \<le> cx_rxbuf_cap c" using os(6) gr(9) z(2) c0(3) order_trans by metis
qed

text \<open>A ring does not change when the other side maps it.\<close>

lemma ring_holds_same: "obj_hdr s' = obj_hdr s \<Longrightarrow> obj_data s' = obj_data s \<Longrightarrow> ring_holds rb s' ms = ring_holds rb s ms"
  by (simp add: ring_holds_def ring_holds_at_def)

lemma eager_pair:
  assumes "adapt_init ADAPT_ROLE_PRODUCER (Some cf) e w = Some (0, Some p, w')" "ie_getenv e ''ADAPTIPC_EAGER_SHM'' \<noteq> None"
    and "adapt_init ADAPT_ROLE_CONSUMER (Some cf') e' v = Some (0, Some q, v')" "ie_getenv e' ''ADAPTIPC_EAGER_SHM'' \<noteq> None"
    and "cfg_capacity cf' = cfg_capacity cf" "capacity_ok (cfg_capacity cf)" "w_obj v = w_obj w'"
  shows "\<exists>rp rb. cx_ring p = Some rp \<and> cx_ring q = Some rb \<and> rb_capacity rp = rb_capacity rb \<and>
    round_pow2 (cfg_capacity cf) = Some (rb_capacity rb) \<and> ring_holds rb (w_obj v') []"
proof -
  have ok: "capacity_ok (cfg_capacity cf')" using assms(5,6) by simp
  obtain rp where rp: "cx_ring p = Some rp" "round_pow2 (cfg_capacity cf) = Some (rb_capacity rp)" "ring_holds rp (w_obj w') []"
    using adapt_init_eager(1) [OF assms(1,2,6)] by auto
  obtain rb where rb: "cx_ring q = Some rb" "round_pow2 (cfg_capacity cf) = Some (rb_capacity rb)"
    "obj_hdr (w_obj v') = obj_hdr (w_obj v)" "obj_data (w_obj v') = obj_data (w_obj v)"
    using adapt_init_eager(1) [OF assms(3,4) ok] assms(5) by auto
  have same: "rb_capacity rp = rb_capacity rb" using rp(2) rb(2) by simp
  then show ?thesis using rp rb ring_holds_same [OF rb(3,4)] ring_holds_cap [OF same] assms(7) by auto
qed

text \<open>It succeeds when the calls of the system do.\<close>

definition init_works :: "string \<Rightarrow> init_env \<Rightarrow> world \<Rightarrow> bool" where
  "init_works path e w \<longleftrightarrow> ie_calloc e \<and> w_realloc w \<and> map_works (w_map w) \<and> oe_calloc (ie_open e) \<and>
     0 \<le> oe_socket (ie_open e) \<and> oe_bind (ie_open e) = 0 \<and> length path < 108"

lemma open_socket_works:
  assumes "init_works (cx_local_sock c) e w" "w_realloc v"
  shows "\<exists>c'. open_socket c e v = (0, Some c', v)"
  using assms by (auto simp: init_works_def open_socket_def uds_open_def grow_rxbuf_def)

lemma round_pow2_small: "capacity_ok cap \<Longrightarrow> \<exists>k. round_pow2 cap = Some k"
proof -
  assume a: "capacity_ok cap"
  show ?thesis
  proof (cases rule: round_pow2_cases [of cap])
    case spins
    have "unat cap \<le> 2 ^ 31" using a by (simp add: capacity_ok_def word_le_nat_alt)
    then show ?thesis using spins by (simp add: word_less_nat_alt)
  qed simp
qed

lemma eager_init_works:
  assumes "cf_shm_name cf = None" "cf_local_sock cf = Some ls" "cf_peer_sock cf = Some ps"
    and "ie_getenv e ''ADAPTIPC_EAGER_SHM'' \<noteq> None" "capacity_ok (cfg_capacity cf)" "init_works ls e w"
  shows "\<exists>c w'. adapt_init role (Some cf) e w = Some (0, Some c, w')"
proof -
  define c0 where "c0 = init_ctx role cf ls ps e"
  have c0: "cx_role c0 = role" "cx_eager_shm c0" "cx_shm_capacity c0 = cfg_capacity cf" "cx_shm_name c0 = ''/adaptipc_shm_0''"
    "cx_local_sock c0 = ls" "cfg_capacity cf \<noteq> 0"
    using assms(1,4) unfolding c0_def by (auto simp: init_ctx_def Let_def cfg_capacity_def)
  obtain k where k: "round_pow2 (cfg_capacity cf) = Some k" using round_pow2_small [OF assms(5)] by blast
  have m: "map_works (w_map w)" using assms(6) by (simp add: init_works_def)
  obtain rb obj where er: "eager_ring c0 w = Some (0, rb, w\<lparr>w_obj := obj\<rparr>)"
    using m k c0 by (cases role) (auto simp: eager_ring_def shm_ring_create_def attach_ring_def shm_ring_attach_def
        ring_map_def map_works_def Let_def)
  let ?w = "w\<lparr>w_obj := obj\<rparr>"
  obtain d where g: "grow_rxbuf (c0\<lparr>cx_ring := rb, cx_negot_done := True\<rparr>) (cx_shm_capacity c0) ?w = (0, d)"
    "cx_local_sock d = ls"
    using assms(6) c0(5) by (cases "cx_shm_capacity c0 \<le> cx_rxbuf_cap c0") (simp_all add: init_works_def grow_rxbuf_def)
  obtain c where "open_socket d e ?w = (0, Some c, ?w)"
    using open_socket_works [of d e w ?w] assms(6) g(2) by (auto simp: init_works_def)
  then show ?thesis using assms(2,3,6) er g(1) c0(2)
    by (auto simp: adapt_init_def c0_def [symmetric] Let_def init_works_def)
qed

subsection \<open>Properties\<close>

text \<open>C8: Two endpoints that are initialised one after the other with the eager set-up and configurations of
  the same capacity are ready for a conversation: both have mapped the ring,
  at one capacity, and it is empty; and the initialisation succeeds when the calls of the system do.\<close>

lemma eager_init_talks:
  assumes cf: "cf_shm_name cf = None" "cf_local_sock cf = Some ls" "cf_peer_sock cf = Some ps"
    and cf': "cf_shm_name cf' = None" "cf_local_sock cf' = Some ls'" "cf_peer_sock cf' = Some ps'"
    and cap: "cfg_capacity cf' = cfg_capacity cf" "capacity_ok (cfg_capacity cf)"
    and e: "ie_getenv e ''ADAPTIPC_EAGER_SHM'' \<noteq> None" "init_works ls e w"
    and e': "ie_getenv e' ''ADAPTIPC_EAGER_SHM'' \<noteq> None" "init_works ls' e' v"
  shows "\<exists>p w' q v'. adapt_init ADAPT_ROLE_PRODUCER (Some cf) e w = Some (0, Some p, w') \<and>
    adapt_init ADAPT_ROLE_CONSUMER (Some cf') e' (v\<lparr>w_obj := w_obj w'\<rparr>) = Some (0, Some q, v') \<and>
    talk_starts \<lparr>tk_tx = p, tk_rx = q, tk_obj = w_obj v', tk_net = [], tk_sent = [], tk_got = []\<rparr>"
proof -
  obtain p w' where p: "adapt_init ADAPT_ROLE_PRODUCER (Some cf) e w = Some (0, Some p, w')"
    using eager_init_works [OF cf(1-3) e(1) cap(2) e(2)] by blast
  have v: "init_works ls' e' (v\<lparr>w_obj := w_obj w'\<rparr>)" using e'(2) by (simp add: init_works_def)
  have cap': "capacity_ok (cfg_capacity cf')" using cap by simp
  obtain q v' where q: "adapt_init ADAPT_ROLE_CONSUMER (Some cf') e' (v\<lparr>w_obj := w_obj w'\<rparr>) = Some (0, Some q, v')"
    using eager_init_works [OF cf' e'(1) cap' v] by blast
  obtain rp rb where r: "cx_ring p = Some rp" "cx_ring q = Some rb" "rb_capacity rp = rb_capacity rb" "ring_holds rb (w_obj v') []"
    using eager_pair [OF p e(1) q e'(1) cap] by auto
  note rp = adapt_init_eager [OF p e(1) cap(2)] and rq = adapt_init_eager [OF q e'(1) cap']
  have "UDS_MAX_DGRAM \<le> unat (cx_rxbuf_cap q)" using rq(7) by (simp add: word_le_nat_alt UDS_MAX_DGRAM_def)
  then have "talk_starts \<lparr>tk_tx = p, tk_rx = q, tk_obj = w_obj v', tk_net = [], tk_sent = [], tk_got = []\<rparr>"
    using r rp(4,5) rq(2,3,6) cap(1) by (simp add: talk_starts_def)
  then show ?thesis using p q by blast
qed

lemma eager_init_talks_witness:
  "\<exists>p w' q v'. adapt_init ADAPT_ROLE_PRODUCER (Some page_cfg) eager_env (quiet_world (page_at 0 0) (sends_only [])) = Some (0, Some p, w') \<and>
    adapt_init ADAPT_ROLE_CONSUMER (Some page_cfg) eager_env ((quiet_world (page_at 0 0) (sends_only []))\<lparr>w_obj := w_obj w'\<rparr>)
      = Some (0, Some q, v') \<and>
    talk_starts \<lparr>tk_tx = p, tk_rx = q, tk_obj = w_obj v', tk_net = [], tk_sent = [], tk_got = []\<rparr>"
  by (rule eager_init_talks) (auto simp: page_cfg_def cfg_capacity_def capacity_ok_def eager_env_def init_works_def
      quiet_map_works word_le_nat_alt)

end
