(* ===== verification/ColdStart.thy ===== *)
theory ColdStart
  imports Lockstep
begin

text \<open>
  The first message of two endpoints that are initialised without the eager set-up: a message too long for
  a datagram makes \<open>adapt_send\<close> of \<open>src/adapt_ipc.c\<close> negotiate the ring and push into it within the call.
\<close>

subsection \<open>What the stages before the negotiation leave alone\<close>

definition negot :: "adapt_ctx \<Rightarrow> bool \<times> string \<times> csize \<times> u64" where
  "negot c = (cx_negot_done c, cx_neg_name c, cx_rxbuf_cap c, cx_last_req_ns c)"

lemma negot_simps [simp]:
  "negot (upd_stats f c) = negot c" "negot (c\<lparr>cx_retry_pending := a\<rparr>) = negot c" "negot (c\<lparr>cx_pending_size := n\<rparr>) = negot c"
  "negot (c\<lparr>cx_pending_route := r\<rparr>) = negot c" "negot (c\<lparr>cx_learn := l\<rparr>) = negot c"
  "negot (c\<lparr>cx_rt := t\<rparr>) = negot c" "negot (c\<lparr>cx_health := h\<rparr>) = negot c" "negot (c\<lparr>cx_ewma_size := e\<rparr>) = negot c"
  "negot (c\<lparr>cx_last_route := r\<rparr>) = negot c" "negot (c\<lparr>cx_decision_seq := q\<rparr>) = negot c" "negot (c\<lparr>cx_declog := d\<rparr>) = negot c"
  by (simp_all add: negot_def)

lemma note_decision_negot [simp]: "negot (note_decision c r d l) = negot c"
  by (simp add: note_decision_def Let_def split: option.split)

lemma observe_negot: "send_observe c sz w = (now, c', w') \<Longrightarrow> negot c' = negot c \<and> (\<exists>n. w' = w\<lparr>w_tick := n\<rparr>)"
  by (auto simp: send_observe_def Let_def stats_now_ns_def split: if_splits)

lemma classify_negot:
  assumes "send_classify c sz now w = (r, c', w')" shows "negot c' = negot c \<and> (\<exists>n. w' = w\<lparr>w_tick := n\<rparr>)"
proof -
  have tick: "\<exists>n. v = u\<lparr>w_tick := n\<rparr>" if "tick_if b u = (t, v)" for b u t v
    by (rule tick_if_world [OF that])
  show ?thesis
  proof (cases "resumes c sz")
    case True
    then show ?thesis using assms by (auto simp: send_classify_def intro: exI [of _ "w_tick w"])
  next
    case False
    obtain t0 w0 where w0: "tick_if (cx_stats_on c) w = (t0, w0)" by fastforce
    obtain t1 w1 where w1: "tick_if (cx_stats_on c) w0 = (t1, w1)" by fastforce
    show ?thesis using assms False w0 w1 tick [OF w0] tick [OF w1]
      by (auto simp: send_classify_def Let_def stats_now_ns_def split: prod.splits)
  qed
qed

lemma guard_negot: "send_guard c sz r = (x, c') \<Longrightarrow> negot c' = negot c"
  by (auto simp: send_guard_def Let_def escalated_def split: if_splits)

text \<open>A message too long for a datagram reaches the negotiation on the ring's route, whatever the policy says.\<close>

lemma long_send_stages:
  assumes "cx_role c = ADAPT_ROLE_PRODUCER" "cx_ring c = None" "UDS_MAX_DGRAM \<le> length bs" "length bs < 2 ^ 62"
    and "length bs + 1 \<le> unat (cx_shm_capacity c)"
  shows "\<exists>d n t. adapt_send c (Some bs) w = (case producer_ensure_shm d (w_clock w t) (w\<lparr>w_tick := n\<rparr>) of
      None \<Rightarrow> None
    | Some (rc, d, v) \<Rightarrow> if rc = 0 then send_shm d bs v
        else Some (if rc = - ETIMEDOUT then - EAGAIN else rc, d\<lparr>cx_retry_pending := True\<rparr>, v)) \<and>
    ends d = ends c \<and> negot d = negot c"
proof -
  let ?sz = "of_nat (length bs) :: csize"
  have sz: "unat ?sz = length bs" using assms(4) by (intro unat_of_nat_u64) simp
  obtain now c1 w1 where o: "send_observe c ?sz w = (now, c1, w1)" by (metis prod_cases3)
  obtain r c2 w2 where k: "send_classify c1 ?sz now w1 = (r, c2, w2)" by (metis prod_cases3)
  let ?c3 = "upd_stats (\<lambda>s. s\<lparr>st_sends := st_sends s + 1\<rparr>) c2"
  have e: "ends ?c3 = ends c" "negot ?c3 = negot c"
    using observe_ends [OF o] classify_ends [OF k] observe_negot [OF o] classify_negot [OF k] by simp_all
  have plus: "unat (?sz + 1) = length bs + 1" by (rule unat_of_nat_plus [OF assms(4)])
  have long: "of_nat UDS_MAX_DGRAM < ?sz + 1" "\<not> cx_shm_capacity ?c3 < ?sz + 1" "\<not> ?sz + 1 \<le> of_nat UDS_MAX_DGRAM"
    using assms(3,5) e(1) unfolding ends_def word_less_nat_alt word_le_nat_alt plus
    by (simp_all add: UDS_MAX_DGRAM_def)
  obtain c4 where g: "send_guard ?c3 ?sz r = (Some ADAPT_ROUTE_SHM, c4)"
    using long by (cases "r = ADAPT_ROUTE_SHM") (auto simp: send_guard_def Let_def escalated_def)
  have e4: "ends c4 = ends c" "negot c4 = negot c" using guard_ends [OF g] guard_negot [OF g] e by simp_all
  then have ring: "cx_ring c4 = None" using assms(2) by (simp add: ends_def)
  obtain m where w2: "w2 = w\<lparr>w_tick := m\<rparr>" using observe_negot [OF o] classify_negot [OF k] by auto
  have n: "send_negotiate c4 ?sz ADAPT_ROUTE_SHM w2 = (case producer_ensure_shm c4 (w_clock w m) (w\<lparr>w_tick := m + 1\<rparr>) of
      None \<Rightarrow> None
    | Some (rc, d, v) \<Rightarrow> if rc = 0 then Some (Inr ADAPT_ROUTE_SHM, d, v)
        else Some (Inl (if rc = - ETIMEDOUT then - EAGAIN else rc), d\<lparr>cx_retry_pending := True\<rparr>, v))"
    using ring long(3) by (simp add: send_negotiate_def stats_now_ns_def w2 split: option.split)
  have "?sz \<noteq> 0" using sz assms(3) by (auto simp: UDS_MAX_DGRAM_def)
  then have "adapt_send c (Some bs) w = (case producer_ensure_shm c4 (w_clock w m) (w\<lparr>w_tick := m + 1\<rparr>) of
      None \<Rightarrow> None
    | Some (rc, d, v) \<Rightarrow> if rc = 0 then send_shm d bs v
        else Some (if rc = - ETIMEDOUT then - EAGAIN else rc, d\<lparr>cx_retry_pending := True\<rparr>, v))"
    using assms(1) o k g n by (auto simp: adapt_send_def Let_def split: option.split)
  then show ?thesis using e4 by blast
qed

subsection \<open>Initialisation without the eager set-up\<close>

lemma adapt_init_lazy:
  assumes "adapt_init role (Some cf) e w = Some (0, Some c, w')" "ie_getenv e ''ADAPTIPC_EAGER_SHM'' = None"
  shows "cx_role c = role" "cx_ring c = None" "cx_uds c \<noteq> None" "cx_shm_capacity c = cfg_capacity cf"
    "cx_nonblocking_send c = cf_nonblocking_send cf" "UDS_MAX_DGRAM \<le> unat (cx_rxbuf_cap c)"
    "\<not> cx_negot_done c" "cx_neg_name c = []" "cx_last_req_ns c = 0"
proof -
  obtain ls ps where p: "cf_local_sock cf = Some ls" "cf_peer_sock cf = Some ps"
    using assms(1) by (auto simp: adapt_init_def errno_defs split: option.splits)
  define c0 where "c0 = init_ctx role cf ls ps e"
  have c0: "cx_role c0 = role" "\<not> cx_eager_shm c0" "cx_shm_capacity c0 = cfg_capacity cf" "cx_ring c0 = None"
    "cx_nonblocking_send c0 = cf_nonblocking_send cf" "\<not> cx_negot_done c0" "cx_neg_name c0 = []" "cx_last_req_ns c0 = 0"
    using assms(2) unfolding c0_def by (auto simp: init_ctx_def Let_def cfg_capacity_def)
  have o: "open_socket c0 e w = (0, Some c, w')"
    using assms(1) p c0(2) by (auto simp: adapt_init_def c0_def [symmetric] Let_def errno_defs split: if_splits)
  note os = open_socket_result [OF o]
  have "cx_nonblocking_send c = cx_nonblocking_send c0" "cx_neg_name c = cx_neg_name c0" "cx_last_req_ns c = cx_last_req_ns c0"
    using o by (auto simp: open_socket_def grow_rxbuf_def split: if_splits prod.splits)
  then show "cx_role c = role" "cx_ring c = None" "cx_shm_capacity c = cfg_capacity cf"
    "cx_nonblocking_send c = cf_nonblocking_send cf" "\<not> cx_negot_done c" "cx_neg_name c = []" "cx_last_req_ns c = 0"
    using os c0 by simp_all
  show "cx_uds c \<noteq> None" using os(9) by auto
  show "UDS_MAX_DGRAM \<le> unat (cx_rxbuf_cap c)" using os(7) by (simp add: word_le_nat_alt UDS_MAX_DGRAM_def)
qed

lemma lazy_init_works:
  assumes "cf_local_sock cf = Some ls" "cf_peer_sock cf = Some ps" "ie_getenv e ''ADAPTIPC_EAGER_SHM'' = None" "init_works ls e w"
  shows "\<exists>c. adapt_init role (Some cf) e w = Some (0, Some c, w)"
proof -
  define c0 where "c0 = init_ctx role cf ls ps e"
  have c0: "\<not> cx_eager_shm c0" "cx_local_sock c0 = ls"
    using assms(3) unfolding c0_def by (simp_all add: init_ctx_def Let_def)
  obtain c where "open_socket c0 e w = (0, Some c, w)" using open_socket_works [of c0 e w w] assms(4) c0(2)
    by (auto simp: init_works_def)
  then show ?thesis using assms(1,2,4) c0(1) by (auto simp: adapt_init_def c0_def [symmetric] Let_def init_works_def)
qed

subsection \<open>The first message\<close>

lemma tick_name: "generate_shm_name (w\<lparr>w_tick := n\<rparr>) = (fst (generate_shm_name w), (snd (generate_shm_name w))\<lparr>w_tick := n\<rparr>)"
  by (simp add: generate_shm_name_def)

lemma first_push:
  assumes "cx_ring c = Some rb" "cx_nonblocking_send c \<or> w_rounds w \<noteq> []" "ring_holds rb (w_obj w) []" "bs \<noteq> []"
    and "length bs < 2 ^ 62" "2 * (length bs + 5) \<le> unat (rb_capacity rb)"
  shows "\<exists>c' w'. send_shm c bs w = Some (0, c', w') \<and> ring_holds rb (w_obj w') [TAG_SHM # bs] \<and> w_wire w' = w_wire w"
  by (rule send_shm_pushes) (use assms in \<open>auto intro!: empty_ring_push\<close>)

lemma capacity_below: "round_pow2 v = Some c \<Longrightarrow> v \<le> c"
  by (cases rule: round_pow2_cases [of v]) auto

text \<open>The negotiation within the call.\<close>

lemma long_send_negotiates:
  assumes d: "\<not> cx_negot_done d" "cx_neg_name d = []" "cx_uds d \<noteq> None" "3 \<le> unat (cx_rxbuf_cap d)"
      "0 < cx_shm_capacity d" "cx_shm_capacity d \<le> 2 ^ 30" "cx_last_req_ns d = 0"
    and q: "cx_role q = ADAPT_ROLE_CONSUMER" "cx_ring q = None" "cx_uds q \<noteq> None" "UDS_MAX_DGRAM \<le> unat (cx_rxbuf_cap q)"
    and req: "req = setup_req (cx_shm_capacity d) (fst (generate_shm_name w))"
    and wq: "map_works (w_map wq)" "w_realloc wq" "w_wire wq = []" "us_send (w_uds wq) = SysOk 3 # rs"
    and ans: "handle_control q req wq = Some (q', wq')"
    and w: "map_works (w_map w)" "w_realloc w" "w_obj w = w_obj wq'" "us_send (w_uds w) = SysOk (length req) # ss"
      "us_poll (w_uds w) = replicate k PollTimeout @ [PollReady]" "us_recv (w_uds w) = map RecvMsg (w_wire wq')"
    and clk: "\<And>m n. w_clock w n \<le> w_clock w m + ADAPT_NEGOT_DEADLINE_MS * 1000000"
      "\<And>n. ADAPT_NEGOT_RESEND_MS * 1000000 < w_clock w n"
  obtains p' w' rp rb where "producer_ensure_shm d (w_clock w t) (w\<lparr>w_tick := n\<rparr>) = Some (0, p', w')" "w_wire w' = w_wire w @ [req]"
    "cx_ring p' = Some rp" "cx_nonblocking_send p' = cx_nonblocking_send d" "w_rounds w' = w_rounds w" "ring_holds rp (w_obj w') []" "cx_shm_capacity d \<le> rb_capacity rp"
    "cx_ring q' = Some rb" "rb_capacity rp = rb_capacity rb" "cx_role q' = ADAPT_ROLE_CONSUMER" "cx_uds q' \<noteq> None"
    "cx_shm_capacity d \<le> cx_rxbuf_cap q'"
proof -
  let ?w = "w\<lparr>w_tick := n\<rparr>"
  have past: "ADAPT_NEGOT_RESEND_MS * 1000000 < w_clock w t - cx_last_req_ns d" using clk(2) by (simp add: d(7))
  have rq: "req = setup_req (cx_shm_capacity d) (fst (generate_shm_name ?w))" by (simp add: req tick_name)
  have ww: "map_works (w_map ?w)" "w_realloc ?w" "w_obj ?w = w_obj wq'" "us_send (w_uds ?w) = SysOk (length req) # ss"
    "us_poll (w_uds ?w) = replicate k PollTimeout @ [PollReady]" "us_recv (w_uds ?w) = map RecvMsg (w_wire wq')"
    "w_clock ?w i \<le> w_clock w t + ADAPT_NEGOT_DEADLINE_MS * 1000000" for i
    using w by simp_all (rule clk(1))
  from handshake_works [OF d(1-6) past rq q wq ans ww] obtain p' w' where
    h: "producer_ensure_shm d (w_clock w t) ?w = Some (0, p', w')" "w_wire w' = w_wire ?w @ [req]"
    "cx_shm_capacity p' = cx_shm_capacity d" "cx_nonblocking_send p' = cx_nonblocking_send d" "w_rounds w' = w_rounds ?w" "round_pow2 (cx_shm_capacity d) = Some (rb_capacity (the (cx_ring p')))"
    "talk_starts \<lparr>tk_tx = p', tk_rx = q', tk_obj = w_obj w', tk_net = [], tk_sent = [], tk_got = []\<rparr>" by blast
  then obtain rp rb where r: "cx_ring p' = Some rp" "cx_ring q' = Some rb" "rb_capacity rp = rb_capacity rb" "ring_holds rb (w_obj w') []"
    "cx_shm_capacity d \<le> cx_rxbuf_cap q'" "cx_role q' = ADAPT_ROLE_CONSUMER" "cx_uds q' \<noteq> None"
    unfolding talk_starts_def by (auto simp: h(3))
  have "ring_holds rp (w_obj w') []" using r(4) ring_holds_cap [OF r(3)] by simp
  moreover have "cx_shm_capacity d \<le> rb_capacity rp" using capacity_below [OF h(6)] r(1) by simp
  ultimately show ?thesis using that [OF h(1)] h(2,4,5) r by simp
qed

subsection \<open>Properties\<close>

text \<open>C7: A cold start works end to end. Two endpoints are initialised without the eager set-up, with one capacity;
  the producer's first message is too long for a datagram and at most half the capacity. Then \<open>adapt_send\<close> itself
  sends the request for the ring and, when the consumer has answered, maps it, pushes the message and
  returns 0, and the consumer's next \<open>adapt_recv\<close> hands over exactly that message. A sender that blocks looks at the ring at least once. The calls of the system
  succeed, the call takes less than the deadline of the negotiation, and the clock is past the interval
  between two requests.\<close>

lemma cold_start_delivers:
  assumes ip: "adapt_init ADAPT_ROLE_PRODUCER (Some cf) e u = Some (0, Some p, u')" "ie_getenv e ''ADAPTIPC_EAGER_SHM'' = None"
      "cf_nonblocking_send cf \<or> w_rounds w \<noteq> []"
    and iq: "adapt_init ADAPT_ROLE_CONSUMER (Some cf') e' v = Some (0, Some q, v')" "ie_getenv e' ''ADAPTIPC_EAGER_SHM'' = None"
    and cap: "cfg_capacity cf \<le> 2 ^ 30" "UDS_MAX_DGRAM \<le> length bs" "2 * (length bs + 5) \<le> unat (cfg_capacity cf)"
    and req: "req = setup_req (cfg_capacity cf) (fst (generate_shm_name w))"
    and wq: "map_works (w_map wq)" "w_realloc wq" "w_wire wq = []" "us_send (w_uds wq) = SysOk 3 # rs"
    and ans: "handle_control q req wq = Some (q', wq')"
    and w: "map_works (w_map w)" "w_realloc w" "w_obj w = w_obj wq'" "us_send (w_uds w) = SysOk (length req) # ss"
      "us_poll (w_uds w) = replicate k PollTimeout @ [PollReady]" "us_recv (w_uds w) = map RecvMsg (w_wire wq')"
    and clk: "\<And>m n. w_clock w n \<le> w_clock w m + ADAPT_NEGOT_DEADLINE_MS * 1000000"
      "\<And>n. ADAPT_NEGOT_RESEND_MS * 1000000 < w_clock w n"
    and mx: "length bs \<le> unat mx"
  shows "\<exists>p' w' q'' wr'. adapt_send p (Some bs) w = Some (0, p', w') \<and> w_wire w' = w_wire w @ [req] \<and>
    adapt_recv True q' mx (wr\<lparr>w_obj := w_obj w', w_peer := [], w_uds := net_script []\<rparr>) = Some ((int (length bs), bs), q'', wr')"
proof -
  note fp = adapt_init_lazy [OF ip(1,2)] and fq = adapt_init_lazy [OF iq]
  have c30: "unat (cfg_capacity cf) \<le> 2 ^ 30" using cap(1) by (simp add: word_le_nat_alt)
  have len: "length bs < 2 ^ 62" "bs \<noteq> []" using cap(2,3) c30 by (auto simp: UDS_MAX_DGRAM_def)
  have "length bs + 1 \<le> unat (cx_shm_capacity p)" using cap(3) fp(4) by simp
  from long_send_stages [OF fp(1,2) cap(2) len(1) this] obtain d n t where
    send: "adapt_send p (Some bs) w = (case producer_ensure_shm d (w_clock w t) (w\<lparr>w_tick := n\<rparr>) of
      None \<Rightarrow> None
    | Some (rc, d, v) \<Rightarrow> if rc = 0 then send_shm d bs v
        else Some (if rc = - ETIMEDOUT then - EAGAIN else rc, d\<lparr>cx_retry_pending := True\<rparr>, v))"
    and e: "ends d = ends p" "negot d = negot p" by blast
  have d: "\<not> cx_negot_done d" "cx_neg_name d = []" "cx_uds d \<noteq> None" "3 \<le> unat (cx_rxbuf_cap d)"
    "cx_last_req_ns d = 0" "cx_nonblocking_send d = cf_nonblocking_send cf" and dc: "cx_shm_capacity d = cfg_capacity cf"
    using e fp by (auto simp: ends_def negot_def UDS_MAX_DGRAM_def)
  have pos: "0 < cx_shm_capacity d" "cx_shm_capacity d \<le> 2 ^ 30"
    using cap dc by (simp_all add: word_less_nat_alt UDS_MAX_DGRAM_def)
  obtain p' w' rp rb where h: "producer_ensure_shm d (w_clock w t) (w\<lparr>w_tick := n\<rparr>) = Some (0, p', w')" "w_wire w' = w_wire w @ [req]"
    and r: "cx_ring p' = Some rp" "cx_nonblocking_send p' = cx_nonblocking_send d" "w_rounds w' = w_rounds w" "ring_holds rp (w_obj w') []" "cx_shm_capacity d \<le> rb_capacity rp"
    "cx_ring q' = Some rb" "rb_capacity rp = rb_capacity rb" "cx_role q' = ADAPT_ROLE_CONSUMER" "cx_uds q' \<noteq> None"
    "cx_shm_capacity d \<le> cx_rxbuf_cap q'"
    using long_send_negotiates [OF d(1-4) pos d(5) fq(1-3,6) req [folded dc] wq ans w clk] by metis
  have half: "2 * (length bs + 5) \<le> unat (rb_capacity rp)" using cap(3) r(5) dc by (simp add: word_le_nat_alt)
  obtain p'' w'' where s: "send_shm p' bs w' = Some (0, p'', w'')" "ring_holds rp (w_obj w'') [TAG_SHM # bs]" "w_wire w'' = w_wire w'"
    using first_push [OF r(1) _ r(4) len(2,1) half] r(2,3) d(6) ip(3) by auto
  have box: "length bs + 1 \<le> unat (cx_rxbuf_cap q')" "2 \<le> mx"
    using r(10) dc cap(2,3) mx by (auto simp: word_le_nat_alt UDS_MAX_DGRAM_def)
  let ?wr = "wr\<lparr>w_obj := w_obj w'', w_peer := [], w_uds := net_script []\<rparr>"
  have "ring_holds rb (w_obj ?wr) [TAG_SHM # bs] \<and> w_uds ?wr = net_script [] \<or>
      ring_holds rb (w_obj ?wr) [] \<and> w_uds ?wr = net_script [TAG_UDS # bs]"
    using s(2) ring_holds_cap [OF r(7)] by simp
  from lone_recv [OF r(8,6,9) _ this len(2,1) box(1) mx box(2)] obtain q'' wr' where
    "adapt_recv True q' mx ?wr = Some ((int (length bs), bs), q'', wr')" by auto
  moreover have "adapt_send p (Some bs) w = Some (0, p'', w'')" using send h(1) s(1) by simp
  ultimately show ?thesis using h(2) s(3) by auto
qed

subsection \<open>A message of one page\<close>

definition lazy_env :: init_env where
  "lazy_env = eager_env\<lparr>ie_getenv := (\<lambda>_. None)\<rparr>"

definition cold_cfg :: adapt_config where
  "cold_cfg = page_cfg\<lparr>cf_shm_capacity := 16384\<rparr>"

abbreviation cold_req :: "u8 list" where
  "cold_req \<equiv> setup_req 16384 (fst (generate_shm_name (stopped_world 0 (page_at 0 0) (sends_only []))))"

lemma cold_simps: "cfg_capacity cold_cfg = 16384" "ie_getenv lazy_env s = None" "cf_nonblocking_send cold_cfg"
  "cf_local_sock cold_cfg = Some ''/tmp/p''" "cf_peer_sock cold_cfg = Some ''/tmp/c''"
  by (simp_all add: cold_cfg_def page_cfg_def cfg_capacity_def lazy_env_def)

lemma cold_inits: "\<exists>c. adapt_init role (Some cold_cfg) lazy_env (quiet_world (page_at 0 0) sc) = Some (0, Some c, quiet_world (page_at 0 0) sc)"
  by (rule lazy_init_works [OF cold_simps(4,5,2)]) (simp add: init_works_def quiet_map_works lazy_env_def eager_env_def)

lemma cold_start_delivers_witness:
  "\<exists>p u' q v' q' wq' p' w' q'' wr'.
     adapt_init ADAPT_ROLE_PRODUCER (Some cold_cfg) lazy_env (quiet_world (page_at 0 0) (sends_only [])) = Some (0, Some p, u') \<and>
     adapt_init ADAPT_ROLE_CONSUMER (Some cold_cfg) lazy_env (quiet_world (page_at 0 0) (sends_only [])) = Some (0, Some q, v') \<and>
     handle_control q cold_req (quiet_world (page_at 0 0) (sends_only [SysOk 3])) = Some (q', wq') \<and>
     adapt_send p (Some (replicate 4096 9)) (stopped_world 2000000000 (w_obj wq') \<lparr>us_send = [SysOk (length cold_req)],
       us_poll = [PollTimeout, PollReady], us_recv = map RecvMsg (w_wire wq')\<rparr>) = Some (0, p', w') \<and>
     adapt_recv True q' 4096 ((quiet_world (page_at 0 0) (sends_only []))\<lparr>w_obj := w_obj w', w_peer := [], w_uds := net_script []\<rparr>)
       = Some ((4096, replicate 4096 9), q'', wr')"
proof -
  let ?z = "quiet_world (page_at 0 0) (sends_only [])" and ?zq = "quiet_world (page_at 0 0) (sends_only [SysOk 3])"
  obtain p where p: "adapt_init ADAPT_ROLE_PRODUCER (Some cold_cfg) lazy_env ?z = Some (0, Some p, ?z)" using cold_inits by blast
  obtain q where q: "adapt_init ADAPT_ROLE_CONSUMER (Some cold_cfg) lazy_env ?z = Some (0, Some q, ?z)" using cold_inits by blast
  note fq = adapt_init_lazy [OF q cold_simps(2)]
  obtain nm w1 where g: "generate_shm_name (stopped_world 0 (page_at 0 0) (sends_only [])) = (nm, w1)" by fastforce
  obtain q' wq' where a: "handle_control q cold_req ?zq = Some (q', wq')"
    using consumer_answers [of q ?zq "[]" nm 16384] fq(2,3) generated_name(1,2) [OF g] quiet_map_works g
    by (auto simp: sends_only_def word_le_nat_alt)
  let ?w = "stopped_world 2000000000 (w_obj wq') \<lparr>us_send = [SysOk (length cold_req)], us_poll = [PollTimeout, PollReady],
      us_recv = map RecvMsg (w_wire wq')\<rparr>"
  have rq: "cold_req = setup_req (cfg_capacity cold_cfg) (fst (generate_shm_name ?w))"
    by (simp add: cold_simps(1)) (simp only: stopped_name [of 2000000000 "w_obj wq'"])
  have "\<exists>p' w' q'' wr'. adapt_send p (Some (replicate 4096 9)) ?w = Some (0, p', w') \<and> w_wire w' = w_wire ?w @ [cold_req] \<and>
    adapt_recv True q' 4096 (?z\<lparr>w_obj := w_obj w', w_peer := [], w_uds := net_script []\<rparr>)
      = Some ((int (length (replicate 4096 (9 :: u8))), replicate 4096 9), q'', wr')"
    by (rule cold_start_delivers [where k = 1 and ss = "[]" and rs = "[]", OF p cold_simps(2) disjI1 [OF cold_simps(3)] q cold_simps(2) _ _ _ rq _ _ _ _ a])
       (simp_all add: cold_simps(1) UDS_MAX_DGRAM_def quiet_map_works sends_only_def word_le_nat_alt word_less_nat_alt
          ADAPT_NEGOT_DEADLINE_MS_def ADAPT_NEGOT_RESEND_MS_def)
  then obtain p' w' q'' wr' where "adapt_send p (Some (replicate 4096 9)) ?w = Some (0, p', w')"
    "adapt_recv True q' 4096 (?z\<lparr>w_obj := w_obj w', w_peer := [], w_uds := net_script []\<rparr>) = Some ((4096, replicate 4096 9), q'', wr')"
    by (simp only: length_replicate of_nat_numeral) blast
  then show ?thesis using p q a by blast
qed

end
