(* ===== verification/BlockingTalk.thy ===== *)
theory BlockingTalk
  imports Lockstep
begin

text \<open>
  Conversations with a sender that blocks, the default of the configuration: \<open>adapt_send\<close> of
  \<open>src/adapt_ipc.c\<close> waits in \<open>shm_ring_push_scatter_blocking\<close> while the receiver goes on. When the receiver
  empties the ring in the end, and the kernel takes the datagrams, every send returns 0.
\<close>

subsection \<open>A receiver that empties the ring\<close>

text \<open>Rounds of the wait that end with pops enough for any queue a ring of the given capacity can hold.\<close>

definition patient :: "nat \<Rightarrow> wait_round list \<Rightarrow> bool" where
  "patient cap rs \<longleftrightarrow> rs \<noteq> [] \<and> list_all (\<lambda>r. wr_errno r = 0) rs \<and>
     cap \<le> length (wr_before (last rs)) \<and> list_all (\<lambda>n. cap \<le> unat n) (wr_before (last rs))"

lemma patient_empties:
  assumes "ring_holds rb s ms" "patient (unat (rb_capacity rb)) rs"
  shows "empties ms (wr_before (last rs))"
proof -
  have sum: "sum_list (map (\<lambda>m. 4 + length m) ms) \<le> unat (rb_capacity rb)"
    using shm_ring_used_bounds [OF assms(1)] by linarith
  have "length ms \<le> sum_list (map (\<lambda>m. 4 + length m) ms)" by (induction ms) simp_all
  then have "length ms \<le> unat (rb_capacity rb)" using sum by linarith
  moreover have "length m \<le> unat (rb_capacity rb)" if "m \<in> set ms" for m
    using sum member_le_sum_list [of "4 + length m" "map (\<lambda>m. 4 + length m) ms"] that by fastforce
  ultimately show ?thesis using assms(2) unfolding empties_def patient_def list_all_iff by (meson le_trans)
qed

lemma patient_ring_push:
  assumes "cx_ring c = Some rb" "\<not> cx_nonblocking_send c" "ring_holds rb (w_obj w) ms" "bs \<noteq> []" "length bs < 2 ^ 62"
    and "2 * (length bs + 5) \<le> unat (rb_capacity rb)" "patient (unat (rb_capacity rb)) (w_rounds w)"
  shows "\<exists>s. ring_push c timed bs w = Some (0, w\<lparr>w_obj := s\<rparr>)"
proof -
  note ok = shm_segs_ok [OF assms(5)]
  have rounds: "w_rounds w \<noteq> []" "\<forall>r\<in>set (w_rounds w). wr_errno r = 0"
    using assms(7) by (simp_all add: patient_def list_all_iff)
  have half: "2 * (length (gather (shm_segs bs)) + 4) \<le> unat (rb_capacity rb)" "gather (shm_segs bs) \<noteq> []"
    using assms(6) by simp_all
  obtain s1 where b: "shm_ring_push_scatter_blocking (Some rb) (Some (shm_segs bs)) (w_rounds w) (w_obj w) = Some (0, s1)"
    using push_blocking_returns [OF assms(3) ok half(2,1) rounds(1) patient_empties [OF assms(3,7)] rounds(2)] by blast
  obtain k where g: "ring_geom rb k" using ring_holds_geom [OF assms(3)] by blast
  have "sendv_fits rb (shm_segs bs)"
    using assms(4,6) geom_bounds(1) [OF g] geom_unat [OF g] by (auto simp: sendv_fits_def)
  then obtain rc s2 where "shm_ring_push_scatter (Some rb) (Some (shm_segs bs)) (w_obj w) = Some (rc, s2)"
    "rc = 0 \<or> rc = - EAGAIN" "rc \<noteq> 0 \<Longrightarrow> s2 = w_obj w"
    using push_scatter_queue [OF assms(3) ok] by metis
  then show ?thesis using b assms(1,2) by (auto simp: ring_push_def Let_def errno_defs)
qed

text \<open>The sender, as far as the next send depends on it, and a message it can send.\<close>

definition sender :: "adapt_ctx \<Rightarrow> shm_ring \<Rightarrow> bool" where
  "sender c rb \<longleftrightarrow> cx_role c = ADAPT_ROLE_PRODUCER \<and> cx_uds c \<noteq> None \<and> \<not> cx_nonblocking_send c \<and> cx_ring c = Some rb"

lemma sender_ends: "ends c' = ends c \<Longrightarrow> sender c' rb = sender c rb"
  by (simp add: sender_def ends_def)

lemma patient_send:
  assumes "sender c rb" "ring_holds rb (w_obj w) ms" "bs \<noteq> []" "length bs < 2 ^ 62" "length bs + 1 \<le> unat (cx_shm_capacity c)"
    and "2 * (length bs + 5) \<le> unat (rb_capacity rb)" "patient (unat (rb_capacity rb)) (w_rounds w)"
    and "accepts (length bs + 1) (us_send (w_uds w))"
  shows "\<exists>c' w'. adapt_send c (Some bs) w = Some (0, c', w')"
proof -
  have "sendable c bs" using assms(1,3-5) by (simp add: sendable_def sender_def)
  then show ?thesis
  proof (cases rule: fitting_send_stages [where w = w])
    case (shm d u)
    have d: "sender d rb" "w_obj u = w_obj w" using sender_ends [OF shm(3)] shm(2) assms(1) by (simp_all add: same_io_def)
    have "\<exists>c' w'. send_shm d bs u = Some (0, c', w') \<and> True \<and> w_wire w' = w_wire u"
    proof (rule send_shm_pushes)
      fix d' :: adapt_ctx and t and u' :: world assume "cx_ring d' = cx_ring d" "cx_nonblocking_send d' = cx_nonblocking_send d" "w_obj u' = w_obj u"
        "w_rounds u' = w_rounds u"
      then show "\<exists>s. ring_push d' t bs u' = Some (0, u'\<lparr>w_obj := s\<rparr>) \<and> True"
        using patient_ring_push [of d' rb u' ms bs t] d assms(2-4,6,7) shm(4) by (simp add: sender_def)
    qed
    then show ?thesis using shm(1) by auto
  next
    case (uds d u)
    have "cx_uds d \<noteq> None" "w_uds u = w_uds w" using uds(2) assms(1) by (simp_all add: same_io_def sender_def)
    then show ?thesis using send_uds_accepted [of bs u d] uds(1,4) assms(8) by auto
  qed
qed

text \<open>Over a mapped ring no send, whatever it returns, changes the ends.\<close>

lemma mapped_send_ends:
  assumes "adapt_send c (Some bs) w = Some (rc, c', w')" "cx_ring c \<noteq> None" shows "ends c' = ends c"
proof (cases "cx_role c \<noteq> ADAPT_ROLE_PRODUCER \<or> of_nat (length bs) = (0 :: csize)")
  case True
  then show ?thesis using assms(1) by (auto simp: adapt_send_def Let_def split: if_splits)
next
  case False
  let ?sz = "of_nat (length bs) :: csize"
  obtain now c1 w1 where o: "send_observe c ?sz w = (now, c1, w1)" by (metis prod_cases3)
  obtain r c2 w2 where k: "send_classify c1 ?sz now w1 = (r, c2, w2)" by (metis prod_cases3)
  obtain x c3 where g: "send_guard (upd_stats (\<lambda>s. s\<lparr>st_sends := st_sends s + 1\<rparr>) c2) ?sz r = (x, c3)" by fastforce
  have "adapt_send c (Some bs) w = (case x of None \<Rightarrow> Some (- EMSGSIZE, c3, w2)
      | Some y \<Rightarrow> if y = ADAPT_ROUTE_SHM then send_shm c3 bs w2 else send_uds c3 bs w2)"
    using adapt_send_stages [OF _ _ o k g] False assms(2) by auto
  then have "c' = c3 \<or> send_shm c3 bs w2 = Some (rc, c', w') \<or> send_uds c3 bs w2 = Some (rc, c', w')"
    using assms(1) by (auto split: option.splits if_splits)
  moreover have "ends c3 = ends c" using observe_ends [OF o] classify_ends [OF k] guard_ends [OF g] by simp
  ultimately show ?thesis using send_shm_ends send_uds_ends by metis
qed

subsection \<open>The sender in a conversation\<close>

text \<open>A turn that is a send of at most half the ring to a receiver that empties it and a kernel that takes it.\<close>

fun sends_well :: "csize \<Rightarrow> nat \<Rightarrow> turn \<Rightarrow> bool" where
  "sends_well cap room (Sends bs w) \<longleftrightarrow> bs \<noteq> [] \<and> length bs + 1 \<le> unat cap \<and> 2 * (length bs + 5) \<le> room \<and>
     patient room (w_rounds w) \<and> accepts (length bs + 1) (us_send (w_uds w))"
| "sends_well cap room (Recvs mx w) \<longleftrightarrow> False"

fun payload :: "turn \<Rightarrow> u8 list" where
  "payload (Sends bs w) = bs"
| "payload (Recvs mx w) = []"

lemma talk_step_sender:
  assumes "talk_step t s = Some s'" "cx_ring (tk_tx s) \<noteq> None"
  shows "ends (tk_tx s') = ends (tk_tx s)"
proof (cases t)
  case (Sends bs w)
  then show ?thesis using assms by (auto dest!: mapped_send_ends split: option.splits)
next
  case (Recvs mx w)
  then show ?thesis using assms(1) by (auto split: option.splits prod.splits)
qed

interpretation ends_kept: keeps_invariant talk_step "\<lambda>_. True" "\<lambda>s. ends (tk_tx s) = e \<and> fst (snd e) \<noteq> None" for e
proof unfold_locales
  fix t s s' assume "ends (tk_tx s) = e \<and> fst (snd e) \<noteq> None" "talk_step t s = Some s'"
  then show "ends (tk_tx s') = e \<and> fst (snd e) \<noteq> None" using talk_step_sender [of t s s'] by (auto simp: ends_def)
qed

lemma talk_run_sender:
  "talk_run ts s = Some s' \<Longrightarrow> cx_ring (tk_tx s) \<noteq> None \<Longrightarrow> ends (tk_tx s') = ends (tk_tx s)"
  using ends_kept.run [of ts s s' "ends (tk_tx s)"] by (simp add: ends_def list_all_iff)

lemma talk_sends_well:
  assumes "talk_inv qs ns s" "sender (tk_tx s) rp" "turn_ok (cx_rxbuf_cap (tk_rx s)) t"
    and "sends_well (cx_shm_capacity (tk_tx s)) (unat (rb_capacity rp)) t"
  shows "\<exists>s'. talk_step t s = Some s' \<and> tk_sent s' = tk_sent s @ [payload t]"
proof -
  obtain bs w where t: "t = Sends bs w" using assms(4) by (cases t) auto
  let ?w = "w\<lparr>w_obj := (tk_obj s)\<lparr>obj_taken := []\<rparr>, w_wire := []\<rparr>"
  obtain rb where rb: "rb_capacity rp = rb_capacity rb" "ring_holds rb (tk_obj s) (map (Cons TAG_SHM) qs)"
    using assms(1,2) by (auto simp: talk_inv_def sender_def)
  have "ring_holds rp (w_obj ?w) (map (Cons TAG_SHM) qs)" using rb(2) ring_holds_cap [OF rb(1)] by simp
  from patient_send [OF assms(2) this, of bs] obtain c w' where "adapt_send (tk_tx s) (Some bs) ?w = Some (0, c, w')"
    using assms(3,4) t by auto
  then show ?thesis by (simp add: t)
qed

lemma talk_run_well:
  assumes "talk_inv qs ns s" "sender (tk_tx s) rp" "list_all (turn_ok (cx_rxbuf_cap (tk_rx s))) ts"
    and "list_all (sends_well (cx_shm_capacity (tk_tx s)) (unat (rb_capacity rp))) ts"
  shows "\<exists>s' qs' ns'. talk_run ts s = Some s' \<and> tk_sent s' = tk_sent s @ map payload ts \<and> talk_inv qs' ns' s' \<and>
    cx_rxbuf_cap (tk_rx s') = cx_rxbuf_cap (tk_rx s)"
  using assms
proof (induction ts arbitrary: s qs ns)
  case (Cons t ts)
  obtain s1 where s1: "talk_step t s = Some s1" "tk_sent s1 = tk_sent s @ [payload t]"
    using talk_sends_well [OF Cons.prems(1,2)] Cons.prems(3,4) by auto
  obtain qs1 ns1 where i: "cx_rxbuf_cap (tk_rx s1) = cx_rxbuf_cap (tk_rx s)" "talk_inv qs1 ns1 s1"
    using talk_step_inv [OF Cons.prems(1) _ s1(1)] Cons.prems(3) by auto
  have e: "ends (tk_tx s1) = ends (tk_tx s)"
    using talk_step_sender [OF s1(1)] Cons.prems(2) by (simp add: sender_def)
  then have "cx_shm_capacity (tk_tx s1) = cx_shm_capacity (tk_tx s)" by (simp add: ends_def)
  then show ?case using Cons.IH [OF i(2)] sender_ends [OF e] Cons.prems(2-4) s1 i(1) by auto
qed auto

subsection \<open>Properties\<close>


text \<open>Two messages of a sender that blocks, over a ring of one page.\<close>

definition blocking_talk :: talk where
  "blocking_talk = page_talk\<lparr>tk_tx := page_producer\<lparr>cx_nonblocking_send := False\<rparr>\<rparr>"

lemma page_patient:
  "patient 4096 [\<lparr>wr_before = replicate 4096 4096, wr_armed = [], wr_park = [], wr_asleep = [], wr_errno = 0\<rparr>]"
  by (simp only: patient_def list_all_iff) simp

lemma accepts_once: "accepts n [SysOk n]"
  by (simp add: accepts_def exI [of _ "[]"])

definition page_says_well :: "u8 list \<Rightarrow> turn" where
  "page_says_well bs = Sends bs ((quiet_world (page_at 0 0) (sends_only [SysOk (length bs + 1)]))
     \<lparr>w_rounds := [\<lparr>wr_before = replicate 4096 4096, wr_armed = [], wr_park = [], wr_asleep = [], wr_errno = 0\<rparr>]\<rparr>)"


end
