(* ===== verification/Demonstrator.thy ===== *)
theory Demonstrator
  imports Lockstep DecisionCsv
begin

text \<open>
  The program \<open>src/showcase/decision_log.c\<close>: a producer and a consumer in one process, initialised eagerly,
  that exchange messages in lockstep; one JSON object per message goes to a file. \<open>time\<close>, \<open>rand\<close>,
  \<open>fopen\<close> and the worlds of the library calls are arguments; what goes to the standard error
  output is left out.
\<close>

subsection \<open>Costs and reasons\<close>

definition DEFAULT_MSGS :: u64 where "DEFAULT_MSGS = 600"

definition est_shm_us :: "csize \<Rightarrow> double" where
  "est_shm_us s = round64 (20 / 1000) + round64 (143 / 10000) * d_of_u64 s / Fin 1000"

definition est_uds_us :: "csize \<Rightarrow> double" where
  "est_uds_us s = Fin (5 / 2) + round64 (18 / 1000) * d_of_u64 s / Fin 1000"

definition reason_text :: "bool \<Rightarrow> int \<Rightarrow> double \<Rightarrow> string" where
  "reason_text switched payload ewma =
    (if switched then
       if 4096 \<le> payload then ''ewma crossed TAU_HIGH -> SHM''
       else if payload \<le> 1024 then ''ewma crossed TAU_LOW -> UDS''
       else ''margin-triggered switch (cost-aware)''
     else if 4096 \<le> payload \<or> Fin 4096 \<le> ewma then ''bulk payload: stay on SHM''
     else if payload \<le> 1024 \<and> ewma \<le> Fin 1020 then ''control payload: stay on UDS''
     else ''hysteresis band: hold prior route'')"

subsection \<open>The arguments\<close>

text \<open>\<open>strtoul\<close> in base 10: white space, a sign, digits; a value out of range is the greatest one.\<close>

definition is_space :: "char \<Rightarrow> bool" where
  "is_space c \<longleftrightarrow> c = CHR '' '' \<or> (of_char c :: nat) \<in> {9..13}"

definition is_digit :: "char \<Rightarrow> bool" where
  "is_digit c \<longleftrightarrow> (of_char c :: nat) \<in> {48..57}"

definition strtoul :: "string \<Rightarrow> u64" where
  "strtoul s =
    (let t = dropWhile is_space s; minus = (take 1 t = ''-'');
         n = nat_of_string (takeWhile is_digit (if minus \<or> take 1 t = ''+'' then drop 1 t else t)) in
     if 2 ^ 64 \<le> n then - 1 else if minus then - of_nat n else of_nat n)"

record demo_opts =
  op_out :: string
  op_msgs :: u64
  op_seed :: u32

fun parse_args :: "demo_opts \<Rightarrow> string list \<Rightarrow> demo_opts option" where
  "parse_args p [] = Some p"
| "parse_args p [a] = None"
| "parse_args p (a # v # rest) =
    (if a = ''--out'' then parse_args (p\<lparr>op_out := v\<rparr>) rest
     else if a = ''--msgs'' then parse_args (p\<lparr>op_msgs := strtoul v\<rparr>) rest
     else if a = ''--seed'' then parse_args (p\<lparr>op_seed := ucast (strtoul v)\<rparr>) rest
     else None)"

subsection \<open>The rows\<close>

record demo_row =
  rw_seq :: u64
  rw_payload :: csize
  rw_ewma :: double
  rw_route :: adapt_route_t
  rw_switched :: bool
  rw_shm_cost :: double
  rw_uds_cost :: double
  rw_queue_pct :: double
  rw_reason :: string

definition quoted :: "string \<Rightarrow> string" where
  "quoted s = CHR 0x22 # s @ [CHR 0x22]"

definition json_fields :: "demo_row \<Rightarrow> (string \<times> string) list" where
  "json_fields r =
    [(''seq'', string_of_nat (unat (rw_seq r))), (''payload'', string_of_nat (unat (rw_payload r))),
     (''ewma'', fmt_double 1 (rw_ewma r)), (''route'', quoted (adapt_route_name (rw_route r))),
     (''switched'', if rw_switched r then ''1'' else ''0''), (''shm_cost_us'', fmt_double 3 (rw_shm_cost r)),
     (''uds_cost_us'', fmt_double 3 (rw_uds_cost r)), (''queue_pct'', fmt_double 1 (rw_queue_pct r)),
     (''reason'', quoted (rw_reason r))]"

definition json_row :: "demo_row \<Rightarrow> string" where
  "json_row r = CHR ''{'' # join_with CHR '','' (map (\<lambda>(k, v). quoted k @ CHR '':'' # v) (json_fields r))
     @ [CHR ''}'', CHR 0x0A]"

definition demo_head :: string where
  "demo_head = ''# AdaptIPC per-decision log (real routing)'' @ [CHR 0x0A] @
     ''# fields: seq,payload,ewma,route,switched,shm_cost_us,uds_cost_us,queue_pct,reason'' @ [CHR 0x0A]"

subsection \<open>The loop\<close>

text \<open>The size of message \<open>i\<close> and its bytes: the number, then the filling of the buffer.\<close>

definition demo_size :: "(nat \<Rightarrow> nat) \<Rightarrow> u64 \<Rightarrow> u64 \<Rightarrow> csize" where
  "demo_size rand msgs i = (let ph = i * 3 div msgs; base = (if ph = 1 then 16384 else 512) in
     base + of_nat (rand (unat i) mod 64))"

definition le64 :: "u64 \<Rightarrow> u8 list" where
  "le64 w = map (\<lambda>i. ucast (drop_bit (8 * i) w)) [0, 1, 2, 3, 4, 5, 6, 7]"

definition demo_bytes :: "u64 \<Rightarrow> csize \<Rightarrow> u8 list" where
  "demo_bytes i sz = take (unat sz) (le64 i @ replicate (70000 - 8) 0x5a)"

text \<open>\<open>do rc = adapt_send while (rc == -EAGAIN)\<close>, a world for each attempt.\<close>

fun send_until :: "u8 list \<Rightarrow> world list \<Rightarrow> talk \<Rightarrow> (int \<times> talk) option" where
  "send_until bs [] s = None"
| "send_until bs (w # ws) s =
    (case adapt_send (tk_tx s) (Some bs) (w\<lparr>w_obj := tk_obj s, w_wire := []\<rparr>) of
       None \<Rightarrow> None
     | Some (rc, c, w') \<Rightarrow>
       let s' = s\<lparr>tk_tx := c, tk_obj := w_obj w', tk_net := tk_net s @ w_wire w',
                 tk_sent := tk_sent s @ (if rc = 0 then [bs] else [])\<rparr> in
       if rc = - EAGAIN then send_until bs ws s' else Some (rc, s'))"

definition recv_one :: "csize \<Rightarrow> world \<Rightarrow> talk \<Rightarrow> (int \<times> talk) option" where
  "recv_one mx w s =
    (case adapt_recv True (tk_rx s) mx (w\<lparr>w_obj := tk_obj s, w_peer := [], w_uds := net_script (tk_net s)\<rparr>) of
       None \<Rightarrow> None
     | Some ((rc, bs), c, w') \<Rightarrow> Some (rc, s\<lparr>tk_rx := c, tk_obj := w_obj w',
         tk_net := net_left (us_recv (w_uds w')), tk_got := tk_got s @ (if 0 < rc then [bs] else [])\<rparr>))"

record demo =
  dm_talk :: talk
  dm_prev :: "adapt_route_t option"
  dm_switches :: u64
  dm_rows :: "demo_row list"

definition log_row :: "u64 \<Rightarrow> csize \<Rightarrow> demo \<Rightarrow> demo" where
  "log_row i sz d =
    (let p = tk_tx (dm_talk d); obj = tk_obj (dm_talk d);
         route = adapt_last_route (Some p); ewma = adapt_ewma (Some p);
         switched = (dm_prev d \<noteq> None \<and> dm_prev d \<noteq> Some route);
         used = adapt_shm_used_bytes (Some p) obj; cap = adapt_shm_capacity (Some p) obj in
     d\<lparr>dm_prev := Some route, dm_switches := dm_switches d + (if switched then 1 else 0),
       dm_rows := dm_rows d @ [\<lparr>rw_seq = i, rw_payload = sz, rw_ewma = ewma, rw_route = route, rw_switched = switched,
         rw_shm_cost = est_shm_us sz, rw_uds_cost = est_uds_us sz,
         rw_queue_pct = (if cap \<noteq> 0 then Fin 100 * d_of_u64 used / d_of_u64 cap else 0),
         rw_reason = reason_text switched (int (unat sz)) ewma\<rparr>]\<rparr>)"

text \<open>One turn; the code is the exit status of an early return.\<close>

definition demo_turn :: "(nat \<Rightarrow> nat) \<Rightarrow> u64 \<Rightarrow> u64 \<Rightarrow> world list \<Rightarrow> world \<Rightarrow> demo \<Rightarrow> (int \<times> demo) option" where
  "demo_turn rand msgs i ws wr d =
    (let sz = demo_size rand msgs i in
     case send_until (demo_bytes i sz) ws (dm_talk d) of None \<Rightarrow> None
     | Some (rc, s) \<Rightarrow>
       if rc \<noteq> 0 then Some (5, d\<lparr>dm_talk := s\<rparr>) else
       (case recv_one 70000 wr s of None \<Rightarrow> None
        | Some (n, s) \<Rightarrow>
          if n \<noteq> int (unat sz) then Some (6, d\<lparr>dm_talk := s\<rparr>) else Some (0, log_row i sz (d\<lparr>dm_talk := s\<rparr>))))"

fun demo_loop ::
  "(nat \<Rightarrow> nat) \<Rightarrow> u64 \<Rightarrow> (world list \<times> world) list \<Rightarrow> u64 \<Rightarrow> demo \<Rightarrow> (int \<times> demo) option" where
  "demo_loop rand msgs [] i d = (if i < msgs then None else Some (0, d))"
| "demo_loop rand msgs ((ws, wr) # ts) i d =
    (if \<not> i < msgs then Some (0, d) else
     case demo_turn rand msgs i ws wr d of None \<Rightarrow> None
     | Some (rc, d) \<Rightarrow> if rc \<noteq> 0 then Some (rc, d) else demo_loop rand msgs ts (i + 1) d)"

subsection \<open>The program\<close>

text \<open>The clock and the process id, \<open>rand\<close> by seed and call, what the two initialisations meet, whether
  the file can be opened, and the worlds of the turns.\<close>

record demo_env =
  de_time :: u32
  de_pid :: nat
  de_rand :: "u32 \<Rightarrow> nat \<Rightarrow> nat"
  de_init_p :: init_env
  de_init_c :: init_env
  de_world_p :: world
  de_world_c :: world
  de_fopen :: bool
  de_turns :: "(world list \<times> world) list"

definition demo_path :: "string \<Rightarrow> nat \<Rightarrow> string" where
  "demo_path side pid = take 63 (''/tmp/adaptipc_dlog_'' @ side @ ''_'' @ string_of_nat pid)"

definition demo_cfg :: "string \<Rightarrow> string \<Rightarrow> adapt_config" where
  "demo_cfg own peer = \<lparr>cf_shm_name = None, cf_local_sock = Some own, cf_peer_sock = Some peer,
     cf_shm_capacity = 2 ^ 20, cf_nonblocking_send = False, cf_policy = ADAPT_POLICY_DEFAULT,
     cf_qos = ADAPT_QOS_BALANCED, cf_latency_budget_us = 0\<rparr>"

definition set_eager :: "init_env \<Rightarrow> init_env" where
  "set_eager e = e\<lparr>ie_getenv := (ie_getenv e)(''ADAPTIPC_EAGER_SHM'' \<mapsto> ''1'')\<rparr>"

text \<open>The outcome: the exit status, the contents of the file, and at the regular end the number of switches,
  what the two shutdowns release, and the paths that are unlinked.\<close>

type_synonym released =
  "adapt_decision list option \<times> (csize \<times> int \<times> string option) option \<times> int option \<times> string option"

record demo_result =
  dr_exit :: int
  dr_file :: "string option"
  dr_switches :: "u64 option"
  dr_released :: "(released \<times> released) option"
  dr_unlinked :: "string list"

definition early_exit :: "int \<Rightarrow> string option \<Rightarrow> demo_result" where
  "early_exit rc file = \<lparr>dr_exit = rc, dr_file = file, dr_switches = None, dr_released = None, dr_unlinked = []\<rparr>"

definition demo_file :: "demo \<Rightarrow> string" where
  "demo_file d = demo_head @ concat (map json_row (dm_rows d))"

definition demo_start :: "adapt_ctx \<Rightarrow> adapt_ctx \<Rightarrow> shm_obj \<Rightarrow> demo" where
  "demo_start p c obj = \<lparr>dm_talk = \<lparr>tk_tx = p, tk_rx = c, tk_obj = obj, tk_net = [], tk_sent = [], tk_got = []\<rparr>,
     dm_prev = None, dm_switches = 0, dm_rows = []\<rparr>"

definition demo_opts_of :: "string list \<Rightarrow> demo_env \<Rightarrow> demo_opts option" where
  "demo_opts_of args v =
     parse_args \<lparr>op_out = ''showcase/outputs/decision_log.jsonl'', op_msgs = DEFAULT_MSGS, op_seed = de_time v\<rparr> args"

definition demo_main :: "string list \<Rightarrow> demo_env \<Rightarrow> demo_result option" where
  "demo_main args v =
    (case demo_opts_of args v of
       None \<Rightarrow> Some (early_exit 2 None)
     | Some opts \<Rightarrow>
       if op_msgs opts < 6 then Some (early_exit 2 None) else
       let pp = demo_path ''p'' (de_pid v); cp = demo_path ''c'' (de_pid v) in
       case adapt_init ADAPT_ROLE_PRODUCER (Some (demo_cfg pp cp)) (set_eager (de_init_p v)) (de_world_p v) of
         None \<Rightarrow> None
       | Some (rc, p, w) \<Rightarrow>
         if rc \<noteq> 0 then Some (early_exit 3 None) else
         (case adapt_init ADAPT_ROLE_CONSUMER (Some (demo_cfg cp pp)) (set_eager (de_init_c v))
                 ((de_world_c v)\<lparr>w_obj := w_obj w\<rparr>) of
            None \<Rightarrow> None
          | Some (rc, c, w) \<Rightarrow>
            if rc \<noteq> 0 then Some (early_exit 3 None) else
            if \<not> de_fopen v then Some (early_exit 4 None) else
            (case demo_loop (de_rand v (op_seed opts)) (op_msgs opts) (de_turns v) 0
                    (demo_start (the p) (the c) (w_obj w)) of
               None \<Rightarrow> None
             | Some (rc, d) \<Rightarrow> Some (
                 if rc \<noteq> 0 then early_exit rc (Some (demo_file d))
                 else \<lparr>dr_exit = 0, dr_file = Some (demo_file d), dr_switches = Some (dm_switches d),
                   dr_released = Some (adapt_shutdown (tk_tx (dm_talk d)), adapt_shutdown (tk_rx (dm_talk d))),
                   dr_unlinked = [pp, cp]\<rparr>))))"

end
