(* ===== verification/DemoRuns.thy ===== *)
theory DemoRuns
  imports Demonstrator
begin

text \<open>
  The runs of the demonstrator: each of its sends finds the ring empty, so the endpoints are in lockstep and
  every receive takes the message sent before it. From there the exit statuses, the complete run, and the
  reading of the file it writes.
\<close>

subsection \<open>Sizes\<close>

lemma demo_size_bounds: "512 \<le> unat (demo_size rand msgs i) \<and> unat (demo_size rand msgs i) < 16448"
proof -
  obtain r where r: "r = rand (unat i) mod 64" "r < 64" by simp
  then have "unat (of_nat r :: csize) = r" by (intro unat_of_nat_u64) (rule less_trans [OF r(2)], simp)
  then have "unat (16384 + of_nat r :: csize) = 16384 + r" "unat (512 + of_nat r :: csize) = 512 + r"
    using r(2) by (simp_all add: unat_word_ariths)
  then show ?thesis using r(2) by (simp add: demo_size_def Let_def r(1) [symmetric])
qed

lemma demo_bytes_length: "unat sz \<le> 70000 \<Longrightarrow> length (demo_bytes i sz) = unat sz"
  by (simp add: demo_bytes_def le64_def)

subsection \<open>The endpoints in lockstep\<close>

definition lock_base :: "talk \<Rightarrow> bool" where
  "lock_base s \<longleftrightarrow> (\<exists>rp rb. cx_ring (tk_tx s) = Some rp \<and> cx_ring (tk_rx s) = Some rb \<and> rb_capacity rp = rb_capacity rb \<and>
     rb_capacity rb = 2 ^ 20) \<and> cx_shm_capacity (tk_tx s) = 2 ^ 20 \<and> cx_role (tk_tx s) = ADAPT_ROLE_PRODUCER \<and>
   cx_uds (tk_tx s) \<noteq> None \<and> cx_role (tk_rx s) = ADAPT_ROLE_CONSUMER \<and> cx_uds (tk_rx s) \<noteq> None \<and>
   2 ^ 20 \<le> unat (cx_rxbuf_cap (tk_rx s))"

text \<open>Nothing is on its way, or one message.\<close>

definition at_rest :: "talk \<Rightarrow> bool" where
  "at_rest s \<longleftrightarrow> lock_base s \<and> ring_holds (the (cx_ring (tk_rx s))) (tk_obj s) [] \<and> tk_net s = []"

definition one_waits :: "u8 list \<Rightarrow> talk \<Rightarrow> bool" where
  "one_waits bs s \<longleftrightarrow> lock_base s \<and>
    (ring_holds (the (cx_ring (tk_rx s))) (tk_obj s) [TAG_SHM # bs] \<and> tk_net s = [] \<or>
     ring_holds (the (cx_ring (tk_rx s))) (tk_obj s) [] \<and> tk_net s = [TAG_UDS # bs])"

text \<open>The messages of the demonstrator.\<close>

definition small :: "u8 list \<Rightarrow> bool" where
  "small bs \<longleftrightarrow> bs \<noteq> [] \<and> length bs < 16448"

lemma at_rest_lone:
  assumes "at_rest s" "small bs" "w_rounds w \<noteq> []"
  obtains rp where "lone (tk_tx s) rp (w\<lparr>w_obj := tk_obj s, w_wire := []\<rparr>) bs" "cx_ring (tk_tx s) = Some rp"
    "\<And>obj ms. ring_holds rp obj ms = ring_holds (the (cx_ring (tk_rx s))) obj ms"
proof -
  obtain rp rb where r: "cx_ring (tk_tx s) = Some rp" "cx_ring (tk_rx s) = Some rb" "rb_capacity rp = rb_capacity rb"
    "rb_capacity rb = 2 ^ 20" using assms(1) unfolding at_rest_def lock_base_def by blast
  have h: "ring_holds rp obj ms = ring_holds (the (cx_ring (tk_rx s))) obj ms" for obj ms
    using ring_holds_cap [OF r(3)] r(2) by simp
  have "cx_shm_capacity (tk_tx s) = 2 ^ 20" using assms(1) by (simp add: at_rest_def lock_base_def)
  then have "lone (tk_tx s) rp (w\<lparr>w_obj := tk_obj s, w_wire := []\<rparr>) bs"
    using assms r h by (simp add: lone_def small_def at_rest_def)
  then show ?thesis using that r(1) h by blast
qed

lemma lock_base_ends:
  "ends c = ends (tk_tx s) \<Longrightarrow> lock_base (s\<lparr>tk_tx := c, tk_obj := ob, tk_net := n, tk_sent := m\<rparr>) = lock_base s"
  by (simp add: lock_base_def ends_def)

lemma lock_base_rx:
  "rx_same (tk_rx s) c \<Longrightarrow> lock_base (s\<lparr>tk_rx := c, tk_obj := ob, tk_net := n, tk_got := m\<rparr>) = lock_base s"
  by (simp add: lock_base_def rx_same_def)

lemma send_until_result:
  assumes "send_until bs ws s = Some (rc, s')" "at_rest s" "small bs"
    and "\<forall>w\<in>set ws. w_rounds w \<noteq> [] \<and> list_all sys_ret_ok (us_send (w_uds w))"
  shows "rc = 0 \<longrightarrow> one_waits bs s' \<and> tk_sent s' = tk_sent s @ [bs] \<and> tk_got s' = tk_got s"
  using assms
proof (induction ws arbitrary: s)
  case (Cons w ws)
  obtain rp where rp: "lone (tk_tx s) rp (w\<lparr>w_obj := tk_obj s, w_wire := []\<rparr>) bs" "cx_ring (tk_tx s) = Some rp"
    "\<And>obj ms. ring_holds rp obj ms = ring_holds (the (cx_ring (tk_rx s))) obj ms"
    using at_rest_lone Cons.prems by (metis list.set_intros(1))
  have role: "cx_role (tk_tx s) = ADAPT_ROLE_PRODUCER" and base: "lock_base s" and net: "tk_net s = []"
    using Cons.prems(2) by (auto simp: at_rest_def lock_base_def)
  obtain r c w' where send: "adapt_send (tk_tx s) (Some bs) (w\<lparr>w_obj := tk_obj s, w_wire := []\<rparr>) = Some (r, c, w')"
    using Cons.prems(1) by (auto split: option.splits)
  let ?s = "s\<lparr>tk_tx := c, tk_obj := w_obj w', tk_net := tk_net s @ w_wire w',
                 tk_sent := tk_sent s @ (if r = 0 then [bs] else [])\<rparr>"
  have step: "(if r = - EAGAIN then send_until bs ws ?s else Some (r, ?s)) = Some (rc, s')"
    using Cons.prems(1) send by (simp add: Let_def)
  have "list_all sys_ret_ok (us_send (w_uds (w\<lparr>w_obj := tk_obj s, w_wire := []\<rparr>)))" using Cons.prems(4) by simp
  note l = lone_send [OF rp(1) role send this]
  have base': "lock_base ?s" using lock_base_ends l base by blast
  show ?case
  proof (cases "r = - EAGAIN")
    case True
    then have "at_rest ?s" "r \<noteq> 0" using l base' net rp(3) by (auto simp: at_rest_def errno_defs)
    then show ?thesis using Cons.IH [of ?s] step True Cons.prems(3,4) by simp
  next
    case False
    have "r = 0 \<longrightarrow> one_waits bs ?s" using l base' net rp(3) by (auto simp: one_waits_def)
    then show ?thesis using step False by auto
  qed
qed simp

lemma recv_one_result:
  assumes "one_waits bs s" "small bs"
  shows "\<exists>s'. recv_one 70000 w s = Some (int (length bs), s') \<and> at_rest s' \<and> tk_sent s' = tk_sent s \<and>
    tk_got s' = tk_got s @ [bs]"
proof -
  let ?w = "w\<lparr>w_obj := tk_obj s, w_peer := [], w_uds := net_script (tk_net s)\<rparr>"
  obtain rb where rb: "cx_ring (tk_rx s) = Some rb" using assms(1) by (auto simp: one_waits_def lock_base_def)
  have b: "lock_base s" using assms(1) by (simp add: one_waits_def)
  then have rx: "cx_role (tk_rx s) = ADAPT_ROLE_CONSUMER" "cx_uds (tk_rx s) \<noteq> None" "2 ^ 20 \<le> unat (cx_rxbuf_cap (tk_rx s))"
    by (simp_all add: lock_base_def)
  have way: "ring_holds rb (w_obj ?w) [TAG_SHM # bs] \<and> w_uds ?w = net_script [] \<or>
      ring_holds rb (w_obj ?w) [] \<and> w_uds ?w = net_script [TAG_UDS # bs]"
    using assms(1) rb by (auto simp: one_waits_def)
  have len: "bs \<noteq> []" "length bs < 2 ^ 62" "length bs + 1 \<le> unat (cx_rxbuf_cap (tk_rx s))" "length bs \<le> unat (70000 :: csize)"
    "(2 :: csize) \<le> 70000" using assms(2) rx(3) by (auto simp: small_def)
  obtain q' w' where r: "adapt_recv True (tk_rx s) 70000 ?w = Some ((int (length bs), bs), q', w')"
    "ring_holds rb (w_obj w') []" "us_recv (w_uds w') = []" "rx_same (tk_rx s) q'"
    using lone_recv [OF rx(1) rb rx(2) _ way len] by auto
  let ?s = "s\<lparr>tk_rx := q', tk_obj := w_obj w', tk_net := [], tk_got := tk_got s @ [bs]\<rparr>"
  have "lock_base ?s" using lock_base_rx [OF r(4)] b by blast
  then have "at_rest ?s" using r(2,4) rb by (simp add: at_rest_def rx_same_def)
  moreover have "recv_one 70000 w s = Some (int (length bs), ?s)" using r(1,3) len(1) by (simp add: recv_one_def)
  ultimately show ?thesis by auto
qed

subsection \<open>Turns\<close>

abbreviation demo_msg :: "(nat \<Rightarrow> nat) \<Rightarrow> u64 \<Rightarrow> u64 \<Rightarrow> u8 list" where
  "demo_msg rand msgs i \<equiv> demo_bytes i (demo_size rand msgs i)"

lemma demo_msg_small: "small (demo_msg rand msgs i)" "length (demo_msg rand msgs i) = unat (demo_size rand msgs i)"
  using demo_size_bounds [of rand msgs i] demo_bytes_length [of "demo_size rand msgs i" i]
  by (auto simp: small_def)

text \<open>What a run of turns adds: the messages sent and received, the numbers and the sizes in the rows.\<close>

definition adds :: "(nat \<Rightarrow> nat) \<Rightarrow> u64 \<Rightarrow> u64 list \<Rightarrow> demo \<Rightarrow> demo \<Rightarrow> bool" where
  "adds rand msgs is d d' \<longleftrightarrow>
     tk_sent (dm_talk d') = tk_sent (dm_talk d) @ map (demo_msg rand msgs) is \<and>
     tk_got (dm_talk d') = tk_got (dm_talk d) @ map (demo_msg rand msgs) is \<and>
     map rw_seq (dm_rows d') = map rw_seq (dm_rows d) @ is \<and>
     map rw_payload (dm_rows d') = map rw_payload (dm_rows d) @ map (demo_size rand msgs) is \<and>
     map rw_queue_pct (dm_rows d') = map rw_queue_pct (dm_rows d) @ map (\<lambda>_. 0) is"

lemma adds_trans: "adds rand msgs is d d' \<Longrightarrow> adds rand msgs js d' d'' \<Longrightarrow> adds rand msgs (is @ js) d d''"
  by (simp add: adds_def)

lemma idle_percent: "cap \<noteq> 0 \<Longrightarrow> Fin 0 / d_of_u64 cap = 0"
proof -
  assume "cap \<noteq> 0"
  then have "1 \<le> unat cap" by (simp add: Suc_le_eq unat_gt_0)
  then have "(1 :: rat) \<le> of_nat (unat cap)" by linarith
  then have "Fin 1 \<le> d_of_u64 cap" unfolding d_of_u64_def rat_of_u64_def using round64_mono [of 1] by simp
  then show ?thesis by (cases "d_of_u64 cap") (auto simp: zero_double_def less_eq_double_def)
qed

lemma log_row_simps [simp]:
  "dm_talk (log_row i sz d) = dm_talk d" "map rw_seq (dm_rows (log_row i sz d)) = map rw_seq (dm_rows d) @ [i]"
  "map rw_payload (dm_rows (log_row i sz d)) = map rw_payload (dm_rows d) @ [sz]"
  by (simp_all add: log_row_def Let_def)

text \<open>The occupancy is read behind the receive, when the ring is empty.\<close>

lemma log_row_queue:
  assumes "at_rest (dm_talk d)"
  shows "map rw_queue_pct (dm_rows (log_row i sz d)) = map rw_queue_pct (dm_rows d) @ [0]"
proof -
  obtain rp rb where r: "cx_ring (tk_tx (dm_talk d)) = Some rp" "cx_ring (tk_rx (dm_talk d)) = Some rb"
    "rb_capacity rp = rb_capacity rb" "ring_holds rb (tk_obj (dm_talk d)) []"
    using assms unfolding at_rest_def lock_base_def by auto
  then have "ring_used (tk_obj (dm_talk d)) = 0" using ring_used_empty by blast
  then have "adapt_shm_used_bytes (Some (tk_tx (dm_talk d))) (tk_obj (dm_talk d)) = 0"
    using r(1) by (simp add: adapt_shm_used_bytes_def shm_ring_used_bytes_def)
  then show ?thesis by (simp add: log_row_def Let_def idle_percent)
qed

definition worlds_ok :: "world list \<Rightarrow> bool" where
  "worlds_ok ws \<longleftrightarrow> (\<forall>w\<in>set ws. w_rounds w \<noteq> [] \<and> list_all sys_ret_ok (us_send (w_uds w)))"

lemma turn_receives:
  assumes "send_until (demo_msg rand msgs i) ws (dm_talk d) = Some (0, s)" "one_waits (demo_msg rand msgs i) s"
    and "tk_sent s = tk_sent (dm_talk d) @ [demo_msg rand msgs i]" "tk_got s = tk_got (dm_talk d)"
  shows "\<exists>d'. demo_turn rand msgs i ws wr d = Some (0, d') \<and> at_rest (dm_talk d') \<and> adds rand msgs [i] d d'"
proof -
  obtain s' where r: "recv_one 70000 wr s = Some (int (length (demo_msg rand msgs i)), s')" "at_rest s'"
    "tk_sent s' = tk_sent s" "tk_got s' = tk_got s @ [demo_msg rand msgs i]"
    using recv_one_result [OF assms(2) demo_msg_small(1)] by blast
  then have "demo_turn rand msgs i ws wr d = Some (0, log_row i (demo_size rand msgs i) (d\<lparr>dm_talk := s'\<rparr>))"
    using assms(1) demo_msg_small(2) [where i = i] by (simp add: demo_turn_def Let_def)
  moreover have "map rw_queue_pct (dm_rows (log_row i (demo_size rand msgs i) (d\<lparr>dm_talk := s'\<rparr>))) = map rw_queue_pct (dm_rows d) @ [0]"
    using log_row_queue [of "d\<lparr>dm_talk := s'\<rparr>"] r(2) by simp
  ultimately show ?thesis using r assms(3,4) by (auto simp: adds_def)
qed

lemma demo_turn_result:
  assumes "demo_turn rand msgs i ws wr d = Some (rc, d')" "at_rest (dm_talk d)" "worlds_ok ws"
  shows "rc = 0 \<and> at_rest (dm_talk d') \<and> adds rand msgs [i] d d' \<or> rc = 5"
proof -
  obtain r s where send: "send_until (demo_msg rand msgs i) ws (dm_talk d) = Some (r, s)"
    using assms(1) by (auto simp: demo_turn_def Let_def split: option.splits)
  show ?thesis
  proof (cases "r = 0")
    case True
    have "\<exists>d''. demo_turn rand msgs i ws wr d = Some (0, d'') \<and> at_rest (dm_talk d'') \<and> adds rand msgs [i] d d''"
      by (rule turn_receives [where s = s])
        (use send True send_until_result [OF send assms(2) demo_msg_small(1)] assms(3) in \<open>simp_all add: worlds_ok_def\<close>)
    then show ?thesis using assms(1) by auto
  next
    case False
    then show ?thesis using assms(1) send by (simp add: demo_turn_def Let_def)
  qed
qed

lemma upt_from: "i < msgs \<Longrightarrow> map of_nat [unat i..<unat msgs] = (i :: u64) # map of_nat [unat (i + 1)..<unat msgs]"
proof -
  assume a: "i < msgs"
  then have "unat i + 1 < 2 ^ 64" using unsigned_less [of msgs, where 'a = nat] by (simp add: word_less_nat_alt)
  then have "unat (i + 1) = unat i + 1" by (simp add: unat_word_ariths)
  then show ?thesis using a by (simp add: upt_conv_Cons word_less_nat_alt)
qed

lemma demo_loop_result:
  assumes "demo_loop rand msgs ts i d = Some (rc, d')" "at_rest (dm_talk d)" "\<forall>(ws, wr)\<in>set ts. worlds_ok ws" "i \<le> msgs"
  shows "rc = 0 \<and> adds rand msgs (map of_nat [unat i..<unat msgs]) d d' \<or> rc = 5"
  using assms
proof (induction ts arbitrary: i d)
  case Nil
  then show ?case by (auto simp: adds_def not_less split: if_splits)
next
  case (Cons t ts)
  obtain ws wr where t: "t = (ws, wr)" by fastforce
  show ?case
  proof (cases "i < msgs")
    case False
    then show ?thesis using Cons.prems(1,4) t by (auto simp: adds_def)
  next
    case True
    then obtain r d1 where turn: "demo_turn rand msgs i ws wr d = Some (r, d1)"
      "(if r \<noteq> 0 then Some (r, d1) else demo_loop rand msgs ts (i + 1) d1) = Some (rc, d')"
      using Cons.prems(1) t by (auto split: option.splits)
    from demo_turn_result [OF turn(1) Cons.prems(2)] Cons.prems(3) t
    consider "r = 0" "at_rest (dm_talk d1)" "adds rand msgs [i] d d1" | "r = 5" by auto
    then show ?thesis
    proof cases
      case 1
      have "i + 1 \<le> msgs" using True by (simp add: inc_le)
      then show ?thesis using Cons.IH [of "i + 1" d1] turn(2) 1 Cons.prems(3) adds_trans [OF 1(3)] upt_from [OF True]
        by auto
    next
      case 2
      then show ?thesis using turn(2) by auto
    qed
  qed
qed

subsection \<open>A run to the end\<close>

text \<open>From message \<open>i\<close> on, the first attempt of each turn meets a kernel that takes its datagram.\<close>

fun turns_accepted :: "(nat \<Rightarrow> nat) \<Rightarrow> u64 \<Rightarrow> u64 \<Rightarrow> (world list \<times> world) list \<Rightarrow> bool" where
  "turns_accepted rand msgs i [] \<longleftrightarrow> True"
| "turns_accepted rand msgs i ((ws, wr) # ts) \<longleftrightarrow> ws \<noteq> [] \<and> w_rounds (hd ws) \<noteq> [] \<and>
     accepts (unat (demo_size rand msgs i) + 1) (us_send (w_uds (hd ws))) \<and> turns_accepted rand msgs (i + 1) ts"

lemma send_until_accepted:
  assumes "at_rest s" "small bs" "w_rounds w \<noteq> []" "accepts (length bs + 1) (us_send (w_uds w))"
  shows "\<exists>s'. send_until bs (w # ws) s = Some (0, s') \<and> one_waits bs s' \<and> tk_sent s' = tk_sent s @ [bs] \<and> tk_got s' = tk_got s"
proof -
  obtain rp where rp: "lone (tk_tx s) rp (w\<lparr>w_obj := tk_obj s, w_wire := []\<rparr>) bs" "cx_ring (tk_tx s) = Some rp"
    "\<And>obj ms. ring_holds rp obj ms = ring_holds (the (cx_ring (tk_rx s))) obj ms"
    using at_rest_lone assms(1-3) by metis
  have role: "cx_role (tk_tx s) = ADAPT_ROLE_PRODUCER" "cx_uds (tk_tx s) \<noteq> None" and base: "lock_base s" and net: "tk_net s = []"
    using assms(1) by (auto simp: at_rest_def lock_base_def)
  have "accepts (length bs + 1) (us_send (w_uds (w\<lparr>w_obj := tk_obj s, w_wire := []\<rparr>)))" using assms(4) by simp
  from lone_send_accepted [OF rp(1) role this] obtain c w' where
    a: "adapt_send (tk_tx s) (Some bs) (w\<lparr>w_obj := tk_obj s, w_wire := []\<rparr>) = Some (0, c, w')" "ends c = ends (tk_tx s)"
    and b: "ring_holds rp (w_obj w') [TAG_SHM # bs] \<and> w_wire w' = [] \<or> ring_holds rp (w_obj w') [] \<and> w_wire w' = [TAG_UDS # bs]"
    by auto
  let ?s = "s\<lparr>tk_tx := c, tk_obj := w_obj w', tk_net := tk_net s @ w_wire w', tk_sent := tk_sent s @ [bs]\<rparr>"
  have "lock_base ?s" using lock_base_ends a(2) base by blast
  then have "one_waits bs ?s" using b net rp(3) by (auto simp: one_waits_def)
  moreover have "send_until bs (w # ws) s = Some (0, ?s)" using a(1) by (simp add: Let_def errno_defs)
  ultimately show ?thesis by auto
qed

lemma demo_turn_accepted:
  assumes "at_rest (dm_talk d)" "w_rounds w \<noteq> []" "accepts (unat (demo_size rand msgs i) + 1) (us_send (w_uds w))"
  shows "\<exists>d'. demo_turn rand msgs i (w # ws) wr d = Some (0, d') \<and> at_rest (dm_talk d') \<and> adds rand msgs [i] d d'"
proof -
  have "accepts (length (demo_msg rand msgs i) + 1) (us_send (w_uds w))"
    using assms(3) demo_msg_small(2) [where i = i] by simp
  from send_until_accepted [OF assms(1) demo_msg_small(1) assms(2) this, of ws] obtain s where
    "send_until (demo_msg rand msgs i) (w # ws) (dm_talk d) = Some (0, s)" "one_waits (demo_msg rand msgs i) s"
    "tk_sent s = tk_sent (dm_talk d) @ [demo_msg rand msgs i]" "tk_got s = tk_got (dm_talk d)" by blast
  then show ?thesis by (rule turn_receives)
qed

lemma demo_loop_accepted:
  assumes "turns_accepted rand msgs i ts" "at_rest (dm_talk d)" "unat i + length ts = unat msgs"
  shows "\<exists>d'. demo_loop rand msgs ts i d = Some (0, d') \<and> adds rand msgs (map of_nat [unat i..<unat msgs]) d d'"
  using assms
proof (induction ts arbitrary: i d)
  case Nil
  then show ?case by (simp add: adds_def word_less_nat_alt)
next
  case (Cons t ts)
  obtain ws wr where t: "t = (ws, wr)" by fastforce
  then obtain w ws' where ws: "ws = w # ws'" using Cons.prems(1) by (cases ws) auto
  have lt: "i < msgs" using Cons.prems(3) by (simp add: word_less_nat_alt)
  obtain d1 where d1: "demo_turn rand msgs i ws wr d = Some (0, d1)" "at_rest (dm_talk d1)" "adds rand msgs [i] d d1"
    using demo_turn_accepted [of d w rand msgs i ws' wr] Cons.prems(1,2) t ws by auto
  have "unat (i + 1) = unat i + 1"
    using lt unsigned_less [of msgs, where 'a = nat] by (simp add: unat_word_ariths word_less_nat_alt)
  then obtain d' where "demo_loop rand msgs ts (i + 1) d1 = Some (0, d')"
    "adds rand msgs (map of_nat [unat (i + 1)..<unat msgs]) d1 d'"
    using Cons.IH [of "i + 1" d1] Cons.prems(1,3) d1(2) t by auto
  then show ?case using t lt d1(1) adds_trans [OF d1(3)] upt_from [OF lt] by auto
qed

subsection \<open>The start\<close>

lemma adapt_init_gives: "adapt_init role cfg e w = Some (0, c, w') \<Longrightarrow> \<exists>x. c = Some x"
  by (auto simp: adapt_init_def open_socket_def Let_def errno_defs split: option.splits if_splits prod.splits)

lemma set_eager_simps [simp]:
  "ie_getenv (set_eager e) ''ADAPTIPC_EAGER_SHM'' \<noteq> None" "init_works path (set_eager e) w = init_works path e w"
  by (simp_all add: set_eager_def init_works_def)

lemma demo_capacity: "cfg_capacity (demo_cfg a b) = 2 ^ 20" "capacity_ok (2 ^ 20)"
  by (simp_all add: cfg_capacity_def demo_cfg_def capacity_ok_def word_le_nat_alt)

lemma demo_start_rests:
  assumes p: "adapt_init ADAPT_ROLE_PRODUCER (Some (demo_cfg pp cp)) (set_eager ep) w = Some (0, Some p, w')"
    and q: "adapt_init ADAPT_ROLE_CONSUMER (Some (demo_cfg cp pp)) (set_eager ec) (v\<lparr>w_obj := w_obj w'\<rparr>) = Some (0, Some q, v')"
  shows "at_rest (dm_talk (demo_start p q (w_obj v')))"
proof -
  have cap: "capacity_ok (cfg_capacity (demo_cfg a b))" "cfg_capacity (demo_cfg cp pp) = cfg_capacity (demo_cfg pp cp)" for a b
    by (simp_all add: demo_capacity capacity_ok_def word_le_nat_alt)
  have "w_obj (v\<lparr>w_obj := w_obj w'\<rparr>) = w_obj w'" by simp
  from eager_pair [OF p set_eager_simps(1) q set_eager_simps(1) cap(2,1) this]
  obtain rp rb where r: "cx_ring p = Some rp" "cx_ring q = Some rb" "rb_capacity rp = rb_capacity rb"
    "round_pow2 (2 ^ 20) = Some (rb_capacity rb)" "ring_holds rb (w_obj v') []" by (auto simp: demo_capacity)
  have "round_pow2 (2 ^ 20) = Some (2 ^ 20)" by (simp add: round_pow2_def round_pow2_loop.simps)
  then have "rb_capacity rb = 2 ^ 20" using r(4) by simp
  moreover note adapt_init_eager [OF p set_eager_simps(1) cap(1)] adapt_init_eager [OF q set_eager_simps(1) cap(1)]
  moreover have "(2 :: nat) ^ 20 = unat (2 ^ 20 :: csize)" by simp
  ultimately show ?thesis using r
    by (auto simp: at_rest_def lock_base_def demo_start_def demo_capacity word_le_nat_alt)
qed

text \<open>The program ends early or runs its loop from endpoints at rest.\<close>

lemma demo_main_cases:
  assumes "demo_main args v = Some r"
  obtains (early) "dr_exit r \<in> {2, 3, 4}"
    | (ran) opts p q obj n d where "demo_opts_of args v = Some opts" "at_rest (dm_talk (demo_start p q obj))"
      "demo_loop (de_rand v (op_seed opts)) (op_msgs opts) (de_turns v) 0 (demo_start p q obj) = Some (n, d)"
      "dr_exit r = n" "n = 0 \<Longrightarrow> dr_file r = Some (demo_file d)"
proof (cases "demo_opts_of args v")
  case None
  then show ?thesis using assms early by (auto simp: demo_main_def early_exit_def)
next
  case (Some opts)
  let ?pp = "demo_path ''p'' (de_pid v)" and ?cp = "demo_path ''c'' (de_pid v)"
  note main = assms [unfolded demo_main_def Some option.case Let_def]
  show ?thesis
  proof (cases "dr_exit r \<in> {2, 3, 4}")
    case False
    then have msgs: "\<not> op_msgs opts < 6" using main by (auto simp: early_exit_def)
    then obtain rc po w where p: "adapt_init ADAPT_ROLE_PRODUCER (Some (demo_cfg ?pp ?cp)) (set_eager (de_init_p v)) (de_world_p v)
        = Some (rc, po, w)" using main by (auto split: option.splits)
    have rc: "rc = 0" using main False msgs p by (auto simp: early_exit_def split: if_splits)
    obtain rc2 qo w2 where q: "adapt_init ADAPT_ROLE_CONSUMER (Some (demo_cfg ?cp ?pp)) (set_eager (de_init_c v))
        ((de_world_c v)\<lparr>w_obj := w_obj w\<rparr>) = Some (rc2, qo, w2)" using main msgs p rc by (auto split: option.splits)
    have rc2: "rc2 = 0" "de_fopen v" using main False msgs p q rc by (auto simp: early_exit_def split: if_splits)
    obtain pc qc where c: "po = Some pc" "qo = Some qc" using adapt_init_gives p q rc rc2 by blast
    have "at_rest (dm_talk (demo_start pc qc (w_obj w2)))" using demo_start_rests p q rc rc2 c by blast
    moreover obtain n d where "demo_loop (de_rand v (op_seed opts)) (op_msgs opts) (de_turns v) 0 (demo_start pc qc (w_obj w2))
        = Some (n, d)" "dr_exit r = n" "n = 0 \<Longrightarrow> dr_file r = Some (demo_file d)"
      using main msgs p q rc rc2 c by (auto simp: early_exit_def split: option.splits if_splits)
    ultimately show ?thesis using Some ran by blast
  qed (use early in blast)
qed

text \<open>The rows of a full run, as the options ask for.\<close>

definition full_run :: "demo_opts \<Rightarrow> (nat \<Rightarrow> nat) \<Rightarrow> demo_row list \<Rightarrow> bool" where
  "full_run opts rand rows \<longleftrightarrow> map rw_seq rows = map of_nat [0..<unat (op_msgs opts)] \<and>
     map rw_payload rows = map (\<lambda>i. demo_size rand (op_msgs opts) (of_nat i)) [0..<unat (op_msgs opts)] \<and>
     (\<forall>r\<in>set rows. rw_queue_pct r = 0)"

lemma adds_full_run:
  "adds rand (op_msgs opts) (map of_nat [0..<unat (op_msgs opts)]) (demo_start p q obj) d \<Longrightarrow> full_run opts rand (dm_rows d)"
proof -
  assume a: "adds rand (op_msgs opts) (map of_nat [0..<unat (op_msgs opts)]) (demo_start p q obj) d"
  then have "map rw_queue_pct (dm_rows d) = replicate (unat (op_msgs opts)) 0"
    by (simp add: adds_def demo_start_def comp_def map_replicate_const)
  then have "set (map rw_queue_pct (dm_rows d)) \<subseteq> {0}" by (auto simp: set_replicate_conv_if)
  then have "\<forall>r\<in>set (dm_rows d). rw_queue_pct r = 0" by auto
  then show ?thesis using a by (simp add: adds_def full_run_def demo_start_def comp_def)
qed

text \<open>A run in which nothing is refused.\<close>

lemma demo_main_runs:
  assumes "demo_opts_of args v = Some opts" "6 \<le> op_msgs opts"
    and "init_works (demo_path ''p'' (de_pid v)) (de_init_p v) (de_world_p v)"
    and "init_works (demo_path ''c'' (de_pid v)) (de_init_c v) (de_world_c v)" "de_fopen v"
    and "length (de_turns v) = unat (op_msgs opts)"
    and "turns_accepted (de_rand v (op_seed opts)) (op_msgs opts) 0 (de_turns v)"
  shows "\<exists>r p q obj d. demo_main args v = Some r \<and> dr_exit r = 0 \<and> dr_file r = Some (demo_file d) \<and>
    demo_loop (de_rand v (op_seed opts)) (op_msgs opts) (de_turns v) 0 (demo_start p q obj) = Some (0, d) \<and>
    adds (de_rand v (op_seed opts)) (op_msgs opts) (map of_nat [0..<unat (op_msgs opts)]) (demo_start p q obj) d"
proof -
  let ?pp = "demo_path ''p'' (de_pid v)" and ?cp = "demo_path ''c'' (de_pid v)"
  have cfg: "cf_shm_name (demo_cfg a b) = None" "cf_local_sock (demo_cfg a b) = Some a" "cf_peer_sock (demo_cfg a b) = Some b"
    "capacity_ok (cfg_capacity (demo_cfg a b))" for a b
    by (simp_all add: demo_cfg_def cfg_capacity_def capacity_ok_def word_le_nat_alt)
  obtain p w where p: "adapt_init ADAPT_ROLE_PRODUCER (Some (demo_cfg ?pp ?cp)) (set_eager (de_init_p v)) (de_world_p v)
      = Some (0, Some p, w)" using eager_init_works [OF cfg(1-3) set_eager_simps(1) cfg(4)] assms(3) by fastforce
  have "init_works ?cp (set_eager (de_init_c v)) ((de_world_c v)\<lparr>w_obj := w_obj w\<rparr>)" using assms(4) by (simp add: init_works_def set_eager_def)
  then obtain q w2 where q: "adapt_init ADAPT_ROLE_CONSUMER (Some (demo_cfg ?cp ?pp)) (set_eager (de_init_c v))
      ((de_world_c v)\<lparr>w_obj := w_obj w\<rparr>) = Some (0, Some q, w2)"
    using eager_init_works [OF cfg(1-3) set_eager_simps(1) cfg(4)] by blast
  obtain d where d: "demo_loop (de_rand v (op_seed opts)) (op_msgs opts) (de_turns v) 0 (demo_start p q (w_obj w2)) = Some (0, d)"
    "adds (de_rand v (op_seed opts)) (op_msgs opts) (map of_nat [0..<unat (op_msgs opts)]) (demo_start p q (w_obj w2)) d"
    using demo_loop_accepted [OF assms(7) demo_start_rests [OF p q]] assms(6) by auto
  have "\<exists>r. demo_main args v = Some r \<and> dr_exit r = 0 \<and> dr_file r = Some (demo_file d)"
    using assms(1,2,5) p q d(1) by (simp add: demo_main_def Let_def not_less [symmetric])
  then show ?thesis using d by blast
qed

subsection \<open>Properties\<close>

text \<open>C9: Whenever the program ends, its exit status is 0, 2, 3, 4 or 5, never 6: what a send accepted the
  receive behind it hands over, with its length. If it is 0 the file has the two comment lines and
  one row per message, in order, with its size, and an occupancy of 0 in every row. The kernel may refuse, cut and retry datagrams as it
  likes; no peer interferes.\<close>

lemma demonstrator_exits:
  assumes "demo_main args v = Some r" "\<forall>(ws, wr)\<in>set (de_turns v). worlds_ok ws"
  shows "dr_exit r \<in> {0, 2, 3, 4, 5} \<and>
    (dr_exit r = 0 \<longrightarrow> (\<exists>opts rows. demo_opts_of args v = Some opts \<and> full_run opts (de_rand v (op_seed opts)) rows \<and>
       dr_file r = Some (demo_head @ concat (map json_row rows))))"
  using assms(1)
proof (cases rule: demo_main_cases)
  case (ran opts p q obj n d)
  have "n = 0 \<and> full_run opts (de_rand v (op_seed opts)) (dm_rows d) \<or> n = 5"
    using demo_loop_result [OF ran(3,2) assms(2)] adds_full_run by auto
  then show ?thesis using ran unfolding demo_file_def by fastforce
qed auto

text \<open>C10: The program does its work: with at least six messages asked for, if the calls of the two
  initialisations succeed, the file opens and the kernel takes each datagram (whatever it makes the library
  retry before), it ends with status 0 and a complete file, whichever way the policy routes; and the consumer
  has received, byte for byte and in order, the messages that were sent.\<close>

lemma demonstrator_completes:
  assumes "demo_opts_of args v = Some opts" "6 \<le> op_msgs opts"
    and "init_works (demo_path ''p'' (de_pid v)) (de_init_p v) (de_world_p v)"
    and "init_works (demo_path ''c'' (de_pid v)) (de_init_c v) (de_world_c v)" "de_fopen v"
    and "length (de_turns v) = unat (op_msgs opts)"
    and "turns_accepted (de_rand v (op_seed opts)) (op_msgs opts) 0 (de_turns v)"
  shows "\<exists>r p q obj d. demo_main args v = Some r \<and> dr_exit r = 0 \<and> dr_file r = Some (demo_file d) \<and>
    full_run opts (de_rand v (op_seed opts)) (dm_rows d) \<and>
    demo_loop (de_rand v (op_seed opts)) (op_msgs opts) (de_turns v) 0 (demo_start p q obj) = Some (0, d) \<and>
    tk_got (dm_talk d) = map (\<lambda>i. demo_msg (de_rand v (op_seed opts)) (op_msgs opts) (of_nat i)) [0..<unat (op_msgs opts)]"
proof -
  let ?is = "map of_nat [0..<unat (op_msgs opts)] :: u64 list"
  obtain r p q obj d where r: "demo_main args v = Some r" "dr_exit r = 0" "dr_file r = Some (demo_file d)"
    "demo_loop (de_rand v (op_seed opts)) (op_msgs opts) (de_turns v) 0 (demo_start p q obj) = Some (0, d)"
    "adds (de_rand v (op_seed opts)) (op_msgs opts) ?is (demo_start p q obj) d"
    using demo_main_runs [OF assms] by blast
  then have "tk_got (dm_talk d) = map (\<lambda>i. demo_msg (de_rand v (op_seed opts)) (op_msgs opts) (of_nat i)) [0..<unat (op_msgs opts)]"
    by (simp add: adds_def demo_start_def comp_def)
  then show ?thesis using r adds_full_run by blast
qed

subsection \<open>The rows read back\<close>

text \<open>A reader of the file: comment lines aside, a row is the fields between the braces. The number, the size, the
  two costs as text, the route and the reason are taken from their fields, behind \<open>"key":\<close>.\<close>

definition json_value :: "string \<Rightarrow> string \<Rightarrow> string" where
  "json_value key f = (let p = quoted key @ '':'' in if take (length p) f = p then drop (length p) f else [])"

definition unquoted :: "string \<Rightarrow> string" where
  "unquoted s = butlast (drop 1 s)"

definition json_read :: "string \<Rightarrow> nat \<times> nat \<times> adapt_route_t \<times> bool \<times> string" where
  "json_read line = (let f = split_at CHR '','' (butlast (drop 1 line)) in
     (nat_of_string (json_value ''seq'' (f ! 0)), nat_of_string (json_value ''payload'' (f ! 1)),
      route_of_name (unquoted (json_value ''route'' (f ! 3))), json_value ''switched'' (f ! 4) = ''1'',
      unquoted (json_value ''reason'' (f ! 8))))"

definition json_key :: "demo_row \<Rightarrow> nat \<times> nat \<times> adapt_route_t \<times> bool \<times> string" where
  "json_key r = (unat (rw_seq r), unat (rw_payload r), rw_route r, rw_switched r, rw_reason r)"

definition json_pieces :: "demo_row \<Rightarrow> string list" where
  "json_pieces r = map (\<lambda>(k, v). quoted k @ CHR '':'' # v) (json_fields r)"

text \<open>The reasons the program gives hold no comma and no line feed.\<close>

definition explained :: "demo_row \<Rightarrow> bool" where
  "explained r \<longleftrightarrow> (\<exists>switched payload ewma. rw_reason r = reason_text switched payload ewma)"

lemma plain_quoted [simp]: "plain_field (quoted s) = plain_field s"
  by (auto simp: quoted_def plain_field_def)

lemma plain_reason: "plain_field (reason_text switched payload ewma)"
  by (simp add: reason_text_def plain_field_def)

lemma plain_pieces: "explained r \<Longrightarrow> \<forall>x\<in>set (json_pieces r). plain_field x"
proof -
  assume "explained r"
  then have "plain_field (rw_reason r)" using plain_reason by (auto simp: explained_def)
  moreover have "plain_field (CHR '':'' # v) = plain_field v" for v by (simp add: plain_field_def)
  moreover have "plain_field ''seq''" "plain_field ''payload''" "plain_field ''ewma''" "plain_field ''route''"
    "plain_field ''switched''" "plain_field ''shm_cost_us''" "plain_field ''uds_cost_us''" "plain_field ''queue_pct''"
    "plain_field ''reason''" "plain_field ''0''" "plain_field ''1''" by (simp_all add: plain_field_def)
  ultimately show ?thesis by (simp add: json_pieces_def json_fields_def)
qed

lemma json_value_piece [simp]: "json_value k (quoted k @ CHR '':'' # v) = v"
proof -
  have "quoted k @ CHR '':'' # v = (quoted k @ '':'') @ v" by simp
  then show ?thesis unfolding json_value_def Let_def by (simp del: append_assoc)
qed

lemma unquoted_quoted [simp]: "unquoted (quoted s) = s"
  by (simp add: unquoted_def quoted_def)

lemma json_read_row:
  assumes "explained r" shows "json_read (butlast (json_row r)) = json_key r"
proof -
  have "butlast (json_row r) = CHR ''{'' # join_with CHR '','' (json_pieces r) @ [CHR ''}'']"
    by (simp add: json_row_def json_pieces_def butlast_append)
  moreover have "split_at CHR '','' (join_with CHR '','' (json_pieces r)) = json_pieces r"
    by (rule split_line(1) [OF plain_pieces [OF assms]]) (simp add: json_pieces_def json_fields_def)
  ultimately show ?thesis
    by (simp add: json_read_def json_key_def Let_def) (simp add: json_pieces_def json_fields_def)
qed

lemma json_row_line:
  assumes "explained r" shows "json_row r = butlast (json_row r) @ [CHR 0x0A]" "CHR 0x0A \<notin> set (butlast (json_row r))"
proof -
  have b: "butlast (json_row r) = CHR ''{'' # join_with CHR '','' (json_pieces r) @ [CHR ''}'']"
    by (simp add: json_row_def json_pieces_def butlast_append)
  then show "json_row r = butlast (json_row r) @ [CHR 0x0A]" by (simp add: json_row_def json_pieces_def)
  have "CHR 0x0A \<notin> set (join_with CHR '','' (json_pieces r))"
    by (rule split_line(2) [OF plain_pieces [OF assms]]) (simp add: json_pieces_def json_fields_def)
  then show "CHR 0x0A \<notin> set (butlast (json_row r))" by (simp add: b)
qed

lemma json_file_lines:
  assumes "\<forall>r\<in>set rows. explained r"
  shows "drop 2 (split_at CHR 0x0A (demo_head @ concat (map json_row rows))) = map (\<lambda>r. butlast (json_row r)) rows @ [[]]"
proof -
  let ?h1 = "''# AdaptIPC per-decision log (real routing)''"
  let ?h2 = "''# fields: seq,payload,ewma,route,switched,shm_cost_us,uds_cost_us,queue_pct,reason''"
  have "concat (map json_row rows) = concat (map (\<lambda>x. x @ [CHR 0x0A]) (map (\<lambda>r. butlast (json_row r)) rows))"
    using assms json_row_line(1) by (induction rows) auto
  then have "demo_head @ concat (map json_row rows)
      = concat (map (\<lambda>x. x @ [CHR 0x0A]) (?h1 # ?h2 # map (\<lambda>r. butlast (json_row r)) rows))"
    by (simp add: demo_head_def)
  moreover have "split_at CHR 0x0A (concat (map (\<lambda>x. x @ [CHR 0x0A]) (?h1 # ?h2 # map (\<lambda>r. butlast (json_row r)) rows)))
      = (?h1 # ?h2 # map (\<lambda>r. butlast (json_row r)) rows) @ [[]]"
    by (rule split_at_lines) (use assms json_row_line(2) in auto)
  ultimately show ?thesis by simp
qed

lemma log_row_explained: "\<forall>r\<in>set (dm_rows d). explained r \<Longrightarrow> \<forall>r\<in>set (dm_rows (log_row i sz d)). explained r"
  by (auto simp: log_row_def Let_def explained_def)

lemma demo_turn_explained:
  "demo_turn rand msgs i ws wr d = Some (n, d') \<Longrightarrow> \<forall>r\<in>set (dm_rows d). explained r \<Longrightarrow> \<forall>r\<in>set (dm_rows d'). explained r"
proof -
  assume a: "demo_turn rand msgs i ws wr d = Some (n, d')" "\<forall>r\<in>set (dm_rows d). explained r"
  have "dm_rows d' = dm_rows d \<or> (\<exists>s. d' = log_row i (demo_size rand msgs i) (d\<lparr>dm_talk := s\<rparr>))"
    using a(1) by (auto simp: demo_turn_def Let_def split: option.splits if_splits) blast
  then show ?thesis
  proof
    assume "\<exists>s. d' = log_row i (demo_size rand msgs i) (d\<lparr>dm_talk := s\<rparr>)"
    then obtain s where "d' = log_row i (demo_size rand msgs i) (d\<lparr>dm_talk := s\<rparr>)" ..
    then show ?thesis using log_row_explained [of "d\<lparr>dm_talk := s\<rparr>"] a(2) by simp
  qed (simp add: a(2))
qed

lemma demo_loop_explained:
  "demo_loop rand msgs ts i d = Some (n, d') \<Longrightarrow> \<forall>r\<in>set (dm_rows d). explained r \<Longrightarrow> \<forall>r\<in>set (dm_rows d'). explained r"
proof (induction rand msgs ts i d rule: demo_loop.induct)
  case (2 rand msgs ws wr ts i d)
  then show ?case using demo_turn_explained by (auto split: option.splits if_splits)
qed (auto split: if_splits)

text \<open>C29: The file reads back, however the run ended: behind two comment lines it has one line for each
  message logged, and the number, the size, the route, the switch and the reason in it are those of the message.\<close>

lemma demo_file_roundtrip:
  assumes "demo_loop rand msgs ts 0 (demo_start p c obj) = Some (n, d)"
  shows "\<exists>lines. drop 2 (split_at CHR 0x0A (demo_file d)) = lines @ [[]] \<and> map json_read lines = map json_key (dm_rows d)"
proof -
  have ok: "\<forall>r\<in>set (dm_rows d). explained r" by (rule demo_loop_explained [OF assms]) (simp add: demo_start_def)
  then have "map json_read (map (\<lambda>r. butlast (json_row r)) (dm_rows d)) = map json_key (dm_rows d)"
    using json_read_row by simp
  then show ?thesis using json_file_lines [OF ok] by (simp add: demo_file_def)
qed

subsection \<open>Six messages\<close>

text \<open>Every draw of \<open>rand\<close> is 0; a kernel that takes each datagram at the second try.\<close>

definition six_world :: "nat \<Rightarrow> world" where
  "six_world n = (quiet_world (page_at 0 0) (sends_only [SysErr EINTR, SysOk (n + 1)]))\<lparr>w_rounds := [page_round]\<rparr>"

definition six_env :: demo_env where
  "six_env = \<lparr>de_time = 7, de_pid = 42, de_rand = (\<lambda>_ _. 0), de_init_p = eager_env, de_init_c = eager_env,
     de_world_p = quiet_world (page_at 0 0) (sends_only []), de_world_c = quiet_world (page_at 0 0) (sends_only []),
     de_fopen = True, de_turns = map (\<lambda>n. ([six_world n], six_world n)) [512, 512, 16384, 16384, 512, 512]\<rparr>"

definition six_opts :: demo_opts where
  "six_opts = \<lparr>op_out = ''showcase/outputs/decision_log.jsonl'', op_msgs = 6, op_seed = 7\<rparr>"

lemma six_opts_of: "demo_opts_of [''--msgs'', ''6''] six_env = Some six_opts"
  by (simp add: demo_opts_of_def six_env_def six_opts_def strtoul_def is_space_def is_digit_def nat_of_string_def Let_def)

lemma six_accepts: "accepts n [SysErr EINTR, SysOk n]"
  unfolding accepts_def by (rule exI [of _ "[SysErr EINTR]"]) (simp add: send_retry_def)

lemma six_turns: "turns_accepted (\<lambda>_. 0) 6 0 (de_turns six_env)"
proof -
  have "demo_size (\<lambda>_. 0) 6 0 = 512" "demo_size (\<lambda>_. 0) 6 1 = 512" "demo_size (\<lambda>_. 0) 6 2 = 16384"
    "demo_size (\<lambda>_. 0) 6 3 = 16384" "demo_size (\<lambda>_. 0) 6 4 = 512" "demo_size (\<lambda>_. 0) 6 5 = 512"
    by (simp_all add: demo_size_def Let_def)
  moreover have "us_send (w_uds (six_world n)) = [SysErr EINTR, SysOk (n + 1)]" "w_rounds (six_world n) = [page_round]" for n
    by (simp_all add: six_world_def sends_only_def)
  ultimately show ?thesis using six_accepts by (simp add: six_env_def)
qed

lemma six_init: "init_works (demo_path side 42) eager_env (quiet_world (page_at 0 0) sc)"
  by (simp add: init_works_def demo_path_def eager_env_def quiet_map_works)

lemma six_simps: "de_pid six_env = 42" "de_init_p six_env = eager_env" "de_init_c six_env = eager_env" "de_fopen six_env"
  "de_world_p six_env = quiet_world (page_at 0 0) (sends_only [])" "de_world_c six_env = quiet_world (page_at 0 0) (sends_only [])"
  "de_rand six_env sd = (\<lambda>_. 0)" "length (de_turns six_env) = 6" "op_msgs six_opts = 6"
  by (simp_all add: six_env_def six_opts_def)

lemma six_premises: "6 \<le> op_msgs six_opts"
  "init_works (demo_path ''p'' (de_pid six_env)) (de_init_p six_env) (de_world_p six_env)"
  "init_works (demo_path ''c'' (de_pid six_env)) (de_init_c six_env) (de_world_c six_env)" "de_fopen six_env"
  "length (de_turns six_env) = unat (op_msgs six_opts)"
  "turns_accepted (de_rand six_env (op_seed six_opts)) (op_msgs six_opts) 0 (de_turns six_env)"
  unfolding six_simps by (simp_all add: six_init six_turns six_simps)

lemma demonstrator_completes_witness:
  "\<exists>r rows. demo_main [''--msgs'', ''6''] six_env = Some r \<and> dr_exit r = 0 \<and>
     dr_file r = Some (demo_head @ concat (map json_row rows)) \<and> map rw_seq rows = [0, 1, 2, 3, 4, 5]"
proof -
  obtain r d where "demo_main [''--msgs'', ''6''] six_env = Some r" "dr_exit r = 0" "dr_file r = Some (demo_file d)"
    and f: "full_run six_opts (de_rand six_env (op_seed six_opts)) (dm_rows d)"
    using demonstrator_completes [OF six_opts_of six_premises] by blast
  moreover have "map rw_seq (dm_rows d) = [0, 1, 2, 3, 4, 5]"
    using f by (simp add: full_run_def six_simps upt_rec)
  ultimately show ?thesis unfolding demo_file_def by (intro exI conjI)
qed

lemma demonstrator_exits_witness:
  "\<exists>r rows. demo_main [''--msgs'', ''6''] six_env = Some r \<and> dr_exit r = 0 \<and>
     full_run six_opts (de_rand six_env (op_seed six_opts)) rows \<and> dr_file r = Some (demo_head @ concat (map json_row rows))"
proof -
  obtain r where r: "demo_main [''--msgs'', ''6''] six_env = Some r" "dr_exit r = 0"
    using demo_main_runs [OF six_opts_of six_premises] by blast
  have ok: "\<forall>(ws, wr)\<in>set (de_turns six_env). worlds_ok ws"
    by (auto simp: six_env_def six_world_def worlds_ok_def sends_only_def errno_defs)
  from demonstrator_exits [OF r(1) ok] r show ?thesis unfolding six_opts_of by auto
qed

lemma demo_file_roundtrip_witness:
  "\<exists>r d lines. demo_main [''--msgs'', ''6''] six_env = Some r \<and> dr_file r = Some (demo_file d) \<and>
     drop 2 (split_at CHR 0x0A (demo_file d)) = lines @ [[]] \<and> map (fst \<circ> json_read) lines = [0, 1, 2, 3, 4, 5]"
proof -
  let ?is = "map of_nat [0..<unat (op_msgs six_opts)] :: u64 list"
  obtain r p q obj d where r: "demo_main [''--msgs'', ''6''] six_env = Some r" "dr_file r = Some (demo_file d)"
    and l: "demo_loop (de_rand six_env (op_seed six_opts)) (op_msgs six_opts) (de_turns six_env) 0 (demo_start p q obj) = Some (0, d)"
    and a: "adds (de_rand six_env (op_seed six_opts)) (op_msgs six_opts) ?is (demo_start p q obj) d"
    using demo_main_runs [OF six_opts_of six_premises] by blast
  have "map rw_seq (dm_rows d) = [0, 1, 2, 3, 4, 5]"
    using adds_full_run [OF a] by (simp add: full_run_def six_simps upt_rec)
  then have k: "map unat (map rw_seq (dm_rows d)) = [0, 1, 2, 3, 4, 5]" by simp
  obtain lines where m: "drop 2 (split_at CHR 0x0A (demo_file d)) = lines @ [[]]" "map json_read lines = map json_key (dm_rows d)"
    using demo_file_roundtrip [OF l] by blast
  have "map (fst \<circ> json_read) lines = map fst (map json_read lines)" by simp
  also have "\<dots> = map unat (map rw_seq (dm_rows d))" unfolding m(2) by (simp add: json_key_def)
  finally show ?thesis using r m(1) k by auto
qed

end
