(* ===== verification/Spec2Isabelle.thy ===== *)
theory Spec2Isabelle
  imports RingEdges RingFlow FlowRefine WakeTso FutexEmu Policy DecisionCsv Session Conversation Negotiation ColdStart BlockingTalk DemoRuns
begin

text \<open>
  AdaptIPC is a C library for sending messages between two processes of one machine. Every message
  takes one of two transports: a single-producer single-consumer ring in POSIX shared memory, or a
  datagram on a Unix-domain socket. A producer endpoint decides message by message, from a moving
  average of the sizes, the state of the ring and a cost model, and it negotiates the ring with
  the consumer over the socket the first time it needs it.

  \<^bold>\<open>Parts and theories.\<close>

  \<^item> \<open>src/shm_ringbuffer.c\<close>, \<open>include/shm_ringbuffer.h\<close>: \<open>RingBuffer\<close> has the header, the mapped object,
    the handle and every operation (\<open>ring_map\<close>, \<open>shm_ring_push\<close>, \<open>shm_ring_push_scatter\<close>, \<open>shm_ring_pop\<close>,
    the snapshots, \<open>shm_ring_close\<close>). Cursors and sizes are 64-bit words, the data area a memory of
    bytes, each copy of the code a block write. \<open>RingFlow\<close> has \<open>shm_ring_wait_writable\<close> and
    \<open>shm_ring_push_scatter_blocking\<close>. \<open>WakeProtocol\<close> has the single atomic accesses of producer and
    consumer as a step relation, \<open>WakeTso\<close> the same accesses with a store buffer on each side, as on
    x86, \<open>FutexEmu\<close> the variant with a mutex and a condition variable that
    is compiled where there is no futex.
  \<^item> \<open>src/uds_fallback.c\<close>: \<open>UdsFallback\<close>, every operation against a script of system-call results.
  \<^item> \<open>src/runtime_context.c\<close>: \<open>RuntimeContext\<close>; \<open>src/transport_health.c\<close>: \<open>TransportHealth\<close>.
  \<^item> \<open>src/cost_model.c\<close>: \<open>CostModel\<close> (configuration, calibration, cost primitives), \<open>DecisionLog\<close> (the
    circular log), \<open>Policy\<close> (\<open>adapt_policy_decide\<close>, one definition per branch), \<open>DecisionCsv\<close> (the file
    that \<open>adapt_declog_dump\<close> writes).
  \<^item> \<open>src/adapt_ipc.c\<close>, \<open>include/adapt_ipc.h\<close>: \<open>AdaptTypes\<close> (enumerations, thresholds, names) and
    \<open>AdaptIpc\<close> (context, control channel, \<open>adapt_init\<close>, \<open>adapt_send\<close> cut into its numbered stages,
    \<open>adapt_recv\<close>, \<open>adapt_recv_uds_timeout\<close>, introspection, \<open>adapt_shutdown\<close>).
  \<^item> \<open>showcase/decision_log.c\<close>: \<open>Demonstrator\<close>, the whole program as a client of the library, a producer and a
    consumer in one process with a row of JSON for each message.

  Definitions keep the names of the C functions. The fields of a structure carry a prefix of two
  letters (\<open>cx_\<close> for the endpoint, \<open>rb_\<close> for the ring handle, \<open>dc_\<close> for a decision, and so on).
  Results are the codes of the code, negated errno values included.

  \<^bold>\<open>How the surroundings are modelled.\<close> The code calls the kernel, the clock, \<open>getenv\<close> and \<open>atof\<close>, and
  shares memory with the peer. These are arguments: a record of results for the calls of
  \<open>ring_map\<close> and \<open>uds_open\<close>, a list of results for each of the calls in a retry loop
  (\<open>uds_script\<close>), clock readings as a function of how many were taken, and for what the peer does
  meanwhile a list of actions (\<open>wait_round\<close> between two accesses of the flow control, \<open>w_peer\<close>
  between two polls of the receiver). A \<open>world\<close> collects them for a call of \<open>AdaptIpc\<close>. A loop that
  the code does not bound is a \<open>partial_function (option)\<close> or a recursion on its script; \<open>None\<close> is
  a call that does not return on it. There is no fuel. What the consumer's pops hand out while a producer's
  call waits is recorded beside the object (\<open>obj_taken\<close>), so that a theorem about the producer can say
  where the messages went that are gone from the ring.

  Floating point is the binary64 arithmetic of \<open>Binary64\<close>: finite doubles are the rationals they
  denote, every operation rounds to nearest with ties to even, overflow goes to an infinity. It is
  executable. The sign of zero and the payload of a NaN are left out, which no branch of the code
  reads.

  \<^bold>\<open>What is shown.\<close>

  \<^item> Ring as a queue. \<open>RingQueue\<close> relates the bytes to a list of messages (\<open>ring_holds\<close>), with pads before
    a wrap and the wrap of the 64-bit cursors; push and pop refine the operations of the
    list on every branch, the scatter push equals the plain push of the concatenation except for its
    limits (\<open>RingScatter\<close>). \<open>Channel\<close> states the contract of a message channel as a locale, proves there
    that every run delivers in order what was accepted, and \<open>RingFifo\<close> interprets it for both
    ways to send. \<open>RingEdges\<close> has the bounds, the sentinel that is written past the data area,
    and the messages that an empty ring refuses.
  \<^item> Runs. \<open>Runs\<close> has the contracts of operations that keep an invariant, of a simulation and of steps that use
    up a measure, as locales; the sends of an endpoint, the turns of a conversation, the runs of pushes and pops, the futex emulation and
    the consumer of the wake protocol interpret them.
  \<^item> Flow control. A blocking push is atomic with respect to the pops around it, and what is gone from the ring
    when it returns the consumer has been handed, in order; what the push needs to
    succeed, and when it spins (\<open>RingFlow\<close>). No wakeup is lost and a sleeper is woken, under every
    interleaving of the atomic accesses (\<open>WakeProtocol\<close>); the operations on the bytes, the blocking push
    with the pops during its waits and the pops between, are runs of that protocol (\<open>FlowRefine\<close>), and the emulation refines that protocol step by
    step (\<open>FutexEmu\<close>). On total store order the wakeup of the code can be lost, and with a full fence behind the
    arming of the flag it cannot (\<open>WakeTso\<close>).
  \<^item> Estimators and policy. Ranges and finiteness of every estimate and of the fitted models
    (\<open>Ewma\<close>, \<open>RuntimeContext\<close>, \<open>CostModel\<close>), the health graph and its debounce (\<open>TransportHealth\<close>), the
    absence of thrashing, the stability margin and the escapes (\<open>Policy\<close>), the log and its file.
  \<^item> Endpoint. \<open>ContextInv\<close> has the invariant of the context, \<open>Endpoint\<close> and \<open>Delivery\<close> the stages of a
    send and of a receive, \<open>Session\<close> the properties of calls: one message, sent once, retried on its
    route, received as sent, and the corners of the control channel. \<open>Conversation\<close> composes a producer
    and a consumer over one ring and one socket and shows that any sequence of calls, with blocking sends during
    which the consumer goes on,
    loses, alters and duplicates nothing and keeps the order on each transport; \<open>Negotiation\<close> shows
    that the exchange of request and acknowledgement ends in such a pair of endpoints, \<open>Lockstep\<close> that
    the eager initialisation does, and that a blocking send over an empty ring does not wait,
    \<open>ColdStart\<close> that a first message too long for a datagram negotiates the ring within its own
    \<open>adapt_send\<close> and is received as sent, \<open>BlockingTalk\<close> that a blocking sender gets every message through
    if the consumer empties the ring in the end.
  \<^item> Demonstrator. \<open>DemoRuns\<close> follows the program from its arguments to its exit: no receive fails, a run in
    which the system refuses nothing is complete, and the file reads back.

  \<^bold>\<open>Bounds.\<close> A ring has between one page and \<open>2 ^ 31\<close> bytes (\<open>ring_geom\<close>, \<open>capacity_ok\<close>): the code rounds any
  request to a power of two of at least a page, and the 32-bit length field of a record makes
  larger ones meaningless. Message lengths are below \<open>2 ^ 62\<close>, so that adding headers
  does not wrap. \<open>Conversation\<close> takes the ring as mapped on both sides and
  datagrams that the kernel takes whole; the single-call properties of \<open>Session\<close> do without.

  \<^bold>\<open>Not modelled.\<close> The memory order of the C atomics outside the wake protocol: elsewhere steps interleave
  sequentially consistently, which is stronger than the acquire and release operations of the code; and in
  the wake protocol the reorderings of machines weaker than total store order. The text of \<open>strerror\<close>, a
  parameter. \<open>rand\<close>, \<open>time\<close> and \<open>fopen\<close>, arguments of the demonstrator. What the demonstrator prints to the standard error output. The tests and the benchmarks, which
  only drive the library and report measurements; build files and scripts.
\<close>

end
